(* ===== verification/Prelude.thy ===== *)
theory Prelude
  imports Main "HOL-Library.Word"
begin

unbundle bit_operations_syntax

text \<open>
  Shared vocabulary of the development.

  The kernel is C code that runs to completion, panics, takes a page fault inside the
  kernel, terminates the calling process or goes to sleep. Each of these is a value of
  \<open>outcome\<close>, and every C function with effects is a function from a state record to an
  outcome (a state monad with halting). \<open>bnd\<close> is the C semicolon.

  The state records of the components extend each other, so an operation of a component
  is typed over every later extension of the component's record.
\<close>

type_synonym u8 = "8 word"
type_synonym u16 = "16 word"
type_synonym u32 = "32 word"
type_synonym u64 = "64 word"

lemma word_eqI_unat: "unat a = unat b \<Longrightarrow> a = b"
  by (simp add: word_unat_eq_iff)

lemma unat_u64_less: "unat (a :: u64) < 2 ^ 64"
  using unsigned_less [of a] by simp

lemma unat_u32_less: "unat (a :: u32) < 2 ^ 32"
  using unsigned_less [of a] by simp

section \<open>Outcomes and the kernel monad\<close>

text \<open>
  \<open>Panic\<close> is a call of \<open>panic\<close>; \<open>Fault\<close> is an access of the kernel to an address its page
  table does not map (kerneltrap then panics); \<open>Exited\<close> is a call of \<open>exit\<close>, which does
  not return; \<open>Blocked\<close> is a process that sleeps on a channel or a loop that never ends.
\<close>

datatype halt = Panic string | Fault u64 | Exited int | Blocked string

datatype ('a, 's) outcome = Ok 'a 's | Halt halt 's

type_synonym ('s, 'a) kmon = "'s \<Rightarrow> ('a, 's) outcome"

definition ret :: "'a \<Rightarrow> ('s, 'a) kmon" where
  "ret x = (\<lambda>s. Ok x s)"

definition stop :: "halt \<Rightarrow> ('s, 'a) kmon" where
  "stop h = (\<lambda>s. Halt h s)"

abbreviation panic :: "string \<Rightarrow> ('s, 'a) kmon" where
  "panic msg \<equiv> stop (Panic msg)"

definition bnd :: "('s, 'a) kmon \<Rightarrow> ('a \<Rightarrow> ('s, 'b) kmon) \<Rightarrow> ('s, 'b) kmon" where
  "bnd f g = (\<lambda>s. case f s of Ok x t \<Rightarrow> g x t | Halt h t \<Rightarrow> Halt h t)"

definition gets :: "('s \<Rightarrow> 'a) \<Rightarrow> ('s, 'a) kmon" where
  "gets f = (\<lambda>s. Ok (f s) s)"

definition modify :: "('s \<Rightarrow> 's) \<Rightarrow> ('s, unit) kmon" where
  "modify f = (\<lambda>s. Ok () (f s))"

definition guarded :: "bool \<Rightarrow> ('s, unit) kmon \<Rightarrow> ('s, unit) kmon" where
  "guarded b f = (if b then f else ret ())"

primrec for_each :: "('b \<Rightarrow> ('s, unit) kmon) \<Rightarrow> 'b list \<Rightarrow> ('s, unit) kmon" where
  "for_each f [] = ret ()"
| "for_each f (x # xs) = bnd (f x) (\<lambda>_. for_each f xs)"

section \<open>Evaluation rules\<close>

named_theorems kmon_simps "evaluation of the kernel monad on a state"

lemma ret_run [simp, kmon_simps]: "ret x s = Ok x s"
  by (simp add: ret_def)

lemma stop_run [simp, kmon_simps]: "stop h s = Halt h s"
  by (simp add: stop_def)

lemma gets_run [simp, kmon_simps]: "gets f s = Ok (f s) s"
  by (simp add: gets_def)

lemma modify_run [simp, kmon_simps]: "modify f s = Ok () (f s)"
  by (simp add: modify_def)

lemma guarded_run [simp, kmon_simps]: "guarded b f s = (if b then f s else Ok () s)"
  by (simp add: guarded_def)

lemma bnd_Ok [simp, kmon_simps]: "f s = Ok x t \<Longrightarrow> bnd f g s = g x t"
  by (simp add: bnd_def)

lemma bnd_Halt [simp, kmon_simps]: "f s = Halt h t \<Longrightarrow> bnd f g s = Halt h t"
  by (simp add: bnd_def)

text \<open>Unconditional forms, for long straight-line code.\<close>

lemma straight:
  "bnd (ret x) g s = g x s" "bnd (stop h) g s = Halt h s" "bnd (gets e) g s = g (e s) s"
  "bnd (modify u) k s = k () (u s)"
  by (simp_all add: bnd_def)

lemma bnd_eq_Ok: "bnd f g s = Ok y u \<longleftrightarrow> (\<exists>x t. f s = Ok x t \<and> g x t = Ok y u)"
  by (auto simp: bnd_def split: outcome.splits)

lemma bnd_eq_Halt:
  "bnd f g s = Halt h u \<longleftrightarrow> f s = Halt h u \<or> (\<exists>x t. f s = Ok x t \<and> g x t = Halt h u)"
  by (auto simp: bnd_def split: outcome.splits)

lemma bnd_OkE:
  assumes "bnd f g s = Ok y u"
  obtains x t where "f s = Ok x t" and "g x t = Ok y u"
  using assms by (auto simp: bnd_eq_Ok)

lemma bnd_assoc: "bnd (bnd f g) h = bnd f (\<lambda>x. bnd (g x) h)"
  by (auto simp: bnd_def split: outcome.splits)

lemma bnd_cong [fundef_cong]:
  assumes "s = s'" and "f s' = f' s'" and "\<And>x t. f' s' = Ok x t \<Longrightarrow> g x t = g' x t"
  shows "bnd f g s = bnd f' g' s'"
  using assms by (auto simp: bnd_def split: outcome.splits)

section \<open>Frames: what an operation leaves unchanged\<close>

text \<open>
  \<open>keeps v f\<close>: when \<open>f\<close> returns, the view \<open>v\<close> of the state is what it was before.
  The rules follow the structure of the program, so that the frame of an operation is
  proved by \<open>intro\<close> over \<open>keeps_intros\<close> and the frames of the operations it calls.
\<close>

definition keeps :: "('s \<Rightarrow> 'v) \<Rightarrow> ('s, 'a) kmon \<Rightarrow> bool" where
  "keeps v f \<longleftrightarrow> (\<forall>s x t. f s = Ok x t \<longrightarrow> v t = v s)"

named_theorems keeps_intros "frame rules, one per program construct"

lemma keepsI: "(\<And>s x t. f s = Ok x t \<Longrightarrow> v t = v s) \<Longrightarrow> keeps v f"
  by (simp add: keeps_def)

lemma keepsD: "keeps v f \<Longrightarrow> f s = Ok x t \<Longrightarrow> v t = v s"
  by (simp add: keeps_def)

lemma keeps_Pair: "keeps u f \<Longrightarrow> keeps v f \<Longrightarrow> keeps (\<lambda>s. (u s, v s)) f"
  by (simp add: keeps_def)

lemma keeps_ret [keeps_intros]: "keeps v (ret x)"
  by (simp add: keeps_def)

lemma keeps_stop [keeps_intros]: "keeps v (stop h)"
  by (simp add: keeps_def)

lemma keeps_gets [keeps_intros]: "keeps v (gets f)"
  by (simp add: keeps_def)

lemma keeps_modify: "(\<And>s. v (f s) = v s) \<Longrightarrow> keeps v (modify f)"
  by (simp add: keeps_def)

lemma keeps_guarded [keeps_intros]: "(b \<Longrightarrow> keeps v f) \<Longrightarrow> keeps v (guarded b f)"
  by (simp add: keeps_def)

lemma keeps_bnd [keeps_intros]:
  "keeps v f \<Longrightarrow> (\<And>x. keeps v (g x)) \<Longrightarrow> keeps v (bnd f g)"
  by (auto simp: keeps_def bnd_eq_Ok)

lemma keeps_if [keeps_intros]:
  "(b \<Longrightarrow> keeps v f) \<Longrightarrow> (\<not> b \<Longrightarrow> keeps v g) \<Longrightarrow> keeps v (if b then f else g)"
  by simp

lemma keeps_case_option [keeps_intros]:
  "keeps v f \<Longrightarrow> (\<And>x. keeps v (g x)) \<Longrightarrow> keeps v (case y of None \<Rightarrow> f | Some x \<Rightarrow> g x)"
  by (cases y) simp_all

lemma keeps_case_prod [keeps_intros]:
  "(\<And>a b. keeps v (f a b)) \<Longrightarrow> keeps v (case p of (a, b) \<Rightarrow> f a b)"
  by (cases p) simp

lemma keeps_for_each [keeps_intros]:
  "(\<And>x. keeps v (f x)) \<Longrightarrow> keeps v (for_each f xs)"
  by (induction xs) (auto intro: keeps_intros)

text \<open>
  The same from one state, for loops whose frame is proved by computation induction: the rule for
  \<open>bnd\<close> remembers the run of the first part, which the induction hypothesis asks for.
\<close>

definition keeps_at :: "('s \<Rightarrow> 'v) \<Rightarrow> ('s, 'a) kmon \<Rightarrow> 's \<Rightarrow> bool" where
  "keeps_at v f s \<longleftrightarrow> (\<forall>x t. f s = Ok x t \<longrightarrow> v t = v s)"

named_theorems keeps_at_intros "frame rules from one state"

lemma keeps_atI: "(\<And>s. keeps_at v f s) \<Longrightarrow> keeps v f"
  by (simp add: keeps_at_def keeps_def)

lemma keeps_at_keeps: "keeps v f \<Longrightarrow> keeps_at v f s"
  by (simp add: keeps_at_def keeps_def)

lemma keeps_at_step: "(\<And>s. f s = g s) \<Longrightarrow> keeps_at v g s \<Longrightarrow> keeps_at v f s"
  by (simp add: keeps_at_def)

lemma keeps_at_bnd [keeps_at_intros]:
  "keeps v f \<Longrightarrow> (\<And>x t. f s = Ok x t \<Longrightarrow> keeps_at v (g x) t) \<Longrightarrow> keeps_at v (bnd f g) s"
  by (auto simp: keeps_def keeps_at_def bnd_eq_Ok)

lemma keeps_at_if [keeps_at_intros]:
  "(b s \<Longrightarrow> keeps_at v f s) \<Longrightarrow> (\<not> b s \<Longrightarrow> keeps_at v g s) \<Longrightarrow> keeps_at v (\<lambda>t. if b t then f t else g t) s"
  by (simp add: keeps_at_def)

lemma keeps_at_Ok [keeps_at_intros]: "keeps_at v (Ok x) s"
  by (simp add: keeps_at_def)

lemma keeps_at_Halt [keeps_at_intros]: "keeps_at v (Halt h) s"
  by (simp add: keeps_at_def)

section \<open>Total correctness\<close>

text \<open>
  \<open>returns P f Q\<close>: from every state with \<open>P\<close> the operation returns (no panic, no fault, no
  blocking), and its result and final state satisfy \<open>Q\<close>.
\<close>

definition returns :: "('s \<Rightarrow> bool) \<Rightarrow> ('s, 'a) kmon \<Rightarrow> ('a \<Rightarrow> 's \<Rightarrow> bool) \<Rightarrow> bool" where
  "returns P f Q \<longleftrightarrow> (\<forall>s. P s \<longrightarrow> (\<exists>x t. f s = Ok x t \<and> Q x t))"

lemma returnsI: "(\<And>s. P s \<Longrightarrow> \<exists>x t. f s = Ok x t \<and> Q x t) \<Longrightarrow> returns P f Q"
  by (simp add: returns_def)

lemma returnsE:
  assumes "returns P f Q" and "P s"
  obtains x t where "f s = Ok x t" and "Q x t"
  using assms by (auto simp: returns_def)

lemma returns_bnd:
  assumes "returns P f R" and "\<And>x. returns (R x) (g x) Q"
  shows "returns P (bnd f g) Q"
  using assms unfolding returns_def bnd_eq_Ok by blast

lemma returns_weaken:
  "returns P' f Q' \<Longrightarrow> (\<And>s. P s \<Longrightarrow> P' s) \<Longrightarrow> (\<And>x s. Q' x s \<Longrightarrow> Q x s) \<Longrightarrow> returns P f Q"
  unfolding returns_def by fastforce

section \<open>Lists linked through a next pointer\<close>

text \<open>
  A C list of array elements: \<open>nxt\<close> maps an element to its successor, \<open>None\<close> is the null
  pointer. \<open>linked nxt p xs\<close> says that following \<open>nxt\<close> from \<open>p\<close> visits exactly \<open>xs\<close> and then
  reaches null; \<open>segment nxt p xs q\<close> is the same with an end pointer.
\<close>

primrec segment :: "('i \<Rightarrow> 'i option) \<Rightarrow> 'i option \<Rightarrow> 'i list \<Rightarrow> 'i option \<Rightarrow> bool" where
  "segment nxt p [] q \<longleftrightarrow> p = q"
| "segment nxt p (x # xs) q \<longleftrightarrow> p = Some x \<and> segment nxt (nxt x) xs q"

abbreviation linked :: "('i \<Rightarrow> 'i option) \<Rightarrow> 'i option \<Rightarrow> 'i list \<Rightarrow> bool" where
  "linked nxt p xs \<equiv> segment nxt p xs None"

lemma segment_append:
  "segment nxt p (xs @ ys) q \<longleftrightarrow> (\<exists>r. segment nxt p xs r \<and> segment nxt r ys q)"
  by (induction xs arbitrary: p) auto

lemma segment_upd [simp]:
  "x \<notin> set xs \<Longrightarrow> segment (nxt(x := v)) p xs q = segment nxt p xs q"
  by (induction xs arbitrary: p) auto

lemma segment_cong:
  "(\<And>x. x \<in> set xs \<Longrightarrow> nxt x = nxt' x) \<Longrightarrow> segment nxt p xs q = segment nxt' p xs q"
  by (induction xs arbitrary: p) auto

lemma linked_None [simp]: "linked nxt None xs \<longleftrightarrow> xs = []"
  by (cases xs) auto

lemma linked_Some: "linked nxt (Some x) xs \<longleftrightarrow> (\<exists>ys. xs = x # ys \<and> linked nxt (nxt x) ys)"
  by (cases xs) auto

lemma linked_unique: "linked nxt p xs \<Longrightarrow> linked nxt p ys \<Longrightarrow> xs = ys"
proof (induction xs arbitrary: p ys)
  case Nil
  then show ?case by simp
next
  case (Cons x xs)
  then obtain zs where "ys = x # zs" and "linked nxt (nxt x) zs"
    by (auto simp: linked_Some)
  with Cons show ?case by auto
qed

lemma linked_distinct: "linked nxt p xs \<Longrightarrow> distinct xs"
proof (induction xs arbitrary: p)
  case Nil
  then show ?case by simp
next
  case (Cons x xs)
  then have tail: "linked nxt (nxt x) xs" by simp
  have "x \<notin> set xs"
  proof
    assume "x \<in> set xs"
    then obtain us vs where xs: "xs = us @ x # vs" by (auto simp: in_set_conv_decomp)
    with tail have "linked nxt (nxt x) vs" by (auto simp: segment_append)
    with tail have "length xs = length vs" by (auto dest: linked_unique)
    moreover from xs have "length xs = length us + Suc (length vs)" by simp
    ultimately show False by linarith
  qed
  with Cons.IH [OF tail] show ?case by simp
qed

end
