(* ===== verification/Riscv.thy ===== *)
theory Riscv
  imports Prelude
begin

unbundle bit_operations_syntax

text \<open>
  The macros of \<open>kernel/riscv.h\<close>, \<open>kernel/memlayout.h\<close>, \<open>kernel/param.h\<close> and the constants
  of \<open>kernel/vma.h\<close> and \<open>kernel/fcntl.h\<close>: page rounding, the Sv39 page-table indices and the
  packing of a physical address and its flags into a page-table entry, on 64-bit words.
  The lemmas give their meaning on natural numbers.
\<close>

section \<open>Sizes\<close>

definition PGSIZE :: u64 where [simp]: "PGSIZE = 4096"

definition MAXVA :: u64 where "MAXVA = 0x4000000000"

definition KERNBASE :: u64 where "KERNBASE = 0x80000000"

definition PHYSTOP :: u64 where "PHYSTOP = 0x88000000"

definition TRAMPOLINE :: u64 where "TRAMPOLINE = MAXVA - PGSIZE"

definition TRAPFRAME :: u64 where "TRAPFRAME = TRAMPOLINE - PGSIZE"

definition KSTACK :: "nat \<Rightarrow> u64" where
  "KSTACK p = TRAMPOLINE - (of_nat p + 1) * 2 * PGSIZE"

definition START_ADDRESS :: u64 where "START_ADDRESS = 0x2000000000"

definition TOP_ADDRESS :: u64 where "TOP_ADDRESS = 0x3FFFFFDFFF"

definition VMAS_STORED :: nat where [simp]: "VMAS_STORED = 30"

definition MAX_VMAS :: nat where [simp]: "MAX_VMAS = 10"

definition NPROC :: nat where [simp]: "NPROC = 64"

definition NOFILE :: nat where [simp]: "NOFILE = 16"

definition NFILE :: nat where [simp]: "NFILE = 100"

definition NINODE :: nat where [simp]: "NINODE = 50"

definition NDEV :: nat where [simp]: "NDEV = 10"

definition MAXARG :: nat where [simp]: "MAXARG = 32"

definition MAXOPBLOCKS :: nat where [simp]: "MAXOPBLOCKS = 10"

definition LOGSIZE :: nat where [simp]: "LOGSIZE = 30"

definition NBUF :: nat where [simp]: "NBUF = 30"

definition PROT_READ :: u64 where [simp]: "PROT_READ = 2"

definition PROT_WRITE :: u64 where [simp]: "PROT_WRITE = 4"

definition PROT_READ_WRITE :: u64 where [simp]: "PROT_READ_WRITE = 6"

definition MAP_PRIVATE :: u64 where [simp]: "MAP_PRIVATE = 1"

definition MAP_SHARED :: u64 where [simp]: "MAP_SHARED = 2"

section \<open>Pages and page-table entries\<close>

definition PGROUNDUP :: "u64 \<Rightarrow> u64" where
  "PGROUNDUP sz = (sz + PGSIZE - 1) AND NOT (PGSIZE - 1)"

definition PGROUNDDOWN :: "u64 \<Rightarrow> u64" where
  "PGROUNDDOWN a = a AND NOT (PGSIZE - 1)"

definition PTE_V :: u64 where [simp]: "PTE_V = 1"

definition PTE_R :: u64 where [simp]: "PTE_R = 2"

definition PTE_W :: u64 where [simp]: "PTE_W = 4"

definition PTE_X :: u64 where [simp]: "PTE_X = 8"

definition PTE_U :: u64 where [simp]: "PTE_U = 16"

definition PTE_D :: u64 where [simp]: "PTE_D = 128"

definition PA2PTE :: "u64 \<Rightarrow> u64" where
  "PA2PTE pa = push_bit 10 (drop_bit 12 pa)"

definition PTE2PA :: "u64 \<Rightarrow> u64" where
  "PTE2PA pte = push_bit 12 (drop_bit 10 pte)"

definition PTE_FLAGS :: "u64 \<Rightarrow> u64" where
  "PTE_FLAGS pte = pte AND 0x3FF"

definition PXSHIFT :: "nat \<Rightarrow> nat" where
  "PXSHIFT level = 12 + 9 * level"

definition PX :: "nat \<Rightarrow> u64 \<Rightarrow> u64" where
  "PX level va = drop_bit (PXSHIFT level) va AND 0x1FF"

section \<open>Meaning of the macros\<close>

text \<open>\<open>page_aligned\<close> and the number of the page an address lies in.\<close>

definition page_aligned :: "u64 \<Rightarrow> bool" where
  "page_aligned a \<longleftrightarrow> 4096 dvd unat a"

lemma and_not_page_mask: "a AND (- 4096 :: u64) = a - a mod 4096"
proof -
  have m: "(- 4096 :: u64) = NOT (mask 12)" by (simp add: mask_eq_exp_minus_1)
  have t: "a mod 4096 = take_bit 12 a" by (simp add: take_bit_eq_mod)
  have "(a AND NOT (mask 12)) + (a AND mask 12) = a"
    by (subst disjunctive_add) (auto intro: bit_word_eqI simp: bit_simps)
  then show ?thesis
    unfolding m t take_bit_eq_mask by (simp add: eq_diff_eq)
qed

lemma unat_mod_4096: "unat (a mod 4096 :: u64) = unat a mod 4096"
  by (simp add: unat_mod)

lemma unat_PGROUNDDOWN: "unat (PGROUNDDOWN a) = unat a - unat a mod 4096"
proof -
  have "a mod 4096 \<le> a" by (simp add: word_le_nat_alt unat_mod_4096)
  then show ?thesis
    by (simp add: PGROUNDDOWN_def and_not_page_mask unat_sub unat_mod_4096)
qed

lemma unat_PGROUNDDOWN_div: "unat (PGROUNDDOWN a) = (unat a div 4096) * 4096"
  by (simp add: unat_PGROUNDDOWN minus_mod_eq_div_mult)

lemma PGROUNDUP_eq: "PGROUNDUP a = PGROUNDDOWN (a + 4095)"
  by (simp add: PGROUNDUP_def PGROUNDDOWN_def add.commute)

lemma unat_PGROUNDUP:
  assumes "unat a + 4095 < 2 ^ 64"
  shows "unat (PGROUNDUP a) = ((unat a + 4095) div 4096) * 4096"
proof -
  have "unat (a + 4095) = unat a + 4095" using assms by (simp add: unat_plus_if')
  then show ?thesis by (simp add: PGROUNDUP_eq unat_PGROUNDDOWN_div)
qed

lemma unat_PGROUNDUP_wrap:
  assumes "2 ^ 64 \<le> unat a + 4095"
  shows "PGROUNDUP a = 0"
proof -
  have "unat (a + 4095) = unat a + 4095 - 2 ^ 64" using assms by (simp add: unat_plus_if')
  moreover have "unat a < 2 ^ 64" using unat_u64_less [of a] by simp
  ultimately have "unat (PGROUNDUP a) = unat (0 :: u64)"
    by (simp add: PGROUNDUP_eq unat_PGROUNDDOWN_div)
  then show ?thesis by (rule word_eqI_unat)
qed

lemma page_aligned_PGROUNDDOWN [simp]: "page_aligned (PGROUNDDOWN a)"
  by (simp add: page_aligned_def unat_PGROUNDDOWN_div)

lemma page_aligned_PGROUNDUP [simp]: "page_aligned (PGROUNDUP a)"
  by (simp add: PGROUNDUP_eq)

lemma PGROUNDDOWN_aligned: "page_aligned a \<Longrightarrow> PGROUNDDOWN a = a"
  by (auto intro: word_eqI_unat simp: page_aligned_def unat_PGROUNDDOWN)

lemma PGROUNDDOWN_le: "PGROUNDDOWN a \<le> a"
  by (simp add: word_le_nat_alt unat_PGROUNDDOWN)

lemma PGROUNDUP_aligned:
  assumes "page_aligned a"
  shows "PGROUNDUP a = a"
proof -
  have "unat a + 4095 < 2 ^ 64"
  proof -
    have "unat a < 2 ^ 64" using unat_u64_less [of a] by simp
    moreover from assms obtain k where "unat a = 4096 * k" by (auto simp: page_aligned_def)
    ultimately have "k < 2 ^ 52" and "unat a = 4096 * k" by simp_all
    then show ?thesis by simp
  qed
  then show ?thesis
    using assms by (auto intro!: word_eqI_unat simp: unat_PGROUNDUP page_aligned_def)
qed

lemma unat_and_511: "unat (w AND 0x1FF :: u64) = unat w mod 512"
proof -
  have "w AND 0x1FF = take_bit 9 w" by (simp add: take_bit_eq_mask mask_eq_exp_minus_1)
  then have "w AND 0x1FF = w mod 512" by (simp add: take_bit_eq_mod)
  then show ?thesis by (simp add: unat_mod)
qed

lemma unat_PX: "unat (PX level va) = unat va div 2 ^ (12 + 9 * level) mod 512"
  unfolding PX_def PXSHIFT_def unat_and_511 unat_drop_bit_eq by (simp add: drop_bit_eq_div)

lemma PX_bound: "unat (PX level va) < 512"
  by (simp add: unat_PX)

lemma PTE2PA_PA2PTE:
  assumes "page_aligned pa" and "unat pa < 2 ^ 56" and "unat f < 1024"
  shows "PTE2PA (PA2PTE pa OR f) = pa"
proof (rule bit_word_eqI)
  fix n assume "n < LENGTH(64)"
  have lo: "\<not> bit pa k" if "k < 12" for k
  proof -
    from assms(1) have "take_bit 12 (unat pa) = 0"
      by (simp add: page_aligned_def take_bit_eq_mod)
    then have "\<not> bit (take_bit 12 (unat pa)) k" by simp
    with that show ?thesis by (simp add: bit_simps bit_unsigned_iff)
  qed
  have hi: "\<not> bit pa k" if "56 \<le> k" for k
  proof -
    from assms(2) have "take_bit 56 (unat pa) = unat pa" by (simp add: take_bit_nat_eq_self)
    then have "bit (unat pa) k \<longleftrightarrow> bit (take_bit 56 (unat pa)) k" by simp
    with that show ?thesis by (auto simp: bit_simps bit_unsigned_iff dest: bit_imp_le_length)
  qed
  have f: "\<not> bit f k" if "10 \<le> k" for k
  proof -
    from assms(3) have "take_bit 10 (unat f) = unat f" by (simp add: take_bit_nat_eq_self)
    then have "bit (unat f) k \<longleftrightarrow> bit (take_bit 10 (unat f)) k" by simp
    with that show ?thesis by (auto simp: bit_simps bit_unsigned_iff dest: bit_imp_le_length)
  qed
  show "bit (PTE2PA (PA2PTE pa OR f)) n = bit pa n"
  proof (cases "n < 12")
    case True
    with lo show ?thesis unfolding PTE2PA_def bit_push_bit_iff by simp
  next
    case False
    then obtain k where n: "n = 12 + k" using le_iff_add [of 12 n] by auto
    have "bit (PTE2PA (PA2PTE pa OR f)) n = bit (PA2PTE pa OR f) (10 + k)"
      using \<open>n < LENGTH(64)\<close> unfolding PTE2PA_def bit_push_bit_iff n by (simp add: bit_drop_bit_eq bit_or_iff)
    also have "\<dots> = bit pa n"
      using \<open>n < LENGTH(64)\<close> f [of "10 + k"] hi [of n]
      by (auto simp: n PA2PTE_def bit_or_iff bit_push_bit_iff bit_drop_bit_eq)
    finally show ?thesis .
  qed
qed

lemma and_1_eq_0: "(w AND 1 = (0 :: u64)) \<longleftrightarrow> \<not> bit w 0"
  by (simp add: and_one_eq odd_iff_mod_2_eq_one bit_0)

lemma PTE_V_set [simp]: "(w OR 1) AND 1 \<noteq> (0 :: u64)"
  by (simp add: and_1_eq_0 bit_or_iff)

lemma PTE_FLAGS_PA2PTE:
  assumes "unat f < 1024"
  shows "PTE_FLAGS (PA2PTE pa OR f) = f"
proof (rule bit_word_eqI)
  fix n assume n: "n < LENGTH(64)"
  have f: "\<not> bit f k" if "10 \<le> k" for k
  proof -
    from assms have "take_bit 10 (unat f) = unat f" by (simp add: take_bit_nat_eq_self)
    then have "bit (unat f) k \<longleftrightarrow> bit (take_bit 10 (unat f)) k" by simp
    with that show ?thesis by (auto simp: bit_simps bit_unsigned_iff dest: bit_imp_le_length)
  qed
  have m: "(0x3FF :: u64) = mask 10" by (simp add: mask_eq_exp_minus_1)
  show "bit (PTE_FLAGS (PA2PTE pa OR f)) n = bit f n"
    unfolding PTE_FLAGS_def PA2PTE_def m bit_and_iff bit_or_iff bit_push_bit_iff bit_mask_iff
    using f [of n] n by (cases "n < 10") auto
qed

end
