(* ===== verification/Machine.thy ===== *)
theory Machine
  imports Riscv
begin

unbundle bit_operations_syntax

text \<open>
  The machine below the kernel: byte-addressed memory and the spin locks the executing hart
  holds. Kernel loads and stores go through the kernel page table, which maps RAM one to one
  between \<open>KERNBASE\<close> and \<open>PHYSTOP\<close> (\<open>kvmmake\<close>); an access outside faults.

  Also here: the memory and string functions of \<open>kernel/string.c\<close>, as the code has them
  (loops over bytes), with their closed forms as lemmas.
\<close>

section \<open>State\<close>

text \<open>
  A spin lock is named by the string given to \<open>initlock\<close> and an index (the process, buffer or
  page it belongs to). \<open>locks\<close> lists the locks held by the executing hart, newest first;
  its length is the nesting depth \<open>noff\<close> of \<open>push_off\<close>.
\<close>

datatype lock = Lock string nat

record machine =
  mem :: "u64 \<Rightarrow> u8"
  locks :: "lock list"

section \<open>Spin locks, as seen by the hart that takes them\<close>

definition holding :: "lock \<Rightarrow> 'z machine_scheme \<Rightarrow> bool" where
  "holding lk s \<longleftrightarrow> lk \<in> set (locks s)"

definition acquire :: "lock \<Rightarrow> ('z machine_scheme, unit) kmon" where
  "acquire lk = bnd (gets (holding lk)) (\<lambda>h.
     if h then panic ''acquire'' else modify (\<lambda>s. s\<lparr>locks := lk # locks s\<rparr>))"

definition release :: "lock \<Rightarrow> ('z machine_scheme, unit) kmon" where
  "release lk = bnd (gets (holding lk)) (\<lambda>h.
     if \<not> h then panic ''release'' else modify (\<lambda>s. s\<lparr>locks := remove1 lk (locks s)\<rparr>))"

lemma acquire_run: "lk \<notin> set (locks s) \<Longrightarrow> acquire lk s = Ok () (s\<lparr>locks := lk # locks s\<rparr>)"
  by (simp add: acquire_def holding_def)

lemma acquire_held: "lk \<in> set (locks s) \<Longrightarrow> acquire lk s = Halt (Panic ''acquire'') s"
  by (simp add: acquire_def holding_def)

lemma release_run:
  "lk \<in> set (locks s) \<Longrightarrow> release lk s = Ok () (s\<lparr>locks := remove1 lk (locks s)\<rparr>)"
  by (simp add: release_def holding_def)

lemma release_not_held: "lk \<notin> set (locks s) \<Longrightarrow> release lk s = Halt (Panic ''release'') s"
  by (simp add: release_def holding_def)

lemma acquire_eq_Ok:
  "acquire lk s = Ok x t \<longleftrightarrow> lk \<notin> set (locks s) \<and> t = s\<lparr>locks := lk # locks s\<rparr>"
  by (auto simp: acquire_def holding_def bnd_eq_Ok)

lemma release_eq_Ok:
  "release lk s = Ok x t \<longleftrightarrow> lk \<in> set (locks s) \<and> t = s\<lparr>locks := remove1 lk (locks s)\<rparr>"
  by (auto simp: release_def holding_def bnd_eq_Ok)

lemmas lock_runs = acquire_run release_run

section \<open>Kernel loads and stores\<close>

definition kmapped :: "u64 \<Rightarrow> bool" where
  "kmapped a \<longleftrightarrow> KERNBASE \<le> a \<and> a < PHYSTOP"

definition kmapped_range :: "u64 \<Rightarrow> nat \<Rightarrow> bool" where
  "kmapped_range a n \<longleftrightarrow> n = 0 \<or> (KERNBASE \<le> a \<and> unat a + n \<le> unat PHYSTOP)"

definition load64 :: "(u64 \<Rightarrow> u8) \<Rightarrow> u64 \<Rightarrow> u64" where
  "load64 m a = foldr (\<lambda>i w. ucast (m (a + of_nat i)) OR push_bit 8 w) [0..<8] 0"

definition store64 :: "(u64 \<Rightarrow> u8) \<Rightarrow> u64 \<Rightarrow> u64 \<Rightarrow> (u64 \<Rightarrow> u8)" where
  "store64 m a v = (\<lambda>x. if x - a < 8 then ucast (drop_bit (8 * unat (x - a)) v) else m x)"

definition kload64 :: "u64 \<Rightarrow> ('z machine_scheme, u64) kmon" where
  "kload64 a = (if kmapped_range a 8 then gets (\<lambda>s. load64 (mem s) a) else stop (Fault a))"

definition kstore64 :: "u64 \<Rightarrow> u64 \<Rightarrow> ('z machine_scheme, unit) kmon" where
  "kstore64 a v =
     (if kmapped_range a 8 then modify (\<lambda>s. s\<lparr>mem := store64 (mem s) a v\<rparr>) else stop (Fault a))"

section \<open>string.c: blocks of memory\<close>

definition memset :: "(u64 \<Rightarrow> u8) \<Rightarrow> u64 \<Rightarrow> u8 \<Rightarrow> nat \<Rightarrow> (u64 \<Rightarrow> u8)" where
  "memset m dst c n = fold (\<lambda>i m. m(dst + of_nat i := c)) [0..<n] m"

primrec memcmp :: "(u64 \<Rightarrow> u8) \<Rightarrow> u64 \<Rightarrow> u64 \<Rightarrow> nat \<Rightarrow> int" where
  "memcmp m s1 s2 0 = 0"
| "memcmp m s1 s2 (Suc n) =
     (if m s1 \<noteq> m s2 then uint (m s1) - uint (m s2) else memcmp m (s1 + 1) (s2 + 1) n)"

primrec copy_up :: "(u64 \<Rightarrow> u8) \<Rightarrow> u64 \<Rightarrow> u64 \<Rightarrow> nat \<Rightarrow> (u64 \<Rightarrow> u8)" where
  "copy_up m d s 0 = m"
| "copy_up m d s (Suc n) = copy_up (m(d := m s)) (d + 1) (s + 1) n"

primrec copy_down :: "(u64 \<Rightarrow> u8) \<Rightarrow> u64 \<Rightarrow> u64 \<Rightarrow> nat \<Rightarrow> (u64 \<Rightarrow> u8)" where
  "copy_down m d s 0 = m"
| "copy_down m d s (Suc n) = copy_down (m(d - 1 := m (s - 1))) (d - 1) (s - 1) n"

definition memmove :: "(u64 \<Rightarrow> u8) \<Rightarrow> u64 \<Rightarrow> u64 \<Rightarrow> nat \<Rightarrow> (u64 \<Rightarrow> u8)" where
  "memmove m dst src n =
     (if n = 0 then m
      else if src < dst \<and> src + of_nat n > dst
      then copy_down m (dst + of_nat n) (src + of_nat n) n
      else copy_up m dst src n)"

definition kmemset :: "u64 \<Rightarrow> u8 \<Rightarrow> nat \<Rightarrow> ('z machine_scheme, unit) kmon" where
  "kmemset dst c n =
     (if kmapped_range dst n then modify (\<lambda>s. s\<lparr>mem := memset (mem s) dst c n\<rparr>)
      else stop (Fault dst))"

definition kmemmove :: "u64 \<Rightarrow> u64 \<Rightarrow> nat \<Rightarrow> ('z machine_scheme, unit) kmon" where
  "kmemmove dst src n =
     (if \<not> kmapped_range src n then stop (Fault src)
      else if \<not> kmapped_range dst n then stop (Fault dst)
      else modify (\<lambda>s. s\<lparr>mem := memmove (mem s) dst src n\<rparr>))"

section \<open>string.c: strings\<close>

text \<open>A \<open>char *\<close> is the function that gives the byte at each offset from the pointer.\<close>

type_synonym cstr = "nat \<Rightarrow> u8"

primrec strncmp :: "cstr \<Rightarrow> cstr \<Rightarrow> nat \<Rightarrow> int" where
  "strncmp p q 0 = 0"
| "strncmp p q (Suc n) =
     (if p 0 \<noteq> 0 \<and> p 0 = q 0 then strncmp (\<lambda>i. p (Suc i)) (\<lambda>i. q (Suc i)) n
      else uint (p 0) - uint (q 0))"

text \<open>\<open>strncpy\<close> and \<open>safestrcpy\<close> return the bytes they store, from \<open>s[0]\<close> on.\<close>

primrec strncpy :: "cstr \<Rightarrow> nat \<Rightarrow> u8 list" where
  "strncpy t 0 = []"
| "strncpy t (Suc n) = (if t 0 \<noteq> 0 then t 0 # strncpy (\<lambda>i. t (Suc i)) n else 0 # replicate n 0)"

primrec safestrcpy_loop :: "cstr \<Rightarrow> nat \<Rightarrow> u8 list" where
  "safestrcpy_loop t 0 = [0]"
| "safestrcpy_loop t (Suc n) =
     (if t 0 \<noteq> 0 then t 0 # safestrcpy_loop (\<lambda>i. t (Suc i)) n else [0, 0])"

definition safestrcpy :: "cstr \<Rightarrow> nat \<Rightarrow> u8 list" where
  "safestrcpy t n = (if n = 0 then [] else safestrcpy_loop t (n - 1))"

partial_function (option) strlen_from :: "cstr \<Rightarrow> nat \<Rightarrow> nat option" where
  "strlen_from s n = (if s n \<noteq> 0 then strlen_from s (n + 1) else Some n)"

definition strlen :: "cstr \<Rightarrow> nat option" where
  "strlen s = strlen_from s 0"

section \<open>Closed forms of the memory functions\<close>

lemma memset_Suc: "memset m dst c (Suc n) = (memset m dst c n)(dst + of_nat n := c)"
  by (simp add: memset_def)

lemma memset_apply:
  assumes "n \<le> 2 ^ 64"
  shows "memset m dst c n a = (if unat (a - dst) < n then c else m a)"
  using assms
proof (induction n)
  case 0
  then show ?case by (simp add: memset_def)
next
  case (Suc n)
  have "a = dst + of_nat n \<longleftrightarrow> a - dst = of_nat n" by (auto simp: algebra_simps)
  also have "\<dots> \<longleftrightarrow> unat (a - dst) = n"
    using Suc.prems by (auto simp: word_unat_eq_iff unat_of_nat)
  finally show ?case using Suc by (auto simp: memset_Suc less_Suc_eq)
qed

lemma unat_pred: "(w :: u64) \<noteq> 0 \<Longrightarrow> unat (w - 1) = unat w - 1"
  by (rule unat_minus_one)

lemma unat_pred_less:
  assumes "(w :: u64) \<noteq> 0"
  shows "unat (w - 1) < n \<longleftrightarrow> unat w < Suc n"
proof -
  from assms have "0 < unat w" by (simp add: unat_gt_0)
  with assms show ?thesis by (auto simp: unat_pred)
qed

lemma unat_m1: "unat (- 1 :: u64) = 2 ^ 64 - 1"
  by (simp add: unsigned_minus_1_eq_mask mask_eq_exp_minus_1)

lemma copy_up_apply:
  assumes "n \<le> 2 ^ 64" and "d = s \<or> n \<le> unat (d - s)"
  shows "copy_up m d s n a = (if unat (a - d) < n then m (s + (a - d)) else m a)"
  using assms
proof (induction n arbitrary: m d s)
  case 0
  then show ?case by simp
next
  case (Suc n)
  have IH: "copy_up (m(d := m s)) (d + 1) (s + 1) n a =
      (if unat (a - d - 1) < n then (m(d := m s)) (s + (a - d)) else (m(d := m s)) a)"
  proof -
    have eqs: "(d + 1) - (s + 1) = d - s" "a - (d + 1) = a - d - 1"
      "s + 1 + (a - d - 1) = s + (a - d)" by (simp_all add: algebra_simps)
    define m' where "m' = m(d := m s)"
    show ?thesis
      using Suc.IH [of "d + 1" "s + 1" m'] Suc.prems unfolding m'_def [symmetric] eqs by auto
  qed
  show ?case
  proof (cases "a = d")
    case True
    with IH Suc.prems show ?thesis by (auto simp: unat_m1)
  next
    case False
    then have lt: "unat (a - d - 1) < n \<longleftrightarrow> unat (a - d) < Suc n"
      by (simp add: unat_pred_less)
    have "(m(d := m s)) (s + (a - d)) = m (s + (a - d))" if "unat (a - d) < Suc n"
    proof (cases "s + (a - d) = d")
      case True
      then have "a - d = d - s" by (simp add: algebra_simps)
      with that Suc.prems(2) have "d = s" by auto
      then show ?thesis by simp
    qed simp
    with IH lt False show ?thesis by auto
  qed
qed

lemma copy_down_apply:
  assumes "n \<le> 2 ^ 64" and "d = s \<or> n \<le> unat (s - d)"
  shows "copy_down m d s n a = (if unat (d - 1 - a) < n then m (s - (d - a)) else m a)"
  using assms
proof (induction n arbitrary: m d s)
  case 0
  then show ?case by simp
next
  case (Suc n)
  have IH: "copy_down (m(d - 1 := m (s - 1))) (d - 1) (s - 1) n a =
      (if unat (d - 1 - a - 1) < n then (m(d - 1 := m (s - 1))) (s - (d - a))
       else (m(d - 1 := m (s - 1))) a)"
  proof -
    have eqs: "(s - 1) - (d - 1) = s - d" "d - 1 - 1 - a = d - 1 - a - 1"
      "s - 1 - (d - 1 - a) = s - (d - a)" by (simp_all add: algebra_simps)
    define m' where "m' = m(d - 1 := m (s - 1))"
    show ?thesis
      using Suc.IH [of "d - 1" "s - 1" m'] Suc.prems unfolding m'_def [symmetric] eqs by auto
  qed
  show ?case
  proof (cases "a = d - 1")
    case True
    with IH Suc.prems show ?thesis by (auto simp: unat_m1)
  next
    case False
    then have lt: "unat (d - 1 - a - 1) < n \<longleftrightarrow> unat (d - 1 - a) < Suc n"
      by (intro unat_pred_less) auto
    have "(m(d - 1 := m (s - 1))) (s - (d - a)) = m (s - (d - a))" if "unat (d - 1 - a) < Suc n"
    proof (cases "s - (d - a) = d - 1")
      case True
      then have "d - 1 - a = s - d" by (simp add: algebra_simps)
      with that Suc.prems(2) have "d = s" by auto
      then show ?thesis by simp
    qed simp
    with IH lt False show ?thesis by auto
  qed
qed

lemma unat_reflect:
  assumes "n \<le> 2 ^ 64" and "n \<noteq> 0"
  shows "unat (of_nat n - 1 - x :: u64) < n \<longleftrightarrow> unat x < n"
proof -
  have "unat (of_nat n - 1 :: u64) = n - 1"
  proof (cases "n = 2 ^ 64")
    case True
    then have "of_nat n = (0 :: u64)" by (simp add: of_nat_eq_0_iff)
    with True show ?thesis by (simp add: unat_m1)
  next
    case False
    with assms have u: "unat (of_nat n :: u64) = n" by (simp add: unat_of_nat)
    with assms have "(of_nat n :: u64) \<noteq> 0" by (metis unat_0)
    with u show ?thesis by (simp add: unat_pred)
  qed
  with assms show ?thesis
    using unat_u64_less [of x] by (auto simp: unat_sub_if')
qed

lemma copy_down_block:
  assumes "0 < n" and "n \<le> 2 ^ 64" and "dst = src \<or> n \<le> unat (src - dst)"
  shows "copy_down m (dst + of_nat n) (src + of_nat n) n a = (if unat (a - dst) < n then m (src + (a - dst)) else m a)"
proof -
  have "copy_down m (dst + of_nat n) (src + of_nat n) n a =
      (if unat (dst + of_nat n - 1 - a) < n then m (src + of_nat n - (dst + of_nat n - a)) else m a)"
    using assms(2,3) by (intro copy_down_apply) (auto simp: algebra_simps)
  moreover have "dst + of_nat n - 1 - a = of_nat n - 1 - (a - dst)" by (simp add: algebra_simps)
  moreover have "src + of_nat n - (dst + of_nat n - a) = src + (a - dst)" by (simp add: algebra_simps)
  ultimately show ?thesis using assms(1,2) by (simp add: unat_reflect)
qed

text \<open>
  \<open>memmove\<close> copies a block as if the source were read in full before the destination is
  written, whether or not the blocks overlap.
\<close>

lemma memmove_apply:
  assumes "unat dst + n \<le> 2 ^ 64" and "unat src + n < 2 ^ 64"
  shows "memmove m dst src n a = (if unat (a - dst) < n then m (src + (a - dst)) else m a)"
proof (cases "n = 0")
  case True
  then show ?thesis by (simp add: memmove_def)
next
  case n: False
  have n64: "n \<le> 2 ^ 64" using assms by simp
  show ?thesis
  proof (cases "src < dst \<and> src + of_nat n > dst")
    case True
    then have "n \<le> unat (src - dst)"
      using assms n by (auto simp: unat_sub_if' word_less_nat_alt)
    then show ?thesis using True n n64 copy_down_block [of n dst src m a] by (simp add: memmove_def)
  next
    case False
    have "dst = src \<or> n \<le> unat (dst - src)"
    proof (cases "src < dst")
      case True
      have "src + of_nat n > dst" if "\<not> n \<le> unat (dst - src)"
        using True that assms by (auto simp: unat_sub_if' word_less_nat_alt unat_plus_if' unat_of_nat)
      with False True show ?thesis by blast
    next
      case False
      with assms show ?thesis
        by (auto simp: unat_sub_if' word_less_nat_alt intro: word_eqI_unat)
    qed
    with n64 have "copy_up m dst src n a = (if unat (a - dst) < n then m (src + (a - dst)) else m a)"
      by (intro copy_up_apply)
    with False n show ?thesis by (auto simp: memmove_def)
  qed
qed

section \<open>64-bit loads and stores\<close>

lemma bit_load_bytes:
  "bit (foldr (\<lambda>i w. ucast (m (a + of_nat i)) OR push_bit 8 w) [i..<i + j] 0 :: u64) n \<longleftrightarrow>
     n < 8 * j \<and> n < 64 \<and> bit (m (a + of_nat (i + n div 8)) :: u8) (n mod 8)"
proof (induction j arbitrary: i n)
  case 0
  then show ?case by simp
next
  case (Suc j)
  have up: "[i..<i + Suc j] = i # [Suc i..<Suc i + j]" by (simp add: upt_conv_Cons)
  let ?w = "foldr (\<lambda>i w. ucast (m (a + of_nat i)) OR push_bit 8 w) [Suc i..<Suc i + j] 0 :: u64"
  have "bit (ucast (m (a + of_nat i)) OR push_bit 8 ?w) n \<longleftrightarrow>
      n < 8 \<and> bit (m (a + of_nat i)) n \<or> 8 \<le> n \<and> n < 64 \<and> bit ?w (n - 8)"
    unfolding bit_or_iff bit_push_bit_iff
    by (auto simp: bit_unsigned_iff dest: bit_imp_le_length)
  also have "\<dots> \<longleftrightarrow> n < 8 * Suc j \<and> n < 64 \<and> bit (m (a + of_nat (i + n div 8))) (n mod 8)"
  proof (cases "n < 8")
    case True
    then show ?thesis by auto
  next
    case False
    then have "Suc i + (n - 8) div 8 = i + n div 8" and "(n - 8) mod 8 = n mod 8"
      by (simp_all add: le_div_geq le_mod_geq)
    then have "bit ?w (n - 8) \<longleftrightarrow>
        n - 8 < 8 * j \<and> n - 8 < 64 \<and> bit (m (a + of_nat (i + n div 8))) (n mod 8)"
      by (simp only: Suc.IH)
    with False show ?thesis by auto
  qed
  finally show ?case unfolding up by simp
qed

lemma bit_load64:
  "bit (load64 m a) n \<longleftrightarrow> n < 64 \<and> bit (m (a + of_nat (n div 8))) (n mod 8)"
  unfolding load64_def using bit_load_bytes [of m a 0 8 n] by simp

lemma load64_cong:
  assumes "\<And>k. k < 8 \<Longrightarrow> m (a + of_nat k) = m' (b + of_nat k)"
  shows "load64 m a = load64 m' b"
  by (rule bit_word_eqI) (simp add: bit_load64 assms)

lemma load64_zero:
  assumes "\<And>k. k < 8 \<Longrightarrow> m (a + of_nat k) = 0"
  shows "load64 m a = 0"
  by (rule bit_word_eqI) (simp add: bit_load64 assms)

lemma store64_byte:
  "k < 8 \<Longrightarrow> store64 m a v (a + of_nat k) = ucast (drop_bit (8 * k) v)"
  by (simp add: store64_def word_less_nat_alt unat_of_nat)

lemma load64_store64_same [simp]: "load64 (store64 m a v) a = v"
proof (rule bit_word_eqI)
  fix n assume n: "n < LENGTH(64)"
  then have "store64 m a v (a + of_nat (n div 8)) = ucast (drop_bit (8 * (n div 8)) v)"
    by (intro store64_byte) simp
  then have "bit (load64 (store64 m a v) a) n \<longleftrightarrow> bit v (8 * (n div 8) + n mod 8)"
    using n unfolding bit_load64 by (simp add: bit_unsigned_iff bit_drop_bit_eq)
  then show "bit (load64 (store64 m a v) a) n = bit v n" by simp
qed

lemma load64_store64_other:
  assumes "8 \<le> unat (b - a)" and "8 \<le> unat (a - b)"
  shows "load64 (store64 m a v) b = load64 m b"
proof (rule load64_cong)
  fix k :: nat assume k: "k < 8"
  have "unat (b - a) \<le> 2 ^ 64 - 8"
    using assms unat_u64_less [of a] unat_u64_less [of b] by (auto simp: unat_sub_if' split: if_splits)
  with k have "unat (b - a + of_nat k) = unat (b - a) + k"
    by (simp add: unat_plus_if' unat_of_nat)
  with assms have "\<not> unat (b + of_nat k - a) < 8" by (simp add: algebra_simps)
  then show "store64 m a v (b + of_nat k) = m (b + of_nat k)"
    by (simp add: store64_def word_less_nat_alt)
qed

lemma store64_outside: "8 \<le> unat (x - a) \<Longrightarrow> store64 m a v x = m x"
  by (simp add: store64_def word_less_nat_alt)

section \<open>Strings\<close>

lemma strncmp_eq_0:
  "strncmp p q n = 0 \<longleftrightarrow> (\<forall>i<n. (\<forall>j<i. p j \<noteq> 0) \<longrightarrow> p i = q i)"
proof (induction n arbitrary: p q)
  case 0
  then show ?case by simp
next
  case (Suc n)
  show ?case unfolding All_less_Suc2 by (auto simp: Suc word_uint_eq_iff)
qed

lemma length_strncpy [simp]: "length (strncpy t n) = n"
  by (induction n arbitrary: t) auto

lemma safestrcpy_terminated:
  "0 < n \<Longrightarrow> length (safestrcpy t n) \<le> n \<and> 0 \<in> set (safestrcpy t n)"
proof -
  have "length (safestrcpy_loop t k) \<le> Suc k \<and> 0 \<in> set (safestrcpy_loop t k)" for k
    by (induction k arbitrary: t) auto
  from this [of "n - 1"] show "0 < n \<Longrightarrow> ?thesis" by (simp add: safestrcpy_def)
qed

lemma strlen_from_Some:
  assumes "s k = 0" and "\<And>i. n \<le> i \<Longrightarrow> i < k \<Longrightarrow> s i \<noteq> 0" and "n \<le> k"
  shows "strlen_from s n = Some k"
  using assms
proof (induction "k - n" arbitrary: n)
  case 0
  then show ?case by (simp add: strlen_from.simps)
next
  case (Suc d)
  then have "s n \<noteq> 0" by auto
  with Suc show ?case by (subst strlen_from.simps) simp
qed

lemma strlen_Some: "s k = 0 \<Longrightarrow> (\<And>i. i < k \<Longrightarrow> s i \<noteq> 0) \<Longrightarrow> strlen s = Some k"
  unfolding strlen_def by (rule strlen_from_Some) auto

section \<open>Correctness of memmove\<close>

text \<open>
  C13. \<open>memmove\<close> copies the bytes that the source range had before the call, also when source and
  destination overlap, and changes nothing outside the destination.
\<close>

theorem memmove_copies:
  assumes "unat dst + n \<le> 2 ^ 64" and "unat src + n < 2 ^ 64"
  shows "(\<forall>i < n. memmove m dst src n (dst + of_nat i) = m (src + of_nat i)) \<and>
     (\<forall>a. n \<le> unat (a - dst) \<longrightarrow> memmove m dst src n a = m a)"
  using assms by (auto simp: memmove_apply unat_of_nat)

theorem memmove_copies_witness:
  "memmove (\<lambda>a. ucast a) 0x81 0x80 3 0x83 = 0x82 \<and> memmove (\<lambda>a. ucast a) 0x81 0x80 3 0x85 = 0x85"
proof -
  have "unat (0x85 - 0x81 :: u64) = 4" by simp
  with memmove_copies [of "0x81" 3 "0x80" "\<lambda>a. ucast a"] show ?thesis
    by (auto dest: spec [of _ "2 :: nat"] spec [of _ "0x85 :: u64"])
qed

end
