(* ===== verification/Kalloc.thy ===== *)
theory Kalloc
  imports Machine
begin

unbundle bit_operations_syntax

text \<open>
  The physical page allocator, \<open>kernel/kalloc.c\<close>: one descriptor (\<open>struct run\<close>) per physical
  page, the free ones linked through their \<open>next\<close> fields, each with a reference count.
  A pointer into \<open>kmem.runs\<close> is the index of the descriptor; \<open>runs_base\<close> is the address of the
  array and \<open>kernel_end\<close> the linker symbol \<open>end\<close>, both fixed by the link.
\<close>

section \<open>State and operations\<close>

record run =
  run_next :: "nat option"
  run_ref :: u32

record kmem = machine +
  freelist :: "nat option"
  runs :: "nat \<Rightarrow> run"
  kernel_end :: u64
  runs_base :: u64

definition MAXPAGES :: nat where
  "MAXPAGES = unat PHYSTOP div 4096"

abbreviation kmem_lock :: lock where
  "kmem_lock \<equiv> Lock ''kmem'' 0"

text \<open>
  The address of a descriptor and the page it stands for: C computes
  \<open>(r - kmem.runs) * PGSIZE\<close>, a signed difference divided by the 16 bytes of a descriptor.
\<close>

definition run_ptr :: "'z kmem_scheme \<Rightarrow> nat option \<Rightarrow> u64" where
  "run_ptr s r = (case r of None \<Rightarrow> 0 | Some i \<Rightarrow> runs_base s + 16 * of_nat i)"

definition run_page :: "'z kmem_scheme \<Rightarrow> nat option \<Rightarrow> u64" where
  "run_page s r = signed_drop_bit 4 (run_ptr s r - runs_base s) * PGSIZE"

definition bad_page :: "u64 \<Rightarrow> 'z kmem_scheme \<Rightarrow> bool" where
  "bad_page pa s \<longleftrightarrow> pa mod PGSIZE \<noteq> 0 \<or> pa < kernel_end s \<or> pa \<ge> PHYSTOP"

definition kalloc :: "('z kmem_scheme, u64) kmon" where
  "kalloc = bnd (acquire kmem_lock) (\<lambda>_.
     bnd (gets freelist) (\<lambda>r.
     bnd (case r of None \<Rightarrow> ret ()
          | Some i \<Rightarrow> modify (\<lambda>s. s\<lparr>runs := (runs s)(i := (runs s i)\<lparr>run_ref := 1\<rparr>),
                                   freelist := run_next (runs s i)\<rparr>)) (\<lambda>_.
     bnd (release kmem_lock) (\<lambda>_.
     bnd (gets (\<lambda>s. run_page s r)) (\<lambda>pa.
     bnd (guarded (r \<noteq> None) (kmemset pa 5 4096)) (\<lambda>_.
     ret pa))))))"

definition push_run :: "nat \<Rightarrow> ('z kmem_scheme, unit) kmon" where
  "push_run i = bnd (acquire kmem_lock) (\<lambda>_.
     bnd (modify (\<lambda>s. s\<lparr>runs := (runs s)(i := (runs s i)\<lparr>run_next := freelist s\<rparr>),
                        freelist := Some i\<rparr>)) (\<lambda>_.
     release kmem_lock))"

definition kfree :: "u64 \<Rightarrow> ('z kmem_scheme, unit) kmon" where
  "kfree pa = bnd (gets (bad_page pa)) (\<lambda>bad.
     if bad then panic ''kfree''
     else bnd (kmemset pa 1 4096) (\<lambda>_.
       let i = unat pa div 4096 in
       bnd (gets (\<lambda>s. run_ref (runs s i))) (\<lambda>ref.
       if ref \<noteq> 1 then stop (Exited (- 1))
       else push_run i)))"

definition kfree_init :: "u64 \<Rightarrow> ('z kmem_scheme, unit) kmon" where
  "kfree_init pa = bnd (gets (bad_page pa)) (\<lambda>bad.
     if bad then panic ''_kfree''
     else bnd (kmemset pa 1 4096) (\<lambda>_. push_run (unat pa div 4096)))"

lemma kfree_init_Ok: "kfree_init p s = Ok x t \<Longrightarrow> p < PHYSTOP"
  by (auto simp: kfree_init_def bad_page_def bnd_eq_Ok split: if_splits)

function freerange_init :: "u64 \<Rightarrow> u64 \<Rightarrow> 'z kmem_scheme \<Rightarrow> (unit, 'z kmem_scheme) outcome" where
  "freerange_init p pa_end s =
     (if p + PGSIZE \<le> pa_end
      then bnd (kfree_init p) (\<lambda>_ t. freerange_init (p + PGSIZE) pa_end t) s
      else Ok () s)"
  by pat_completeness auto
termination
proof (relation "measure (\<lambda>(p, e, s). unat PHYSTOP - unat p)", simp)
  fix p pa_end x and s t :: "'z kmem_scheme"
  assume "kfree_init p s = Ok x t"
  then have "p < PHYSTOP" by (rule kfree_init_Ok)
  then have "unat p < unat PHYSTOP" and "unat (p + PGSIZE) = unat p + 4096"
    by (simp_all add: word_less_nat_alt PHYSTOP_def unat_plus_if')
  then show "((p + PGSIZE, pa_end, t), p, pa_end, s) \<in> measure (\<lambda>(p, e, s). unat PHYSTOP - unat p)"
    by simp
qed

declare freerange_init.simps [simp del]

definition kinit :: "('z kmem_scheme, unit) kmon" where
  "kinit = bnd (gets kernel_end) (\<lambda>e. freerange_init (PGROUNDUP e) PHYSTOP)"

definition incref :: "u64 \<Rightarrow> ('z kmem_scheme, unit) kmon" where
  "incref pa = bnd (gets (bad_page pa)) (\<lambda>bad.
     if bad then panic ''incref''
     else bnd (acquire kmem_lock) (\<lambda>_.
       let i = unat pa div 4096 in
       bnd (modify (\<lambda>s. s\<lparr>runs := (runs s)(i := (runs s i)\<lparr>run_ref := run_ref (runs s i) + 1\<rparr>)\<rparr>)) (\<lambda>_.
       release kmem_lock)))"

definition decref :: "u64 \<Rightarrow> ('z kmem_scheme, unit) kmon" where
  "decref pa = bnd (gets (bad_page pa)) (\<lambda>bad.
     if bad then panic ''decref''
     else bnd (acquire kmem_lock) (\<lambda>_.
       let i = unat pa div 4096 in
       bnd (modify (\<lambda>s. s\<lparr>runs := (runs s)(i := (runs s i)\<lparr>run_ref := run_ref (runs s i) - 1\<rparr>)\<rparr>)) (\<lambda>_.
       release kmem_lock)))"

definition getref :: "u64 \<Rightarrow> ('z kmem_scheme, u32) kmon" where
  "getref pa = gets (\<lambda>s. run_ref (runs s (unat pa div 4096)))"

section \<open>The free list\<close>

text \<open>
  \<open>free_list s xs\<close>: the descriptors reachable from \<open>kmem.freelist\<close> are exactly \<open>xs\<close>, each
  of a page between the end of the kernel and the top of RAM.
\<close>

definition page_ix :: "'z kmem_scheme \<Rightarrow> nat \<Rightarrow> bool" where
  "page_ix s i \<longleftrightarrow> unat (kernel_end s) \<le> 4096 * i \<and> 4096 * i < unat PHYSTOP"

definition kernel_above_base :: "'z kmem_scheme \<Rightarrow> bool" where
  "kernel_above_base s \<longleftrightarrow> KERNBASE \<le> kernel_end s \<and> kernel_end s \<le> PHYSTOP"

definition free_list :: "'z kmem_scheme \<Rightarrow> nat list \<Rightarrow> bool" where
  "free_list s xs \<longleftrightarrow> kernel_above_base s \<and>
     linked (\<lambda>i. run_next (runs s i)) (freelist s) xs \<and> (\<forall>i \<in> set xs. page_ix s i)"

abbreviation page_addr :: "nat \<Rightarrow> u64" where
  "page_addr i \<equiv> of_nat i * 4096"


lemma MAXPAGES_eq: "MAXPAGES = 557056"
  by (simp add: MAXPAGES_def PHYSTOP_def)

lemma page_ix_iff: "page_ix s i \<longleftrightarrow> unat (kernel_end s) \<le> 4096 * i \<and> i < MAXPAGES"
  by (auto simp: page_ix_def MAXPAGES_eq PHYSTOP_def)

lemma page_ix_bound: "page_ix s i \<Longrightarrow> i < 557056"
  by (simp add: page_ix_def PHYSTOP_def)

lemma unat_page_addr: "page_ix s i \<Longrightarrow> unat (page_addr i) = 4096 * i"
  using page_ix_bound [of s i] by (simp add: unat_word_ariths unat_of_nat)

lemma run_page_Some:
  assumes "i < 2 ^ 40"
  shows "run_page s (Some i) = page_addr i"
proof -
  let ?w = "16 * of_nat i :: u64"
  have w: "unat ?w = 16 * i"
    using assms by (simp add: unat_word_ariths unat_of_nat)
  then have s: "sint ?w = 16 * int i"
    using assms by (simp add: sint_uint uint_nat signed_take_bit_int_eq_self)
  have "sint (signed_drop_bit 4 ?w) = int i"
    by (simp add: sint_signed_drop_bit_eq s drop_bit_eq_div)
  then have "signed_drop_bit 4 ?w = (of_int (int i) :: u64)"
    by (metis scast_eq scast_id)
  then show ?thesis by (simp add: run_page_def run_ptr_def)
qed

lemma page_addr_mapped:
  assumes "page_ix s i" and "kernel_above_base s"
  shows "kmapped_range (page_addr i) 4096"
proof -
  from assms have "4096 * i + 4096 \<le> 2281701376"
    using page_ix_bound by fastforce
  with assms show ?thesis
    by (simp add: kmapped_range_def unat_page_addr kernel_above_base_def page_ix_def
        word_le_nat_alt PHYSTOP_def)
qed

lemma free_list_Nil: "free_list s [] \<longleftrightarrow> kernel_above_base s \<and> freelist s = None"
  by (auto simp: free_list_def)

lemma free_list_Cons:
  "free_list s (i # xs) \<longleftrightarrow> freelist s = Some i \<and> page_ix s i \<and>
     free_list (s\<lparr>freelist := run_next (runs s i)\<rparr>) xs"
  by (auto simp: free_list_def page_ix_def kernel_above_base_def)

lemma free_list_distinct: "free_list s xs \<Longrightarrow> distinct xs"
  by (auto simp: free_list_def dest: linked_distinct)

lemma free_list_unique: "free_list s xs \<Longrightarrow> free_list s ys \<Longrightarrow> xs = ys"
  by (auto simp: free_list_def dest: linked_unique)

text \<open>What \<open>kalloc\<close> does to the state when a page is free, and when none is.\<close>

definition after_kalloc :: "nat \<Rightarrow> 'z kmem_scheme \<Rightarrow> 'z kmem_scheme" where
  "after_kalloc i s = s\<lparr>mem := memset (mem s) (page_addr i) 5 4096,
     freelist := run_next (runs s i),
     runs := (runs s)(i := (runs s i)\<lparr>run_ref := 1\<rparr>)\<rparr>"

lemma kalloc_run:
  assumes "freelist s = Some i" and "page_ix s i" and "kernel_above_base s"
    and "kmem_lock \<notin> set (locks s)"
  shows "kalloc s = Ok (page_addr i) (after_kalloc i s)"
  using assms page_addr_mapped [OF assms(2,3)] page_ix_bound [OF assms(2)]
  by (simp add: kalloc_def lock_runs run_page_Some kmemset_def after_kalloc_def)

lemma kalloc_empty:
  assumes "freelist s = None" and "kmem_lock \<notin> set (locks s)"
  shows "kalloc s = Ok (run_page s None) s"
  using assms by (simp add: kalloc_def lock_runs run_page_def run_ptr_def)

lemma free_list_after_kalloc:
  assumes "free_list s (i # xs)"
  shows "free_list (after_kalloc i s) xs"
proof -
  have "i \<notin> set xs" using free_list_distinct [OF assms] by simp
  then have "linked (\<lambda>j. run_next (if j = i then (runs s i)\<lparr>run_ref := 1\<rparr> else runs s j)) p xs =
      linked (\<lambda>j. run_next (runs s j)) p xs" for p
    by (intro segment_cong) auto
  with assms show ?thesis
    by (auto simp: free_list_def after_kalloc_def page_ix_def kernel_above_base_def)
qed

definition after_kfree :: "nat \<Rightarrow> 'z kmem_scheme \<Rightarrow> 'z kmem_scheme" where
  "after_kfree i s = s\<lparr>mem := memset (mem s) (page_addr i) 1 4096,
     freelist := Some i,
     runs := (runs s)(i := (runs s i)\<lparr>run_next := freelist s\<rparr>)\<rparr>"

lemma not_bad_page: "page_ix s i \<Longrightarrow> \<not> bad_page (page_addr i) s"
  by (auto simp: bad_page_def page_ix_def unat_page_addr word_less_nat_alt word_le_nat_alt
      word_unat_eq_iff unat_mod)

lemma page_of_addr:
  assumes "\<not> bad_page pa s"
  obtains i where "pa = page_addr i" and "page_ix s i"
proof
  let ?i = "unat pa div 4096"
  from assms have "unat pa mod 4096 = 0"
    by (simp add: bad_page_def word_unat_eq_iff unat_mod)
  then have u: "4096 * ?i = unat pa" by auto
  with assms show ix: "page_ix s ?i"
    by (simp add: bad_page_def page_ix_def word_less_nat_alt word_le_nat_alt)
  show "pa = page_addr ?i"
    by (rule word_eqI_unat) (simp add: unat_page_addr [OF ix] u)
qed

lemma kfree_run:
  assumes "page_ix s i" and "kernel_above_base s" and "kmem_lock \<notin> set (locks s)"
    and "run_ref (runs s i) = 1"
  shows "kfree (page_addr i) s = Ok () (after_kfree i s)"
  using assms page_addr_mapped [OF assms(1,2)] not_bad_page [OF assms(1)]
  by (simp add: kfree_def push_run_def lock_runs kmemset_def after_kfree_def unat_page_addr Let_def)

lemma kfree_init_run:
  assumes "page_ix s i" and "kernel_above_base s" and "kmem_lock \<notin> set (locks s)"
  shows "kfree_init (page_addr i) s = Ok () (after_kfree i s)"
  using assms page_addr_mapped [OF assms(1,2)] not_bad_page [OF assms(1)]
  by (simp add: kfree_init_def push_run_def lock_runs kmemset_def after_kfree_def unat_page_addr Let_def)

lemma free_list_after_kfree:
  assumes "free_list s xs" and "page_ix s i" and "i \<notin> set xs"
  shows "free_list (after_kfree i s) (i # xs)"
proof -
  from assms(3) have
    "linked (\<lambda>j. run_next (if j = i then (runs s i)\<lparr>run_next := freelist s\<rparr> else runs s j)) p xs =
      linked (\<lambda>j. run_next (runs s j)) p xs" for p
    by (intro segment_cong) auto
  with assms show ?thesis
    by (auto simp: free_list_def after_kfree_def page_ix_def kernel_above_base_def)
qed

lemma after_kfree_simps [simp]:
  "kernel_end (after_kfree i s) = kernel_end s" "locks (after_kfree i s) = locks s"
  "runs_base (after_kfree i s) = runs_base s"
  "run_ref (runs (after_kfree i s) j) = run_ref (runs s j)"
  by (auto simp: after_kfree_def)

lemma after_kalloc_simps [simp]:
  "kernel_end (after_kalloc i s) = kernel_end s" "locks (after_kalloc i s) = locks s"
  "runs_base (after_kalloc i s) = runs_base s"
  "run_ref (runs (after_kalloc i s) j) = (if j = i then 1 else run_ref (runs s j))"
  by (auto simp: after_kalloc_def)

lemma page_ix_cong [simp]:
  "page_ix (after_kalloc i s) j = page_ix s j" "page_ix (after_kfree i s) j = page_ix s j"
  by (auto simp: page_ix_def)

lemma freerange_init_pages:
  assumes "free_list s xs" and "kmem_lock \<notin> set (locks s)"
    and "unat (kernel_end s) \<le> 4096 * i" and "i \<le> MAXPAGES" and "\<forall>j \<in> set xs. j < i"
  shows "\<exists>t. freerange_init (page_addr i) PHYSTOP s = Ok () t \<and>
     free_list t (rev [i..<MAXPAGES] @ xs) \<and> kernel_end t = kernel_end s \<and> locks t = locks s"
  using assms
proof (induction "MAXPAGES - i" arbitrary: i s xs)
  case 0
  then have "i = MAXPAGES" by simp
  moreover have "\<not> page_addr MAXPAGES + PGSIZE \<le> PHYSTOP" by (simp add: MAXPAGES_eq PHYSTOP_def)
  ultimately show ?case using 0 by (subst freerange_init.simps) simp
next
  case (Suc d)
  from Suc have i: "i < MAXPAGES" by simp
  with Suc.prems have ix: "page_ix s i" by (simp add: page_ix_iff)
  have next_page: "page_addr i + PGSIZE = page_addr (Suc i)" by (simp add: algebra_simps)
  then have next': "page_addr (Suc i) = page_addr i + 4096" by simp
  have le: "page_addr i + PGSIZE \<le> PHYSTOP"
    using i by (simp add: word_le_nat_alt PHYSTOP_def MAXPAGES_eq unat_word_ariths unat_of_nat)
  from ix Suc.prems have free: "kfree_init (page_addr i) s = Ok () (after_kfree i s)"
    by (intro kfree_init_run) (auto simp: free_list_def)
  have "free_list (after_kfree i s) (i # xs)"
    using Suc.prems ix by (intro free_list_after_kfree) auto
  moreover have "d = MAXPAGES - Suc i" using Suc.hyps(2) by simp
  ultimately obtain t where
    "freerange_init (page_addr (Suc i)) PHYSTOP (after_kfree i s) = Ok () t"
    "free_list t (rev [Suc i..<MAXPAGES] @ i # xs)" "kernel_end t = kernel_end s" "locks t = locks s"
    using Suc.hyps(1) [of "Suc i" "after_kfree i s" "i # xs"] Suc.prems i by (auto simp: less_Suc_eq)
  then show ?case
    using i free le unfolding next'
    by (subst freerange_init.simps) (auto simp: upt_conv_Cons)
qed

text \<open>
  C4. \<open>kinit\<close> gives every whole page between the end of the kernel and the top of RAM to the
  free list, each exactly once, and returns with the lock free.
\<close>

theorem kinit_frees_all_pages:
  assumes "freelist s = None" and "kernel_above_base s" and "kmem_lock \<notin> set (locks s)"
  shows "\<exists>t. kinit s = Ok () t \<and> locks t = locks s \<and>
     free_list t (rev [unat (PGROUNDUP (kernel_end s)) div 4096..<MAXPAGES])"
proof -
  let ?e = "kernel_end s"
  let ?i = "unat (PGROUNDUP ?e) div 4096"
  from assms(2) have e: "unat ?e \<le> 2281701376"
    by (simp add: kernel_above_base_def word_le_nat_alt PHYSTOP_def)
  then have up: "unat (PGROUNDUP ?e) = ((unat ?e + 4095) div 4096) * 4096"
    by (intro unat_PGROUNDUP) simp
  then have pa: "PGROUNDUP ?e = page_addr ?i"
    using e by (intro word_eqI_unat) (simp add: unat_word_ariths unat_of_nat)
  have "unat ?e \<le> 4096 * ?i" and "?i \<le> MAXPAGES"
    using e by (simp_all add: up MAXPAGES_eq)
  then obtain t where "freerange_init (page_addr ?i) PHYSTOP s = Ok () t"
      "free_list t (rev [?i..<MAXPAGES] @ [])" "locks t = locks s"
    using freerange_init_pages [of s "[]" ?i] assms by (auto simp: free_list_Nil)
  then show ?thesis by (auto simp: kinit_def pa [symmetric])
qed

section \<open>The allocator's contract\<close>

text \<open>
  What the callers of \<open>kalloc\<close> and \<open>kfree\<close> rely on: \<open>pool s ps\<close> are the free pages,
  \<open>owned s p\<close> the pages handed out and not yet freed.
\<close>

primrec alloc_many :: "('s, u64) kmon \<Rightarrow> nat \<Rightarrow> ('s, u64 list) kmon" where
  "alloc_many alloc 0 = ret []"
| "alloc_many alloc (Suc n) = bnd alloc (\<lambda>p. bnd (alloc_many alloc n) (\<lambda>ps. ret (p # ps)))"

locale page_allocator =
  fixes alloc :: "('s, u64) kmon"
    and free :: "u64 \<Rightarrow> ('s, unit) kmon"
    and pool :: "'s \<Rightarrow> u64 list \<Rightarrow> bool"
    and owned :: "'s \<Rightarrow> u64 \<Rightarrow> bool"
  assumes alloc_takes: "pool s (p # ps) \<Longrightarrow>
      \<exists>t. alloc s = Ok p t \<and> pool t ps \<and> owned t p \<and> (\<forall>q. owned s q \<longrightarrow> owned t q)"
    and free_gives: "pool s ps \<Longrightarrow> owned s p \<Longrightarrow>
      \<exists>t. free p s = Ok () t \<and> pool t (p # ps) \<and> (\<forall>q. owned s q \<and> q \<noteq> p \<longrightarrow> owned t q)"
    and pool_distinct: "pool s ps \<Longrightarrow> distinct ps"
    and owned_not_free: "pool s ps \<Longrightarrow> owned s p \<Longrightarrow> p \<notin> set ps"
begin

lemma alloc_many_takes:
  "pool s (qs @ ps) \<Longrightarrow> \<exists>t. alloc_many alloc (length qs) s = Ok qs t \<and> pool t ps \<and>
     (\<forall>q \<in> set qs. owned t q) \<and> (\<forall>q. owned s q \<longrightarrow> owned t q)"
proof (induction qs arbitrary: s)
  case Nil
  then show ?case by simp
next
  case (Cons q qs)
  then obtain t where t: "alloc s = Ok q t" "pool t (qs @ ps)" "owned t q"
      "\<forall>q. owned s q \<longrightarrow> owned t q"
    using alloc_takes [of s q "qs @ ps"] by auto
  from Cons.IH [OF t(2)] obtain u where "alloc_many alloc (length qs) t = Ok qs u" "pool u ps"
      "\<forall>q \<in> set qs. owned u q" "\<forall>q. owned t q \<longrightarrow> owned u q" by blast
  with t show ?case by auto
qed

lemma free_all_gives:
  "pool s ps \<Longrightarrow> distinct qs \<Longrightarrow> \<forall>q \<in> set qs. owned s q \<Longrightarrow>
     \<exists>t. for_each free qs s = Ok () t \<and> pool t (rev qs @ ps)"
proof (induction qs arbitrary: s ps)
  case Nil
  then show ?case by simp
next
  case (Cons q qs)
  then obtain t where t: "free q s = Ok () t" "pool t (q # ps)"
      "\<forall>r. owned s r \<and> r \<noteq> q \<longrightarrow> owned t r"
    using free_gives [of s ps q] by auto
  with Cons have "\<forall>r \<in> set qs. owned t r" by auto
  with Cons.IH [OF t(2)] Cons.prems(2) t(1) show ?case by auto
qed

lemma alloc_free_all:
  assumes "pool s (qs @ ps)"
  shows "\<exists>t u. alloc_many alloc (length qs) s = Ok qs t \<and> pool t ps \<and>
     for_each free qs t = Ok () u \<and> pool u (rev qs @ ps)"
proof -
  from alloc_many_takes [OF assms] obtain t where t: "alloc_many alloc (length qs) s = Ok qs t"
      "pool t ps" "\<forall>q \<in> set qs. owned t q" by blast
  moreover have "distinct qs" using pool_distinct [OF assms] by simp
  ultimately show ?thesis using free_all_gives [of t ps qs] by blast
qed

end

definition free_pool :: "'z kmem_scheme \<Rightarrow> u64 list \<Rightarrow> bool" where
  "free_pool s ps \<longleftrightarrow> kmem_lock \<notin> set (locks s) \<and> (\<exists>xs. free_list s xs \<and> ps = map page_addr xs)"

definition allocated :: "'z kmem_scheme \<Rightarrow> u64 \<Rightarrow> bool" where
  "allocated s p \<longleftrightarrow> (\<exists>i. p = page_addr i \<and> page_ix s i \<and> run_ref (runs s i) = 1 \<and>
     (\<forall>xs. free_list s xs \<longrightarrow> i \<notin> set xs))"

lemma page_addr_inj: "page_ix s i \<Longrightarrow> page_ix s j \<Longrightarrow> page_addr i = page_addr j \<Longrightarrow> i = j"
  by (metis unat_page_addr mult_cancel1 zero_neq_numeral)

interpretation kmem_alloc: page_allocator kalloc kfree free_pool allocated
proof
  fix s :: "'z kmem_scheme" and p ps
  assume "free_pool s (p # ps)"
  then obtain i xs where fl: "free_list s (i # xs)" and lk: "kmem_lock \<notin> set (locks s)"
      and p: "p = page_addr i" "ps = map page_addr xs"
    by (auto simp: free_pool_def)
  from fl have ix: "page_ix s i" "freelist s = Some i" "kernel_above_base s"
    by (auto simp: free_list_def)
  have run: "kalloc s = Ok p (after_kalloc i s)" using kalloc_run ix lk p by blast
  have fl': "free_list (after_kalloc i s) xs" by (rule free_list_after_kalloc [OF fl])
  have uniq: "ys = xs" if "free_list (after_kalloc i s) ys" for ys
    using that fl' by (rule free_list_unique)
  have own: "allocated (after_kalloc i s) p"
    unfolding allocated_def using ix p free_list_distinct [OF fl] by (auto dest: uniq)
  have keep: "allocated (after_kalloc i s) q" if "allocated s q" for q
  proof -
    from that obtain j where "q = page_addr j" "page_ix s j" "run_ref (runs s j) = 1" "j \<notin> set (i # xs)"
      unfolding allocated_def using fl by blast
    then show ?thesis unfolding allocated_def by (auto dest: uniq)
  qed
  show "\<exists>t. kalloc s = Ok p t \<and> free_pool t ps \<and> allocated t p \<and> (\<forall>q. allocated s q \<longrightarrow> allocated t q)"
    using run fl' own keep lk p by (auto simp: free_pool_def)
next
  fix s :: "'z kmem_scheme" and ps p
  assume "free_pool s ps" and "allocated s p"
  then obtain i xs where fl: "free_list s xs" and lk: "kmem_lock \<notin> set (locks s)"
      and ps: "ps = map page_addr xs" and p: "p = page_addr i" and ix: "page_ix s i"
      and ref: "run_ref (runs s i) = 1" and notin: "i \<notin> set xs"
    unfolding free_pool_def allocated_def by blast
  have run: "kfree p s = Ok () (after_kfree i s)"
    using kfree_run [of s i] ix ref lk p fl by (auto simp: free_list_def)
  have fl': "free_list (after_kfree i s) (i # xs)" by (rule free_list_after_kfree [OF fl ix notin])
  have uniq: "ys = i # xs" if "free_list (after_kfree i s) ys" for ys
    using that fl' by (rule free_list_unique)
  have keep: "allocated (after_kfree i s) q" if "allocated s q" "q \<noteq> p" for q
  proof -
    from that obtain j where "q = page_addr j" "page_ix s j" "run_ref (runs s j) = 1" "j \<notin> set xs"
      unfolding allocated_def using fl by blast
    moreover from this \<open>q \<noteq> p\<close> p have "j \<notin> set (i # xs)" by auto
    ultimately show ?thesis unfolding allocated_def
      by (intro exI [of _ j]) (auto dest: uniq)
  qed
  show "\<exists>t. kfree p s = Ok () t \<and> free_pool t (p # ps) \<and>
      (\<forall>q. allocated s q \<and> q \<noteq> p \<longrightarrow> allocated t q)"
    using run fl' keep lk p ps by (auto simp: free_pool_def intro!: exI [of _ "i # xs"])
next
  fix s :: "'z kmem_scheme" and ps
  assume "free_pool s ps"
  then obtain xs where fl: "free_list s xs" "ps = map page_addr xs" by (auto simp: free_pool_def)
  then have "inj_on page_addr (set xs)"
    by (auto intro!: inj_onI simp: free_list_def dest: page_addr_inj)
  with fl free_list_distinct show "distinct ps" by (auto simp: distinct_map)
next
  fix s :: "'z kmem_scheme" and ps p
  assume "free_pool s ps" and "allocated s p"
  then obtain i xs where "free_list s xs" "ps = map page_addr xs" "p = page_addr i" "page_ix s i" "i \<notin> set xs"
    unfolding free_pool_def allocated_def by blast
  then show "p \<notin> set ps" by (auto simp: free_list_def dest: page_addr_inj)
qed

text \<open>
  C11. Pages taken from the free list and given back in turn return to it: \<open>kalloc\<close> called as
  often as there are pages in \<open>qs\<close> hands out exactly \<open>qs\<close>, and freeing them puts them back, with
  no panic on the way.
\<close>

theorem kalloc_kfree_round_trip:
  assumes "free_pool s (qs @ ps)"
  shows "\<exists>t u. alloc_many kalloc (length qs) s = Ok qs t \<and> free_pool t ps \<and>
     for_each kfree qs t = Ok () u \<and> free_pool u (rev qs @ ps)"
  using assms by (rule kmem_alloc.alloc_free_all)

text \<open>
  C34. When memory is exhausted \<open>kalloc\<close> computes \<open>(0 - kmem.runs) * PGSIZE\<close> and does not
  return the null pointer that its callers test for.
\<close>

theorem kalloc_exhausted_not_null:
  assumes "freelist s = None" and "kmem_lock \<notin> set (locks s)"
    and "KERNBASE \<le> runs_base s" and "runs_base s < PHYSTOP"
  shows "\<exists>pa. kalloc s = Ok pa s \<and> pa \<noteq> 0 \<and> \<not> kmapped pa"
proof -
  let ?b = "runs_base s"
  have b: "2147483648 \<le> uint ?b" "uint ?b < 2281701376"
    using assms(3,4) by (simp_all add: word_le_def word_less_def KERNBASE_def PHYSTOP_def)
  have "sint (- ?b) = - uint ?b"
  proof -
    have "uint (- ?b) = take_bit 64 (- uint ?b)" by (simp add: uint_word_ariths take_bit_eq_mod)
    then have "sint (- ?b) = signed_take_bit 63 (- uint ?b)"
      by (simp add: sint_uint signed_take_bit_take_bit)
    with b show ?thesis by (simp add: signed_take_bit_int_eq_self)
  qed
  then have "sint (signed_drop_bit 4 (- ?b)) = - uint ?b div 16"
    by (simp add: sint_signed_drop_bit_eq drop_bit_eq_div)
  then have "signed_drop_bit 4 (- ?b) = (of_int (- uint ?b div 16) :: u64)"
    by (metis scast_eq scast_id)
  then have rp: "run_page s None = of_int ((- uint ?b div 16) * 4096)"
    by (simp add: run_page_def run_ptr_def)
  define q where "q = - uint ?b div 16"
  have "16 * q \<le> - uint ?b" "- uint ?b < 16 * q + 16"
    unfolding q_def by (simp_all add: minus_mod_eq_mult_div [symmetric])
  with b have q: "- 142606336 \<le> q" "q \<le> - 134217728" by linarith+
  then have "uint (run_page s None) = q * 4096 + 2 ^ 64"
  proof -
    have "(q * 4096) mod 2 ^ 64 = (q * 4096 + 2 ^ 64) mod 2 ^ 64" by simp
    also have "\<dots> = q * 4096 + 2 ^ 64" using q by (intro mod_pos_pos_trivial) simp_all
    finally show ?thesis unfolding rp q_def [symmetric] uint_word_of_int by simp
  qed
  with q have "run_page s None \<noteq> 0 \<and> \<not> kmapped (run_page s None)"
    by (auto simp: kmapped_def word_le_def word_less_def PHYSTOP_def)
  with kalloc_empty [OF assms(1,2)] show ?thesis by blast
qed

text \<open>
  C35. \<open>kfree\<close> leaves the reference count of the page at 1, so a second \<open>kfree\<close> of the same page
  passes the check and makes the free list cyclic.
\<close>

theorem double_kfree_breaks_free_list:
  assumes "page_ix s i" and "kernel_above_base s" and "kmem_lock \<notin> set (locks s)"
    and "run_ref (runs s i) = 1"
  shows "\<exists>t u. kfree (page_addr i) s = Ok () t \<and> kfree (page_addr i) t = Ok () u \<and>
     run_next (runs u i) = Some i \<and> (\<nexists>xs. free_list u xs)"
proof -
  let ?t = "after_kfree i s" and ?u = "after_kfree i (after_kfree i s)"
  have t: "kfree (page_addr i) s = Ok () ?t" using assms by (rule kfree_run)
  have u: "kfree (page_addr i) ?t = Ok () ?u"
    using assms by (intro kfree_run) (auto simp: kernel_above_base_def)
  have loop: "run_next (runs ?u i) = Some i" and head: "freelist ?u = Some i"
    by (simp_all add: after_kfree_def)
  have "\<not> linked (\<lambda>j. run_next (runs ?u j)) (Some i) xs" for xs
  proof
    assume xs: "linked (\<lambda>j. run_next (runs ?u j)) (Some i) xs"
    then obtain ys where eq: "xs = i # ys"
      and "linked (\<lambda>j. run_next (runs ?u j)) (run_next (runs ?u i)) ys"
      by (auto simp only: linked_Some)
    then have ys: "linked (\<lambda>j. run_next (runs ?u j)) (Some i) ys" by (simp only: loop)
    from xs ys have "xs = ys" by (rule linked_unique)
    with eq show False by (metis not_Cons_self2)
  qed
  then have "\<nexists>xs. free_list ?u xs" by (simp only: free_list_def head) blast
  with t u loop show ?thesis by blast
qed

section \<open>Concrete states\<close>

text \<open>
  \<open>boot_kmem\<close> is the allocator before \<open>kinit\<close>; \<open>chain_kmem i n\<close> has the \<open>n\<close> pages from index \<open>i\<close> on
  in its free list.
\<close>

definition boot_kmem :: kmem where
  "boot_kmem = \<lparr>mem = (\<lambda>_. 0), locks = [], freelist = None,
     runs = (\<lambda>_. \<lparr>run_next = None, run_ref = 0\<rparr>), kernel_end = 0x80027000, runs_base = 0x80010000\<rparr>"

definition chain_kmem :: "nat \<Rightarrow> nat \<Rightarrow> kmem" where
  "chain_kmem i n = boot_kmem\<lparr>freelist := (if n = 0 then None else Some i),
     runs := (\<lambda>j. \<lparr>run_next = (if i \<le> j \<and> Suc j < i + n then Some (Suc j) else None), run_ref = 1\<rparr>)\<rparr>"

lemma linked_chain:
  "linked (\<lambda>j. if i \<le> j \<and> Suc j < i + n then Some (Suc j) else None)
     (if k < n then Some (i + k) else None) [i + k..<i + n]"
proof (induction "n - k" arbitrary: k)
  case 0
  then show ?case by simp
next
  case (Suc d)
  then have k: "k < n" by simp
  then have "[i + k..<i + n] = (i + k) # [i + Suc k..<i + n]" by (simp add: upt_conv_Cons)
  moreover have "d = n - Suc k" using Suc.hyps(2) by simp
  note Suc.hyps(1) [OF this]
  ultimately show ?case using k by auto
qed

lemma free_list_chain:
  assumes "524327 \<le> i" and "i + n \<le> MAXPAGES"
  shows "free_list (chain_kmem i n) [i..<i + n]"
proof -
  have "linked (\<lambda>j. if i \<le> j \<and> Suc j < i + n then Some (Suc j) else None)
      (if n = 0 then None else Some i) [i..<i + n]"
    using linked_chain [of i n 0] by (cases "n = 0") auto
  then show ?thesis
    using assms by (auto simp: free_list_def chain_kmem_def boot_kmem_def kernel_above_base_def
        page_ix_iff KERNBASE_def PHYSTOP_def)
qed

lemma chain_kmem_simps [simp]:
  "mem (chain_kmem i n) = (\<lambda>_. 0)" "locks (chain_kmem i n) = []"
  "kernel_end (chain_kmem i n) = 0x80027000" "run_ref (runs (chain_kmem i n) j) = 1"
  by (simp_all add: chain_kmem_def boot_kmem_def)

theorem kinit_frees_all_pages_witness:
  "\<exists>t. kinit boot_kmem = Ok () t \<and> locks t = [] \<and> free_list t (rev [524327..<MAXPAGES])"
proof -
  have "unat (PGROUNDUP (0x80027000 :: u64)) div 4096 = 524327"
    by (simp add: unat_PGROUNDUP)
  then show ?thesis
    using kinit_frees_all_pages [of boot_kmem]
    by (simp add: boot_kmem_def kernel_above_base_def KERNBASE_def PHYSTOP_def)
qed

theorem kalloc_kfree_round_trip_witness:
  "\<exists>t u. alloc_many kalloc 2 (chain_kmem 530000 3) = Ok [0x81650000, 0x81651000] t \<and>
     free_pool t [0x81652000] \<and> for_each kfree [0x81650000, 0x81651000] t = Ok () u \<and>
     free_pool u [0x81651000, 0x81650000, 0x81652000]"
proof -
  have "[530000..<530000 + 3] = [530000, 530001, 530002 :: nat]" by (simp add: upt_rec)
  with free_list_chain [of 530000 3]
  have "free_list (chain_kmem 530000 3) [530000, 530001, 530002]" by (simp add: MAXPAGES_eq)
  then have "free_pool (chain_kmem 530000 3) ([0x81650000, 0x81651000] @ [0x81652000])"
    by (auto simp: free_pool_def intro!: exI [of _ "[530000, 530001, 530002]"])
  from kalloc_kfree_round_trip [OF this] show ?thesis by (simp add: numeral_2_eq_2)
qed

theorem kalloc_exhausted_not_null_witness:
  "\<exists>pa. kalloc boot_kmem = Ok pa boot_kmem \<and> pa \<noteq> 0 \<and> \<not> kmapped pa"
  using kalloc_exhausted_not_null [of boot_kmem]
  by (simp add: boot_kmem_def KERNBASE_def PHYSTOP_def)

theorem double_kfree_breaks_free_list_witness:
  "\<exists>t u. kfree 0x81650000 (chain_kmem 540000 0) = Ok () t \<and> kfree 0x81650000 t = Ok () u \<and>
     run_next (runs u 530000) = Some 530000 \<and> (\<nexists>xs. free_list u xs)"
  using double_kfree_breaks_free_list [of "chain_kmem 540000 0" 530000]
  by (simp add: page_ix_iff MAXPAGES_eq kernel_above_base_def KERNBASE_def PHYSTOP_def)

end
