(* ===== verification/Vm.thy ===== *)
theory Vm
  imports Kalloc
begin

unbundle bit_operations_syntax

text \<open>
  Page tables and user memory, \<open>kernel/vm.c\<close>. A page table is the physical address of its
  root page; entries are 64-bit words in memory, read and written through \<open>kload64\<close> and
  \<open>kstore64\<close>. A \<open>pte_t *\<close> is an address, 0 the null pointer. Kernel buffers that user
  memory is copied from or to are byte lists.
\<close>

section \<open>State\<close>

text \<open>\<open>etext\<close> and \<open>trampoline\<close> are linker symbols.\<close>

record vm = kmem +
  kernel_pagetable :: u64
  etext :: u64
  trampoline :: u64

section \<open>Walking and changing a page table\<close>

text \<open>
  One level of \<open>walk\<close>: the next page-table page, \<open>None\<close> where the C function returns 0.
\<close>

definition walk_step :: "u64 \<Rightarrow> u64 \<Rightarrow> nat \<Rightarrow> bool \<Rightarrow> ('z kmem_scheme, u64 option) kmon" where
  "walk_step pagetable va level alloc =
     (let pte = pagetable + 8 * PX level va in
      bnd (kload64 pte) (\<lambda>v.
      if v AND PTE_V \<noteq> 0 then ret (Some (PTE2PA v))
      else if \<not> alloc then ret None
      else bnd kalloc (\<lambda>pa.
        if pa = 0 then ret None
        else bnd (kmemset pa 0 4096) (\<lambda>_.
          bnd (kstore64 pte (PA2PTE pa OR PTE_V)) (\<lambda>_.
          ret (Some pa))))))"

primrec walk_levels :: "nat \<Rightarrow> u64 \<Rightarrow> u64 \<Rightarrow> bool \<Rightarrow> ('z kmem_scheme, u64) kmon" where
  "walk_levels 0 pagetable va alloc = ret (pagetable + 8 * PX 0 va)"
| "walk_levels (Suc level) pagetable va alloc =
     bnd (walk_step pagetable va (Suc level) alloc) (\<lambda>nxt.
     case nxt of None \<Rightarrow> ret 0 | Some child \<Rightarrow> walk_levels level child va alloc)"

definition walk :: "u64 \<Rightarrow> u64 \<Rightarrow> bool \<Rightarrow> ('z kmem_scheme, u64) kmon" where
  "walk pagetable va alloc =
     (if va \<ge> MAXVA then panic ''walk'' else walk_levels 2 pagetable va alloc)"

definition walkaddr :: "u64 \<Rightarrow> u64 \<Rightarrow> ('z kmem_scheme, u64) kmon" where
  "walkaddr pagetable va =
     (if va \<ge> MAXVA then ret 0
      else bnd (walk pagetable va False) (\<lambda>pte.
        if pte = 0 then ret 0
        else bnd (kload64 pte) (\<lambda>v.
          if v AND PTE_V = 0 then ret 0
          else if v AND PTE_U = 0 then ret 0
          else ret (PTE2PA v))))"

lemma walk_Ok_va: "walk pt va alloc s = Ok x t \<Longrightarrow> va < MAXVA"
  by (auto simp: walk_def split: if_splits)

function mappages_loop ::
  "u64 \<Rightarrow> u64 \<Rightarrow> u64 \<Rightarrow> u64 \<Rightarrow> u64 \<Rightarrow> 'z kmem_scheme \<Rightarrow> (int, 'z kmem_scheme) outcome" where
  "mappages_loop pagetable a lst pa perm s =
     bnd (walk pagetable a True) (\<lambda>pte t.
       if pte = 0 then Ok (- 1) t
       else bnd (kload64 pte) (\<lambda>v t.
         if v AND PTE_V \<noteq> 0 then Halt (Panic ''mappages: remap'') t
         else bnd (kstore64 pte (PA2PTE pa OR perm OR PTE_V)) (\<lambda>_ t.
           if a = lst then Ok 0 t
           else mappages_loop pagetable (a + PGSIZE) lst (pa + PGSIZE) perm t) t) t) s"
  by pat_completeness auto
termination
proof (relation "measure (\<lambda>(pt, a, lst, pa, perm, s). unat MAXVA - unat a)", simp)
  fix pagetable a lst pa perm pte v x and s t t' t'' :: "'z kmem_scheme"
  assume "walk pagetable a True s = Ok pte t"
  then have "a < MAXVA" by (rule walk_Ok_va)
  then have "unat a < unat MAXVA" "unat (a + PGSIZE) = unat a + 4096"
    by (simp_all add: word_less_nat_alt MAXVA_def unat_plus_if')
  then show "((pagetable, a + PGSIZE, lst, pa + PGSIZE, perm, t''), pagetable, a, lst, pa, perm, s)
      \<in> measure (\<lambda>(pt, a, lst, pa, perm, s). unat MAXVA - unat a)"
    by simp
qed

declare mappages_loop.simps [simp del]

definition mappages :: "u64 \<Rightarrow> u64 \<Rightarrow> u64 \<Rightarrow> u64 \<Rightarrow> u64 \<Rightarrow> ('z kmem_scheme, int) kmon" where
  "mappages pagetable va sz pa perm =
     (if sz = 0 then panic ''mappages: size''
      else mappages_loop pagetable (PGROUNDDOWN va) (PGROUNDDOWN (va + sz - 1)) pa perm)"

function uvmunmap_loop ::
  "u64 \<Rightarrow> u64 \<Rightarrow> u64 \<Rightarrow> bool \<Rightarrow> 'z kmem_scheme \<Rightarrow> (unit, 'z kmem_scheme) outcome" where
  "uvmunmap_loop pagetable a lst do_free s =
     (if a < lst
      then bnd (walk pagetable a False) (\<lambda>pte t.
        if pte = 0 then Halt (Panic ''uvmunmap: walk'') t
        else bnd (kload64 pte) (\<lambda>v t.
          if v AND PTE_V = 0 then Halt (Panic ''uvmunmap: not mapped'') t
          else if PTE_FLAGS v = PTE_V then Halt (Panic ''uvmunmap: not a leaf'') t
          else bnd (guarded do_free (kfree (PTE2PA v))) (\<lambda>_ t.
            bnd (kstore64 pte 0) (\<lambda>_ t.
              uvmunmap_loop pagetable (a + PGSIZE) lst do_free t) t) t) t) s
      else Ok () s)"
  by pat_completeness auto
termination
proof (relation "measure (\<lambda>(pt, a, lst, f, s). unat MAXVA - unat a)", simp)
  fix pagetable a lst do_free pte v x y and s t t' t'' t''' :: "'z kmem_scheme"
  assume "walk pagetable a False s = Ok pte t"
  then have "a < MAXVA" by (rule walk_Ok_va)
  then have "unat a < unat MAXVA" "unat (a + PGSIZE) = unat a + 4096"
    by (simp_all add: word_less_nat_alt MAXVA_def unat_plus_if')
  then show "((pagetable, a + PGSIZE, lst, do_free, t'''), pagetable, a, lst, do_free, s)
      \<in> measure (\<lambda>(pt, a, lst, f, s). unat MAXVA - unat a)"
    by simp
qed

declare uvmunmap_loop.simps [simp del]

definition uvmunmap :: "u64 \<Rightarrow> u64 \<Rightarrow> u64 \<Rightarrow> bool \<Rightarrow> ('z kmem_scheme, unit) kmon" where
  "uvmunmap pagetable va npages do_free =
     (if va mod PGSIZE \<noteq> 0 then panic ''uvmunmap: not aligned''
      else uvmunmap_loop pagetable va (va + npages * PGSIZE) do_free)"

section \<open>Growing, shrinking, freeing and copying user memory\<close>

definition uvmcreate :: "('z kmem_scheme, u64) kmon" where
  "uvmcreate = bnd kalloc (\<lambda>pagetable.
     if pagetable = 0 then ret 0
     else bnd (kmemset pagetable 0 4096) (\<lambda>_. ret pagetable))"

text \<open>Storing a kernel byte buffer to memory, and reading one (the \<open>memmove\<close> of copyout/copyin).\<close>

definition put_bytes :: "(u64 \<Rightarrow> u8) \<Rightarrow> u64 \<Rightarrow> u8 list \<Rightarrow> (u64 \<Rightarrow> u8)" where
  "put_bytes m a bs = (\<lambda>x. if unat (x - a) < length bs then bs ! unat (x - a) else m x)"

definition get_bytes :: "(u64 \<Rightarrow> u8) \<Rightarrow> u64 \<Rightarrow> nat \<Rightarrow> u8 list" where
  "get_bytes m a n = map (\<lambda>i. m (a + of_nat i)) [0..<n]"

definition kput :: "u64 \<Rightarrow> u8 list \<Rightarrow> ('z machine_scheme, unit) kmon" where
  "kput a bs = (if kmapped_range a (length bs) then modify (\<lambda>s. s\<lparr>mem := put_bytes (mem s) a bs\<rparr>)
     else stop (Fault a))"

definition kget :: "u64 \<Rightarrow> nat \<Rightarrow> ('z machine_scheme, u8 list) kmon" where
  "kget a n = (if kmapped_range a n then gets (\<lambda>s. get_bytes (mem s) a n) else stop (Fault a))"

definition uvminit :: "u64 \<Rightarrow> u8 list \<Rightarrow> ('z kmem_scheme, unit) kmon" where
  "uvminit pagetable src =
     (if length src \<ge> 4096 then panic ''inituvm: more than a page''
      else bnd kalloc (\<lambda>p.
        bnd (kmemset p 0 4096) (\<lambda>_.
        bnd (mappages pagetable 0 PGSIZE p (PTE_W OR PTE_R OR PTE_X OR PTE_U)) (\<lambda>_.
        kput p src))))"

definition uvmdealloc :: "u64 \<Rightarrow> u64 \<Rightarrow> u64 \<Rightarrow> ('z kmem_scheme, u64) kmon" where
  "uvmdealloc pagetable oldsz newsz =
     (if newsz \<ge> oldsz then ret oldsz
      else bnd (if PGROUNDUP newsz < PGROUNDUP oldsz
         then let npages = ucast ((PGROUNDUP oldsz - PGROUNDUP newsz) div PGSIZE) :: u32
              in uvmunmap pagetable (PGROUNDUP newsz) (scast npages) True
         else ret ()) (\<lambda>_. ret newsz))"

lemma mappages_Ok_va: "mappages pt va sz pa perm s = Ok x t \<Longrightarrow> va < MAXVA"
proof -
  assume "mappages pt va sz pa perm s = Ok x t"
  then have "PGROUNDDOWN va < MAXVA"
    by (auto simp: mappages_def mappages_loop.simps [of pt "PGROUNDDOWN va"] bnd_eq_Ok
        split: if_splits dest: walk_Ok_va)
  then show ?thesis
    by (simp add: word_less_nat_alt MAXVA_def unat_PGROUNDDOWN_div)
qed

function uvmalloc_loop ::
  "u64 \<Rightarrow> u64 \<Rightarrow> u64 \<Rightarrow> u64 \<Rightarrow> 'z kmem_scheme \<Rightarrow> (u64, 'z kmem_scheme) outcome" where
  "uvmalloc_loop pagetable a oldsz newsz s =
     (if a < newsz
      then bnd kalloc (\<lambda>p t.
        if p = 0 then bnd (uvmdealloc pagetable a oldsz) (\<lambda>_. ret 0) t
        else bnd (kmemset p 0 4096) (\<lambda>_ t.
          bnd (mappages pagetable a PGSIZE p (PTE_W OR PTE_X OR PTE_R OR PTE_U)) (\<lambda>r t.
            if r \<noteq> 0
            then bnd (kfree p) (\<lambda>_. bnd (uvmdealloc pagetable a oldsz) (\<lambda>_. ret 0)) t
            else uvmalloc_loop pagetable (a + PGSIZE) oldsz newsz t) t) t) s
      else Ok newsz s)"
  by pat_completeness auto
termination
proof (relation "measure (\<lambda>(pt, a, oldsz, newsz, s). unat MAXVA - unat a)", simp)
  fix pagetable a oldsz newsz p x r and s t t' t'' :: "'z kmem_scheme"
  assume "mappages pagetable a PGSIZE p (PTE_W OR PTE_X OR PTE_R OR PTE_U) t' = Ok r t''"
  then have "a < MAXVA" by (rule mappages_Ok_va)
  then have "unat a < unat MAXVA" "unat (a + PGSIZE) = unat a + 4096"
    by (simp_all add: word_less_nat_alt MAXVA_def unat_plus_if')
  then show "((pagetable, a + PGSIZE, oldsz, newsz, t''), pagetable, a, oldsz, newsz, s)
      \<in> measure (\<lambda>(pt, a, oldsz, newsz, s). unat MAXVA - unat a)"
    by simp
qed

declare uvmalloc_loop.simps [simp del]

definition uvmalloc :: "u64 \<Rightarrow> u64 \<Rightarrow> u64 \<Rightarrow> ('z kmem_scheme, u64) kmon" where
  "uvmalloc pagetable oldsz newsz =
     (if newsz < oldsz then ret oldsz
      else uvmalloc_loop pagetable (PGROUNDUP oldsz) (PGROUNDUP oldsz) newsz)"

primrec freewalk :: "nat \<Rightarrow> u64 \<Rightarrow> ('z kmem_scheme, unit) kmon" where
  "freewalk 0 pagetable = stop (Blocked ''freewalk: deeper than a page table'')"
| "freewalk (Suc depth) pagetable =
     bnd (for_each (\<lambda>i.
       bnd (kload64 (pagetable + 8 * of_nat i)) (\<lambda>pte.
       if pte AND PTE_V \<noteq> 0 \<and> pte AND (PTE_R OR PTE_W OR PTE_X) = 0
       then bnd (freewalk depth (PTE2PA pte)) (\<lambda>_. kstore64 (pagetable + 8 * of_nat i) 0)
       else if pte AND PTE_V \<noteq> 0 then panic ''freewalk: leaf''
       else ret ())) [0..<512]) (\<lambda>_.
     kfree pagetable)"

definition uvmfree :: "u64 \<Rightarrow> u64 \<Rightarrow> ('z kmem_scheme, unit) kmon" where
  "uvmfree pagetable sz =
     bnd (guarded (sz > 0) (uvmunmap pagetable 0 (PGROUNDUP sz div PGSIZE) True)) (\<lambda>_.
     freewalk 3 pagetable)"

function uvmcopy_loop ::
  "u64 \<Rightarrow> u64 \<Rightarrow> u64 \<Rightarrow> u64 \<Rightarrow> 'z kmem_scheme \<Rightarrow> (int, 'z kmem_scheme) outcome" where
  "uvmcopy_loop old new i sz s =
     (if i < sz
      then bnd (walk old i False) (\<lambda>pte t.
        if pte = 0 then Halt (Panic ''uvmcopy: pte should exist'') t
        else bnd (kload64 pte) (\<lambda>v t.
          if v AND PTE_V = 0 then Halt (Panic ''uvmcopy: page not present'') t
          else bnd kalloc (\<lambda>p t.
            if p = 0 then bnd (uvmunmap new 0 (i div PGSIZE) True) (\<lambda>_. ret (- 1)) t
            else bnd (kmemmove p (PTE2PA v) 4096) (\<lambda>_ t.
              bnd (mappages new i PGSIZE p (PTE_FLAGS v)) (\<lambda>r t.
                if r \<noteq> 0
                then bnd (kfree p) (\<lambda>_. bnd (uvmunmap new 0 (i div PGSIZE) True) (\<lambda>_. ret (- 1))) t
                else uvmcopy_loop old new (i + PGSIZE) sz t) t) t) t) t) s
      else Ok 0 s)"
  by pat_completeness auto
termination
proof (relation "measure (\<lambda>(old, new, i, sz, s). unat MAXVA - unat i)", simp)
  fix old new i sz pte v p x r and s t t1 t2 t3 t4 :: "'z kmem_scheme"
  assume "walk old i False s = Ok pte t"
  then have "i < MAXVA" by (rule walk_Ok_va)
  then have "unat i < unat MAXVA" "unat (i + PGSIZE) = unat i + 4096"
    by (simp_all add: word_less_nat_alt MAXVA_def unat_plus_if')
  then show "((old, new, i + PGSIZE, sz, t4), old, new, i, sz, s)
      \<in> measure (\<lambda>(old, new, i, sz, s). unat MAXVA - unat i)"
    by simp
qed

declare uvmcopy_loop.simps [simp del]

definition uvmcopy :: "u64 \<Rightarrow> u64 \<Rightarrow> u64 \<Rightarrow> ('z kmem_scheme, int) kmon" where
  "uvmcopy old new sz = uvmcopy_loop old new 0 sz"

definition uvmclear :: "u64 \<Rightarrow> u64 \<Rightarrow> ('z kmem_scheme, unit) kmon" where
  "uvmclear pagetable va = bnd (walk pagetable va False) (\<lambda>pte.
     if pte = 0 then panic ''uvmclear''
     else bnd (kload64 pte) (\<lambda>v. kstore64 pte (v AND NOT PTE_U)))"

section \<open>Copying between the kernel and user memory\<close>

text \<open>
  \<open>page_rest va\<close> is \<open>PGSIZE - (va - PGROUNDDOWN(va))\<close>, the bytes from \<open>va\<close> to the end of its page.
\<close>

definition page_rest :: "u64 \<Rightarrow> nat" where
  "page_rest va = unat (PGSIZE - (va - PGROUNDDOWN va))"

lemma page_rest_eq: "page_rest va = 4096 - unat va mod 4096"
proof -
  have "unat (va - PGROUNDDOWN va) = unat va mod 4096"
    using PGROUNDDOWN_le [of va] by (simp add: unat_sub unat_PGROUNDDOWN)
  then show ?thesis by (simp add: page_rest_def unat_sub word_le_nat_alt)
qed

lemma page_rest_pos: "0 < page_rest va"
  by (simp add: page_rest_eq)

function copyout ::
  "u64 \<Rightarrow> u64 \<Rightarrow> u8 list \<Rightarrow> 'z kmem_scheme \<Rightarrow> (int, 'z kmem_scheme) outcome" where
  "copyout pagetable dstva src s =
     (if src \<noteq> []
      then let va0 = PGROUNDDOWN dstva; n = min (page_rest dstva) (length src) in
        bnd (walkaddr pagetable va0) (\<lambda>pa0 t.
          if pa0 = 0 then Ok (- 1) t
          else bnd (kput (pa0 + (dstva - va0)) (take n src)) (\<lambda>_ t.
            copyout pagetable (va0 + PGSIZE) (drop n src) t) t) s
      else Ok 0 s)"
  by pat_completeness auto
termination
  by (relation "measure (\<lambda>(pt, va, src, s). length src)") (auto simp: page_rest_pos)

declare copyout.simps [simp del]

text \<open>\<open>copyin\<close> and \<open>copyinstr\<close> return the C result and the bytes stored at \<open>dst\<close>.\<close>

function copyin ::
  "u64 \<Rightarrow> u64 \<Rightarrow> nat \<Rightarrow> 'z kmem_scheme \<Rightarrow> (int \<times> u8 list, 'z kmem_scheme) outcome" where
  "copyin pagetable srcva len s =
     (if len > 0
      then let va0 = PGROUNDDOWN srcva; n = min (page_rest srcva) len in
        bnd (walkaddr pagetable va0) (\<lambda>pa0 t.
          if pa0 = 0 then Ok (- 1, []) t
          else bnd (kget (pa0 + (srcva - va0)) n) (\<lambda>bs t.
            bnd (\<lambda>t. copyin pagetable (va0 + PGSIZE) (len - n) t)
              (\<lambda>(r, rest). ret (r, bs @ rest)) t) t) s
      else Ok (0, []) s)"
  by pat_completeness auto
termination
  by (relation "measure (\<lambda>(pt, va, len, s). len)") (auto simp: page_rest_pos)

declare copyin.simps [simp del]

fun str_chunk :: "u8 list \<Rightarrow> u8 list \<times> bool" where
  "str_chunk [] = ([], False)"
| "str_chunk (b # bs) =
     (if b = 0 then ([0], True) else (case str_chunk bs of (r, got_null) \<Rightarrow> (b # r, got_null)))"

function copyinstr ::
  "u64 \<Rightarrow> u64 \<Rightarrow> nat \<Rightarrow> 'z kmem_scheme \<Rightarrow> (int \<times> u8 list, 'z kmem_scheme) outcome" where
  "copyinstr pagetable srcva mx s =
     (if mx > 0
      then let va0 = PGROUNDDOWN srcva; n = min (page_rest srcva) mx in
        bnd (walkaddr pagetable va0) (\<lambda>pa0 t.
          if pa0 = 0 then Ok (- 1, []) t
          else bnd (kget (pa0 + (srcva - va0)) n) (\<lambda>bs t.
            case str_chunk bs of (r, got_null) \<Rightarrow>
              if got_null then Ok (0, r) t
              else bnd (\<lambda>t. copyinstr pagetable (va0 + PGSIZE) (mx - n) t)
                (\<lambda>(res, rest). ret (res, r @ rest)) t) t) s
      else Ok (- 1, []) s)"
  by pat_completeness auto
termination
  by (relation "measure (\<lambda>(pt, va, mx, s). mx)") (auto simp: page_rest_pos)

declare copyinstr.simps [simp del]

section \<open>The kernel page table and the page tables of processes\<close>

definition kvmmap :: "u64 \<Rightarrow> u64 \<Rightarrow> u64 \<Rightarrow> u64 \<Rightarrow> u64 \<Rightarrow> ('z kmem_scheme, unit) kmon" where
  "kvmmap kpgtbl va pa sz perm =
     bnd (mappages kpgtbl va sz pa perm) (\<lambda>r. if r \<noteq> 0 then panic ''kvmmap'' else ret ())"

definition proc_mapstacks :: "u64 \<Rightarrow> ('z kmem_scheme, unit) kmon" where
  "proc_mapstacks kpgtbl = for_each (\<lambda>p.
     bnd kalloc (\<lambda>pa.
     if pa = 0 then panic ''kalloc''
     else kvmmap kpgtbl (KSTACK p) pa PGSIZE (PTE_R OR PTE_W))) [0..<NPROC]"

definition kvmmake :: "('z vm_scheme, u64) kmon" where
  "kvmmake = bnd (gets etext) (\<lambda>etext. bnd (gets trampoline) (\<lambda>trampoline.
     bnd kalloc (\<lambda>kpgtbl.
     bnd (kmemset kpgtbl 0 4096) (\<lambda>_.
     bnd (kvmmap kpgtbl 0x10000000 0x10000000 PGSIZE (PTE_R OR PTE_W)) (\<lambda>_.
     bnd (kvmmap kpgtbl 0x10001000 0x10001000 PGSIZE (PTE_R OR PTE_W)) (\<lambda>_.
     bnd (kvmmap kpgtbl 0x0c000000 0x0c000000 0x400000 (PTE_R OR PTE_W)) (\<lambda>_.
     bnd (kvmmap kpgtbl KERNBASE KERNBASE (etext - KERNBASE) (PTE_R OR PTE_X)) (\<lambda>_.
     bnd (kvmmap kpgtbl etext etext (PHYSTOP - etext) (PTE_R OR PTE_W)) (\<lambda>_.
     bnd (kvmmap kpgtbl TRAMPOLINE trampoline PGSIZE (PTE_R OR PTE_X)) (\<lambda>_.
     bnd (proc_mapstacks kpgtbl) (\<lambda>_.
     ret kpgtbl)))))))))))"

definition kvminit :: "('z vm_scheme, unit) kmon" where
  "kvminit = bnd kvmmake (\<lambda>pt. modify (\<lambda>s. s\<lparr>kernel_pagetable := pt\<rparr>))"

text \<open>\<open>proc_pagetable\<close> takes the address of the process's trapframe page.\<close>

definition proc_pagetable :: "u64 \<Rightarrow> ('z vm_scheme, u64) kmon" where
  "proc_pagetable trapframe = bnd uvmcreate (\<lambda>pagetable.
     if pagetable = 0 then ret 0
     else bnd (gets trampoline) (\<lambda>tramp.
       bnd (mappages pagetable TRAMPOLINE PGSIZE tramp (PTE_R OR PTE_X)) (\<lambda>r.
       if r < 0 then bnd (uvmfree pagetable 0) (\<lambda>_. ret 0)
       else bnd (mappages pagetable TRAPFRAME PGSIZE trapframe (PTE_R OR PTE_W)) (\<lambda>r.
         if r < 0
         then bnd (uvmunmap pagetable TRAMPOLINE 1 False) (\<lambda>_.
           bnd (uvmfree pagetable 0) (\<lambda>_. ret 0))
         else ret pagetable))))"

definition proc_freepagetable :: "u64 \<Rightarrow> u64 \<Rightarrow> ('z vm_scheme, unit) kmon" where
  "proc_freepagetable pagetable sz =
     bnd (uvmunmap pagetable TRAMPOLINE 1 False) (\<lambda>_.
     bnd (uvmunmap pagetable TRAPFRAME 1 False) (\<lambda>_.
     uvmfree pagetable sz))"

end
