(* ===== verification/Pagetable.thy ===== *)
theory Pagetable
  imports Vm
begin

unbundle bit_operations_syntax

text \<open>
  What the page-table operations of \<open>Vm\<close> do, as lemmas on the translation \<open>pte_of\<close> and the bytes
  \<open>ubyte\<close> that user code reads: \<open>walk\<close> is a lookup that allocates tables on demand, \<open>mappages\<close>
  and \<open>uvmunmap\<close> change the translation of their pages only, \<open>copyout\<close> and \<open>copyin\<close> write and read
  exactly the bytes of their range.
\<close>

section \<open>Pages of RAM and the entries in them\<close>

definition in_page :: "u64 \<Rightarrow> u64 \<Rightarrow> bool" where
  "in_page t x \<longleftrightarrow> unat (x - t) < 4096"

definition ram_page :: "u64 \<Rightarrow> bool" where
  "ram_page t \<longleftrightarrow> page_aligned t \<and> KERNBASE \<le> t \<and> t < PHYSTOP"

lemma ram_page_bounds:
  assumes "ram_page t"
  shows "4096 dvd unat t" and "2147483648 \<le> unat t" and "unat t + 4096 \<le> 2281701376"
proof -
  from assms show d: "4096 dvd unat t" and "2147483648 \<le> unat t"
    by (simp_all add: ram_page_def page_aligned_def word_le_nat_alt KERNBASE_def)
  from assms have "unat t < 2281701376"
    by (simp add: ram_page_def word_less_nat_alt PHYSTOP_def)
  with d show "unat t + 4096 \<le> 2281701376" by (auto elim!: dvdE)
qed

lemma ram_page_nonzero: "ram_page t \<Longrightarrow> t \<noteq> 0"
  by (auto simp: ram_page_def KERNBASE_def)

lemma unat_in_page:
  assumes "ram_page t" and "unat w < 4096"
  shows "unat (t + w) = unat t + unat w"
  using assms ram_page_bounds [OF assms(1)] by (simp add: unat_plus_if')

lemma in_page_add: "unat w < 4096 \<Longrightarrow> in_page t (t + w)"
  by (simp add: in_page_def)

lemma in_page_self: "in_page t t"
  by (simp add: in_page_def)

lemma in_page_div:
  assumes "ram_page t" and "in_page t x"
  shows "unat x div 4096 = unat t div 4096"
proof -
  have "unat x = unat t + unat (x - t)"
    using unat_in_page [of t "x - t"] assms by (simp add: in_page_def)
  moreover obtain k where "unat t = 4096 * k" using ram_page_bounds(1) [OF assms(1)] by (auto elim: dvdE)
  ultimately show ?thesis using assms(2) by (simp add: in_page_def)
qed

lemma in_page_unique:
  assumes "ram_page t" "ram_page u" "in_page t x" "in_page u x"
  shows "t = u"
proof -
  have "unat t div 4096 = unat u div 4096"
    using in_page_div [OF assms(1,3)] in_page_div [OF assms(2,4)] by simp
  then have "unat t = unat u"
    using ram_page_bounds(1) [OF assms(1)] ram_page_bounds(1) [OF assms(2)] by (auto elim!: dvdE)
  then show ?thesis by (rule word_eqI_unat)
qed

text \<open>The address of entry \<open>i\<close> of the table at \<open>t\<close>; indices are below 512.\<close>

lemma unat_8_times: "unat i < 512 \<Longrightarrow> unat (8 * i :: u64) = 8 * unat i"
  by (simp add: unat_word_ariths)

lemma entry_byte_in_page:
  assumes "ram_page t" and "unat i < 512" and "k < 8"
  shows "in_page t (t + 8 * i + of_nat k)"
proof -
  have "unat (8 * i + of_nat k :: u64) = 8 * unat i + k"
    using assms by (simp add: unat_plus_if' unat_8_times unat_of_nat)
  with assms show ?thesis
    using in_page_add [of "8 * i + of_nat k" t] by (simp add: add.assoc)
qed

lemma entry_mapped:
  assumes "ram_page t" and "unat i < 512"
  shows "kmapped_range (t + 8 * i) 8"
proof -
  have "unat (t + 8 * i) = unat t + 8 * unat i"
    using assms by (subst unat_in_page) (simp_all add: unat_8_times)
  with ram_page_bounds [OF assms(1)] assms(2) show ?thesis
    by (simp add: kmapped_range_def word_le_nat_alt KERNBASE_def PHYSTOP_def)
qed

lemma page_mapped: "ram_page t \<Longrightarrow> kmapped_range t 4096"
  using ram_page_bounds [of t]
  by (simp add: kmapped_range_def word_le_nat_alt KERNBASE_def PHYSTOP_def)

lemma entry_nonzero: "ram_page t \<Longrightarrow> unat i < 512 \<Longrightarrow> t + 8 * i \<noteq> 0"
  using entry_mapped [of t i] by (auto simp: kmapped_range_def KERNBASE_def)

lemma load_entry_cong:
  assumes "ram_page t" and "unat i < 512" and "\<And>x. in_page t x \<Longrightarrow> m x = m' x"
  shows "load64 m (t + 8 * i) = load64 m' (t + 8 * i)"
  using assms by (intro load64_cong) (simp add: entry_byte_in_page)

lemma store_entry_outside:
  assumes "ram_page t" and "unat i < 512" and "\<not> in_page t x"
  shows "store64 m (t + 8 * i) v x = m x"
proof (rule store64_outside, rule ccontr)
  assume "\<not> 8 \<le> unat (x - (t + 8 * i))"
  then have "in_page t (t + 8 * i + of_nat (unat (x - (t + 8 * i))))"
    using assms by (intro entry_byte_in_page) auto
  with assms(3) show False by (simp add: add.assoc)
qed

lemma load_store_entry:
  assumes "ram_page t" "ram_page u" "unat i < 512" "unat j < 512"
  shows "load64 (store64 m (t + 8 * i) v) (u + 8 * j) =
    (if t = u \<and> i = j then v else load64 m (u + 8 * j))"
proof (cases "t = u")
  case False
  then have "load64 (store64 m (t + 8 * i) v) (u + 8 * j) = load64 m (u + 8 * j)"
    using assms by (intro load_entry_cong store_entry_outside) (auto dest: in_page_unique)
  with False show ?thesis by simp
next
  case True
  show ?thesis
  proof (cases "i = j")
    case False
    have d: "unat (8 * j - 8 * i :: u64) \<ge> 8" "unat (8 * i - 8 * j :: u64) \<ge> 8"
    proof -
      have "unat i \<noteq> unat j" using False by (auto dest: word_eqI_unat)
      then show "unat (8 * j - 8 * i :: u64) \<ge> 8" "unat (8 * i - 8 * j :: u64) \<ge> 8"
        using assms(3,4) by (auto simp: unat_sub_if' unat_8_times)
    qed
    have "load64 (store64 m (t + 8 * i) v) (t + 8 * j) = load64 m (t + 8 * j)"
      using d by (intro load64_store64_other) (simp_all add: algebra_simps)
    with True False show ?thesis by simp
  qed (simp add: True)
qed

lemma memset_page:
  "memset m t c 4096 x = (if in_page t x then c else m x)"
  by (simp add: memset_apply in_page_def)

lemma load_entry_zeroed:
  assumes "ram_page t" and "unat i < 512"
  shows "load64 (memset m t 0 4096) (t + 8 * i) = 0"
  using assms by (intro load64_zero) (simp add: memset_page entry_byte_in_page)

lemma ram_page_page_addr:
  assumes "page_ix s i" and "kernel_above_base s"
  shows "ram_page (page_addr i)"
  using assms page_addr_mapped [OF assms] page_ix_bound [OF assms(1)]
  by (auto simp: ram_page_def page_aligned_def unat_page_addr kmapped_range_def
      word_less_nat_alt page_ix_def PHYSTOP_def)

section \<open>The tree of page-table pages\<close>

text \<open>
  \<open>ent m t i\<close> is the table that entry \<open>i\<close> of table \<open>t\<close> points to, \<open>l0 m r a b\<close> the level-0
  table for the level-2 and level-1 indices \<open>a\<close> and \<open>b\<close>, \<open>pte_of m r va\<close> the leaf entry that
  translates \<open>va\<close> (0 where there is no table), \<open>tables m r\<close> all pages of the tree.
\<close>

definition ent :: "(u64 \<Rightarrow> u8) \<Rightarrow> u64 \<Rightarrow> u64 \<Rightarrow> u64 option" where
  "ent m t i = (if load64 m (t + 8 * i) AND 1 \<noteq> 0 then Some (PTE2PA (load64 m (t + 8 * i))) else None)"

definition l0 :: "(u64 \<Rightarrow> u8) \<Rightarrow> u64 \<Rightarrow> u64 \<Rightarrow> u64 \<Rightarrow> u64 option" where
  "l0 m r a b = (case ent m r a of None \<Rightarrow> None | Some t \<Rightarrow> ent m t b)"

definition pte_of :: "(u64 \<Rightarrow> u8) \<Rightarrow> u64 \<Rightarrow> u64 \<Rightarrow> u64" where
  "pte_of m r va = (case l0 m r (PX 2 va) (PX 1 va) of None \<Rightarrow> 0 | Some t \<Rightarrow> load64 m (t + 8 * PX 0 va))"

definition slot_of :: "(u64 \<Rightarrow> u8) \<Rightarrow> u64 \<Rightarrow> u64 \<Rightarrow> u64" where
  "slot_of m r va = (case l0 m r (PX 2 va) (PX 1 va) of None \<Rightarrow> 0 | Some t \<Rightarrow> t + 8 * PX 0 va)"

abbreviation pidx :: "u64 \<Rightarrow> bool" where
  "pidx a \<equiv> unat a < 512"

definition tables :: "(u64 \<Rightarrow> u8) \<Rightarrow> u64 \<Rightarrow> u64 set" where
  "tables m r = {r} \<union> {t. \<exists>a. pidx a \<and> ent m r a = Some t}
     \<union> {t. \<exists>a b. pidx a \<and> pidx b \<and> l0 m r a b = Some t}"

definition pt_wf :: "(u64 \<Rightarrow> u8) \<Rightarrow> u64 \<Rightarrow> bool" where
  "pt_wf m r \<longleftrightarrow> (\<forall>t \<in> tables m r. ram_page t) \<and>
     (\<forall>a. pidx a \<longrightarrow> ent m r a \<noteq> Some r) \<and>
     (\<forall>a b. pidx a \<longrightarrow> pidx b \<longrightarrow> l0 m r a b \<noteq> Some r) \<and>
     (\<forall>a b c t. pidx a \<longrightarrow> pidx b \<longrightarrow> pidx c \<longrightarrow> l0 m r a b = Some t \<longrightarrow> ent m r c \<noteq> Some t) \<and>
     (\<forall>a b t. pidx a \<longrightarrow> pidx b \<longrightarrow> ent m r a = Some t \<longrightarrow> ent m r b = Some t \<longrightarrow> a = b) \<and>
     (\<forall>a b c d t. pidx a \<longrightarrow> pidx b \<longrightarrow> pidx c \<longrightarrow> pidx d \<longrightarrow>
        l0 m r a b = Some t \<longrightarrow> l0 m r c d = Some t \<longrightarrow> a = c \<and> b = d)"

lemma idx_PX [simp]: "pidx (PX l va)"
  by (rule PX_bound)

lemma pt_wf_ram: "pt_wf m r \<Longrightarrow> t \<in> tables m r \<Longrightarrow> ram_page t"
  by (simp add: pt_wf_def)

lemma tables_root [simp]: "r \<in> tables m r"
  by (simp add: tables_def)

lemma tables_l1: "pidx a \<Longrightarrow> ent m r a = Some t \<Longrightarrow> t \<in> tables m r"
  by (auto simp: tables_def)

lemma tables_l0: "pidx a \<Longrightarrow> pidx b \<Longrightarrow> l0 m r a b = Some t \<Longrightarrow> t \<in> tables m r"
  by (auto simp: tables_def)

lemma ent_cong:
  "ram_page t \<Longrightarrow> pidx i \<Longrightarrow> (\<And>x. in_page t x \<Longrightarrow> m' x = m x) \<Longrightarrow> ent m' t i = ent m t i"
  unfolding ent_def using load_entry_cong [of t i m' m] by simp

lemma ent_store:
  "ram_page t \<Longrightarrow> ram_page u \<Longrightarrow> pidx i \<Longrightarrow> pidx j \<Longrightarrow> t \<noteq> u \<or> i \<noteq> j \<Longrightarrow>
    ent (store64 m (t + 8 * i) v) u j = ent m u j"
  unfolding ent_def by (auto simp: load_store_entry)

text \<open>Only the shape matters: two memories with the same tables have the same tree.\<close>

lemma tree_cong:
  assumes "\<And>a. pidx a \<Longrightarrow> ent m' r a = ent m r a"
    and "\<And>a b. pidx a \<Longrightarrow> pidx b \<Longrightarrow> l0 m' r a b = l0 m r a b"
  shows "tables m' r = tables m r" and "pt_wf m' r = pt_wf m r"
proof -
  show t: "tables m' r = tables m r" unfolding tables_def using assms by auto
  show "pt_wf m' r = pt_wf m r" unfolding pt_wf_def t using assms by auto
qed

lemma pt_frame:
  assumes "pt_wf m r" and "\<And>t x. t \<in> tables m r \<Longrightarrow> in_page t x \<Longrightarrow> m' x = m x"
  shows "\<And>a. pidx a \<Longrightarrow> ent m' r a = ent m r a"
    and "\<And>a b. pidx a \<Longrightarrow> pidx b \<Longrightarrow> l0 m' r a b = l0 m r a b"
    and "tables m' r = tables m r" and "pt_wf m' r" and "pte_of m' r va = pte_of m r va"
proof -
  show e: "ent m' r a = ent m r a" if "pidx a" for a
    using that assms(2) [OF tables_root] by (intro ent_cong) (auto intro: pt_wf_ram [OF assms(1)])
  show l: "l0 m' r a b = l0 m r a b" if "pidx a" "pidx b" for a b
  proof (cases "ent m r a")
    case None
    with that show ?thesis by (simp add: l0_def e)
  next
    case (Some t)
    with that have "t \<in> tables m r" by (simp add: tables_l1)
    then have "ent m' t b = ent m t b"
      using that assms by (intro ent_cong) (auto intro: pt_wf_ram)
    with Some that show ?thesis by (simp add: l0_def e)
  qed
  from tree_cong [OF e l] assms(1) show "tables m' r = tables m r" "pt_wf m' r" by auto
  show "pte_of m' r va = pte_of m r va"
  proof (cases "l0 m r (PX 2 va) (PX 1 va)")
    case None
    then show ?thesis by (simp add: pte_of_def l)
  next
    case (Some t)
    have "t \<in> tables m r" using tables_l0 [OF idx_PX idx_PX Some] .
    then have "load64 m' (t + 8 * PX 0 va) = load64 m (t + 8 * PX 0 va)"
      using assms by (intro load_entry_cong) (auto intro: pt_wf_ram)
    with Some show ?thesis by (simp add: pte_of_def l)
  qed
qed

text \<open>The page a virtual address lies in is given by its three indices.\<close>

lemma PX_determines_page:
  assumes "va < MAXVA" "vb < MAXVA" "\<And>l. l \<le> 2 \<Longrightarrow> PX l va = PX l vb"
  shows "PGROUNDDOWN va = PGROUNDDOWN vb"
proof -
  have split: "n div 4096 = n div 2 ^ 12 mod 512 + 512 * (n div 2 ^ 21 mod 512) + 262144 * (n div 2 ^ 30 mod 512)"
    if "n < 2 ^ 38" for n :: nat
  proof -
    define q where "q = n div 4096"
    have e: "n div 4096 = q" "n div 2 ^ 12 = q" "n div 2 ^ 21 = q div 512" "n div 2 ^ 30 = q div 262144"
      by (simp_all add: q_def div_mult2_eq [symmetric])
    have d: "q div 262144 mod 512 = q div 512 div 512"
      using that by (simp add: q_def div_mult2_eq [symmetric] less_mult_imp_div_less)
    have "q = q mod 512 + 512 * (q div 512)" "q div 512 = q div 512 mod 512 + 512 * (q div 512 div 512)"
      by simp_all
    then show ?thesis unfolding e d by linarith
  qed
  have px: "unat va div 2 ^ (12 + 9 * l) mod 512 = unat vb div 2 ^ (12 + 9 * l) mod 512" if "l \<le> 2" for l
    using assms(3) [OF that] unat_PX [of l va] unat_PX [of l vb] by simp
  have "unat va < 2 ^ 38" "unat vb < 2 ^ 38"
    using assms(1,2) by (simp_all add: word_less_nat_alt MAXVA_def)
  from this [THEN split] px [of 0] px [of 1] px [of 2]
  have "unat va div 4096 = unat vb div 4096" by simp
  then show ?thesis by (intro word_eqI_unat) (simp add: unat_PGROUNDDOWN_div)
qed

lemma PX_PGROUNDDOWN: "PX l (PGROUNDDOWN va) = PX l va"
proof (rule word_eqI_unat)
  have "(unat va div 4096 * 4096) div 2 ^ (12 + 9 * l) = unat va div 2 ^ (12 + 9 * l)"
    by (simp add: power_add div_mult2_eq)
  then show "unat (PX l (PGROUNDDOWN va)) = unat (PX l va)"
    by (simp add: unat_PX unat_PGROUNDDOWN_div)
qed

text \<open>Writing a leaf entry changes the translation of that page and nothing else.\<close>

lemma leaf_store:
  fixes v :: u64
  assumes wf: "pt_wf m r" and t: "l0 m r (PX 2 va) (PX 1 va) = Some t" and va: "va < MAXVA"
  defines "m' \<equiv> store64 m (t + 8 * PX 0 va) v"
  shows "pt_wf m' r" and "tables m' r = tables m r"
    and "\<And>a b. pidx a \<Longrightarrow> pidx b \<Longrightarrow> l0 m' r a b = l0 m r a b"
    and "vb < MAXVA \<Longrightarrow>
      pte_of m' r vb = (if PGROUNDDOWN vb = PGROUNDDOWN va then v else pte_of m r vb)"
proof -
  have tt: "t \<in> tables m r" using tables_l0 [OF idx_PX idx_PX t] .
  have rt: "ram_page t" "ram_page r" using wf tt by (auto intro: pt_wf_ram)
  have "t \<noteq> r" using wf t unfolding pt_wf_def by auto
  then have e: "ent m' r a = ent m r a" if "pidx a" for a
    unfolding m'_def using that rt by (intro ent_store) auto
  show l: "l0 m' r a b = l0 m r a b" if ab: "pidx a" "pidx b" for a b
  proof (cases "ent m r a")
    case None
    with ab show ?thesis by (simp add: l0_def e)
  next
    case (Some u)
    then have "u \<noteq> t" using wf t ab unfolding pt_wf_def by (metis idx_PX)
    moreover have "ram_page u" using wf Some ab by (auto intro: pt_wf_ram tables_l1)
    ultimately have "ent m' u b = ent m u b"
      unfolding m'_def using ab rt by (intro ent_store) auto
    with Some ab show ?thesis by (simp add: l0_def e)
  qed
  from tree_cong [OF e l] wf show "pt_wf m' r" "tables m' r = tables m r" by auto
  assume vb: "vb < MAXVA"
  show "pte_of m' r vb = (if PGROUNDDOWN vb = PGROUNDDOWN va then v else pte_of m r vb)"
  proof (cases "PGROUNDDOWN vb = PGROUNDDOWN va")
    case True
    then have "PX k vb = PX k va" for k by (metis PX_PGROUNDDOWN)
    with True l [OF idx_PX idx_PX] t show ?thesis by (simp add: pte_of_def) (simp add: m'_def)
  next
    case False
    then have ne: "PX 2 vb \<noteq> PX 2 va \<or> PX 1 vb \<noteq> PX 1 va \<or> PX 0 vb \<noteq> PX 0 va"
      using PX_determines_page [OF vb va] by (metis One_nat_def le_SucE le_zero_eq numeral_2_eq_2)
    show ?thesis
    proof (cases "l0 m r (PX 2 vb) (PX 1 vb)")
      case None
      with False show ?thesis by (simp add: pte_of_def l)
    next
      case (Some u)
      then have "t \<noteq> u \<or> PX 0 va \<noteq> PX 0 vb" using wf t ne unfolding pt_wf_def by (metis idx_PX)
      moreover have "ram_page u" using pt_wf_ram [OF wf tables_l0 [OF idx_PX idx_PX Some]] .
      ultimately have "load64 m' (u + 8 * PX 0 vb) = load64 m (u + 8 * PX 0 vb)"
        unfolding m'_def using rt by (auto simp: load_store_entry)
      with Some False show ?thesis by (simp add: pte_of_def l)
    qed
  qed
qed

text \<open>
  Linking a fresh zeroed page \<open>n\<close> into entry \<open>c\<close> of table \<open>q\<close>: it adds a table and changes no
  translation.
\<close>

definition links_new :: "(u64 \<Rightarrow> u8) \<Rightarrow> (u64 \<Rightarrow> u8) \<Rightarrow> u64 \<Rightarrow> u64 \<Rightarrow> u64 \<Rightarrow> u64 \<Rightarrow> bool" where
  "links_new m m' r q c n \<longleftrightarrow> pt_wf m r \<and> ram_page n \<and> n \<notin> tables m r \<and> pidx c \<and>
     q \<in> tables m r \<and> ent m q c = None \<and>
     (\<exists>m1. (\<forall>x. m1 x = (if in_page n x then 0 else m x)) \<and> m' = store64 m1 (q + 8 * c) (PA2PTE n OR 1))"

lemma links_newD:
  assumes "links_new m m' r q c n"
  shows "pt_wf m r" "ram_page n" "n \<notin> tables m r" "pidx c" "q \<in> tables m r" "ent m q c = None"
    "ram_page q"
  using assms unfolding links_new_def by (auto intro: pt_wf_ram)

lemma load_new:
  assumes "links_new m m' r q c n" and j: "pidx j"
  shows "u \<in> tables m r \<Longrightarrow>
      load64 m' (u + 8 * j) = (if q = u \<and> c = j then PA2PTE n OR 1 else load64 m (u + 8 * j))"
    and "load64 m' (n + 8 * j) = 0"
proof -
  note d = links_newD [OF assms(1)]
  obtain m1 where m1: "\<And>x. m1 x = (if in_page n x then 0 else m x)"
    and m': "m' = store64 m1 (q + 8 * c) (PA2PTE n OR 1)"
    using assms(1) unfolding links_new_def by blast
  show "load64 m' (u + 8 * j) = (if q = u \<and> c = j then PA2PTE n OR 1 else load64 m (u + 8 * j))"
    if u: "u \<in> tables m r"
  proof -
    have ru: "ram_page u" using d u by (auto intro: pt_wf_ram)
    have "u \<noteq> n" using u d by auto
    then have "load64 m1 (u + 8 * j) = load64 m (u + 8 * j)"
      using ru j d by (intro load_entry_cong) (auto simp: m1 dest: in_page_unique)
    with ru j d show ?thesis by (simp add: m' load_store_entry)
  qed
  have "q \<noteq> n" using d by auto
  then have "load64 m' (n + 8 * j) = load64 m1 (n + 8 * j)"
    using d j by (simp add: m' load_store_entry)
  also have "\<dots> = 0" using d j by (intro load64_zero) (simp add: m1 entry_byte_in_page)
  finally show "load64 m' (n + 8 * j) = 0" .
qed

lemma PTE2PA_ram_page:
  assumes "ram_page pa" and "unat f < 1024"
  shows "PTE2PA (PA2PTE pa OR f) = pa"
  using assms ram_page_bounds [OF assms(1)] by (intro PTE2PA_PA2PTE) (simp_all add: ram_page_def)

lemma ent_new:
  assumes "links_new m m' r q c n" and "pidx j"
  shows "u \<in> tables m r \<Longrightarrow> ent m' u j = (if q = u \<and> c = j then Some n else ent m u j)"
    and "ent m' n j = None"
  using links_newD [OF assms(1)] load_new [OF assms]
  by (auto simp: ent_def PTE_V_set PTE2PA_ram_page)

lemma outside_new:
  assumes "links_new m m' r q c n" and "\<And>u. u \<in> insert n (tables m r) \<Longrightarrow> \<not> in_page u x"
  shows "m' x = m x"
  using assms(1) unfolding links_new_def
  by (elim conjE exE) (simp add: store_entry_outside pt_wf_ram assms(2))

lemma pt_wfD:
  assumes "pt_wf m r"
  shows "\<And>a. pidx a \<Longrightarrow> ent m r a \<noteq> Some r" and "\<And>a b. pidx a \<Longrightarrow> pidx b \<Longrightarrow> l0 m r a b \<noteq> Some r"
    and "\<And>a b c t. pidx a \<Longrightarrow> pidx b \<Longrightarrow> pidx c \<Longrightarrow> l0 m r a b = Some t \<Longrightarrow> ent m r c \<noteq> Some t"
    and "\<And>a b t. pidx a \<Longrightarrow> pidx b \<Longrightarrow> ent m r a = Some t \<Longrightarrow> ent m r b = Some t \<Longrightarrow> a = b"
    and "\<And>a b c d t. pidx a \<Longrightarrow> pidx b \<Longrightarrow> pidx c \<Longrightarrow> pidx d \<Longrightarrow>
        l0 m r a b = Some t \<Longrightarrow> l0 m r c d = Some t \<Longrightarrow> a = c \<and> b = d"
proof -
  note w = assms [unfolded pt_wf_def, THEN conjunct2]
  note w1 = w [THEN conjunct1, rule_format]
  note w2 = w [THEN conjunct2, THEN conjunct1, rule_format]
  note w3 = w [THEN conjunct2, THEN conjunct2, THEN conjunct1, rule_format]
  note w4 = w [THEN conjunct2, THEN conjunct2, THEN conjunct2, THEN conjunct1, rule_format]
  note w5 = w [THEN conjunct2, THEN conjunct2, THEN conjunct2, THEN conjunct2, rule_format]
  show "\<And>a. pidx a \<Longrightarrow> ent m r a \<noteq> Some r" by (rule w1)
  show "\<And>a b. pidx a \<Longrightarrow> pidx b \<Longrightarrow> l0 m r a b \<noteq> Some r" by (rule w2)
  show "\<And>a b c t. pidx a \<Longrightarrow> pidx b \<Longrightarrow> pidx c \<Longrightarrow> l0 m r a b = Some t \<Longrightarrow> ent m r c \<noteq> Some t"
    by (rule w3)
  show "\<And>a b t. pidx a \<Longrightarrow> pidx b \<Longrightarrow> ent m r a = Some t \<Longrightarrow> ent m r b = Some t \<Longrightarrow> a = b"
    by (rule w4)
  show "\<And>a b c d t. pidx a \<Longrightarrow> pidx b \<Longrightarrow> pidx c \<Longrightarrow> pidx d \<Longrightarrow>
      l0 m r a b = Some t \<Longrightarrow> l0 m r c d = Some t \<Longrightarrow> a = c \<and> b = d"
    by (rule w5)
qed

lemma new_l1_table:
  assumes "links_new m m' r r a n"
  shows "pt_wf m' r" and "tables m' r = insert n (tables m r)"
    and "ent m' r a = Some n" and "pte_of m' r va = pte_of m r va"
proof -
  note d = links_newD [OF assms] and w = pt_wfD [OF links_newD(1) [OF assms]] and e = ent_new [OF assms]
  have er: "ent m' r i = (if i = a then Some n else ent m r i)" if "pidx i" for i
    using that by (auto simp: e)
  show "ent m' r a = Some n" using d by (simp add: er)
  have l: "l0 m' r i j = l0 m r i j" if ij: "pidx i" "pidx j" for i j
  proof (cases "i = a \<or> ent m r i = None")
    case True
    with ij d show ?thesis by (auto simp: l0_def er e)
  next
    case False
    then obtain t where t: "ent m r i = Some t" by auto
    then have "t \<in> tables m r" "t \<noteq> r" using ij w(1) by (auto intro: tables_l1)
    with False t ij show ?thesis by (auto simp: l0_def er e)
  qed
  show tb: "tables m' r = insert n (tables m r)"
  proof -
    have "(\<exists>i. pidx i \<and> ent m' r i = Some t) \<longleftrightarrow> t = n \<or> (\<exists>i. pidx i \<and> ent m r i = Some t)" for t
    proof
      assume "t = n \<or> (\<exists>i. pidx i \<and> ent m r i = Some t)"
      then show "\<exists>i. pidx i \<and> ent m' r i = Some t"
      proof (elim disjE exE conjE)
        fix i assume "pidx i" "ent m r i = Some t"
        then show ?thesis using d(6) by (intro exI [of _ i]) (auto simp: er)
      qed (use d(4) in \<open>auto simp: er\<close>)
    qed (auto simp: er split: if_splits)
    then show ?thesis unfolding tables_def using l by auto
  qed
  have nn: "n \<noteq> r" "\<And>i. pidx i \<Longrightarrow> ent m r i \<noteq> Some n" "\<And>i j. pidx i \<Longrightarrow> pidx j \<Longrightarrow> l0 m r i j \<noteq> Some n"
    using d by (auto dest: tables_l1 tables_l0)
  show "pt_wf m' r"
    unfolding pt_wf_def tb
  proof (intro conjI allI ballI impI notI)
    fix i k t assume "pidx i" "pidx k" "ent m' r i = Some t" "ent m' r k = Some t"
    then show "i = k" using w(4) [of i k t] nn by (auto simp: er split: if_splits)
  next
    fix i j k t assume "pidx i" "pidx j" "pidx k" "l0 m' r i j = Some t" "ent m' r k = Some t"
    then show False using w(3) [of i j k t] nn by (auto simp: er l split: if_splits)
  next
    fix i j k h t assume "pidx i" "pidx j" "pidx k" "pidx h" "l0 m' r i j = Some t" "l0 m' r k h = Some t"
    then show "i = k" "j = h" using w(5) [of i j k h t] nn by (auto simp: l split: if_splits)
  next
    fix t assume "t \<in> insert n (tables m r)"
    then show "ram_page t" using d by (auto intro: pt_wf_ram)
  qed (use w(1,2) nn in \<open>auto simp: er l split: if_splits\<close>)
  show "pte_of m' r va = pte_of m r va"
  proof (cases "l0 m r (PX 2 va) (PX 1 va)")
    case None
    then show ?thesis by (simp add: pte_of_def l)
  next
    case (Some t)
    then have "t \<in> tables m r" "t \<noteq> r"
      using tables_l0 [OF idx_PX idx_PX Some] w(2) [OF idx_PX idx_PX] by auto
    with Some show ?thesis by (simp add: pte_of_def l load_new [OF assms])
  qed
qed

lemma new_l0_table:
  assumes "links_new m m' r q b n" and a: "pidx a" "ent m r a = Some q"
  shows "pt_wf m' r" and "tables m' r = insert n (tables m r)"
    and "l0 m' r a b = Some n" and "pte_of m' r va = pte_of m r va"
proof -
  note d = links_newD [OF assms(1)] and w = pt_wfD [OF links_newD(1) [OF assms(1)]] and e = ent_new [OF assms(1)]
  have qr: "q \<noteq> r" using w(1) a by auto
  have er: "ent m' r i = ent m r i" if "pidx i" for i
    using that qr by (auto simp: e)
  have l: "l0 m' r i j = (if i = a \<and> j = b then Some n else l0 m r i j)" if ij: "pidx i" "pidx j" for i j
  proof (cases "ent m r i")
    case None
    with ij a d show ?thesis by (auto simp: l0_def er e)
  next
    case (Some t)
    then have "t \<in> tables m r" "t = q \<longleftrightarrow> i = a"
      using ij a w(4) [of i a q] by (auto intro: tables_l1)
    moreover have "ent m' t j = (if q = t \<and> b = j then Some n else ent m t j)"
      using calculation(1) ij by (simp add: e)
    moreover have "l0 m r i j = ent m t j" "l0 m' r i j = ent m' t j"
      using Some ij by (simp_all add: l0_def er)
    ultimately show ?thesis by (auto simp only: split: if_split)
  qed
  then show "l0 m' r a b = Some n" using a d by simp
  have none: "l0 m r a b = None" using a d by (simp add: l0_def)
  show tb: "tables m' r = insert n (tables m r)"
  proof -
    have "(\<exists>i j. pidx i \<and> pidx j \<and> l0 m' r i j = Some t) \<longleftrightarrow>
        t = n \<or> (\<exists>i j. pidx i \<and> pidx j \<and> l0 m r i j = Some t)" for t
    proof
      assume "t = n \<or> (\<exists>i j. pidx i \<and> pidx j \<and> l0 m r i j = Some t)"
      then show "\<exists>i j. pidx i \<and> pidx j \<and> l0 m' r i j = Some t"
      proof (elim disjE exE conjE)
        fix i j assume "pidx i" "pidx j" "l0 m r i j = Some t"
        then show ?thesis using none by (intro exI [of _ i] exI [of _ j]) (auto simp: l)
      next
        assume "t = n"
        then show ?thesis using d(4) a(1) by (intro exI [of _ a] exI [of _ b]) (auto simp: l)
      qed
    qed (auto simp: l split: if_splits)
    then show ?thesis unfolding tables_def using er by auto
  qed
  have nn: "n \<noteq> r" "\<And>i. pidx i \<Longrightarrow> ent m r i \<noteq> Some n" "\<And>i j. pidx i \<Longrightarrow> pidx j \<Longrightarrow> l0 m r i j \<noteq> Some n"
    using d by (auto dest: tables_l1 tables_l0)
  show "pt_wf m' r"
    unfolding pt_wf_def tb
  proof (intro conjI allI ballI impI notI)
    fix i k t assume "pidx i" "pidx k" "ent m' r i = Some t" "ent m' r k = Some t"
    then show "i = k" using w(4) [of i k t] nn by (auto simp: er split: if_splits)
  next
    fix i j k t assume "pidx i" "pidx j" "pidx k" "l0 m' r i j = Some t" "ent m' r k = Some t"
    then show False using w(3) [of i j k t] nn by (auto simp: er l split: if_splits)
  next
    fix i j k h t assume "pidx i" "pidx j" "pidx k" "pidx h" "l0 m' r i j = Some t" "l0 m' r k h = Some t"
    then show "i = k" "j = h" using w(5) [of i j k h t] nn by (auto simp: l split: if_splits)
  next
    fix t assume "t \<in> insert n (tables m r)"
    then show "ram_page t" using d by (auto intro: pt_wf_ram)
  qed (use w(1,2) nn in \<open>auto simp: er l split: if_splits\<close>)
  show "pte_of m' r va = pte_of m r va"
  proof (cases "l0 m' r (PX 2 va) (PX 1 va)")
    case None
    then show ?thesis using l [of "PX 2 va" "PX 1 va"] by (auto simp: pte_of_def split: if_splits)
  next
    case (Some t)
    show ?thesis
    proof (cases "PX 2 va = a \<and> PX 1 va = b")
      case True
      with none l show ?thesis by (auto simp: pte_of_def load_new [OF assms(1)])
    next
      case False
      with Some l have t: "l0 m r (PX 2 va) (PX 1 va) = Some t" by (auto split: if_splits)
      then have "t \<in> tables m r" "t \<noteq> q"
        using tables_l0 [OF idx_PX idx_PX t] w(3) [OF idx_PX idx_PX a(1) t] a by auto
      with Some t show ?thesis by (simp add: pte_of_def load_new [OF assms(1)])
    qed
  qed
qed

section \<open>What walk returns\<close>

text \<open>
  \<open>pt_inv s r xs\<close>: the tree at \<open>r\<close> is well formed, the free list is \<open>xs\<close>, no free page is a
  table of the tree, and the allocator's lock is free. \<open>pt_grow s r zs t ys\<close>: \<open>t\<close> differs from \<open>s\<close>
  in the tables of the tree, which took the pages \<open>zs\<close> from the free list and left \<open>ys\<close>;
  \<open>pt_ext s r zs t ys\<close>: moreover every translation is kept.
\<close>

definition pt_inv :: "'z kmem_scheme \<Rightarrow> u64 \<Rightarrow> nat list \<Rightarrow> bool" where
  "pt_inv s r xs \<longleftrightarrow> pt_wf (mem s) r \<and> free_list s xs \<and>
     (\<forall>i \<in> set xs. page_addr i \<notin> tables (mem s) r) \<and> kmem_lock \<notin> set (locks s)"

definition kmem_frame :: "'z kmem_scheme \<Rightarrow> 'z kmem_scheme \<Rightarrow> bool" where
  "kmem_frame s t \<longleftrightarrow> t = s\<lparr>mem := mem t, freelist := freelist t, runs := runs t\<rparr>"

definition pt_grow :: "'z kmem_scheme \<Rightarrow> u64 \<Rightarrow> nat list \<Rightarrow> 'z kmem_scheme \<Rightarrow> nat list \<Rightarrow> bool" where
  "pt_grow s r zs t ys \<longleftrightarrow> pt_inv t r ys \<and> kmem_frame s t \<and>
     tables (mem t) r = page_addr ` set zs \<union> tables (mem s) r \<and>
     (\<forall>x. (\<forall>u \<in> tables (mem t) r. \<not> in_page u x) \<longrightarrow> mem t x = mem s x) \<and>
     (\<forall>i. i \<notin> set zs \<longrightarrow> run_ref (runs t i) = run_ref (runs s i))"

definition pt_ext :: "'z kmem_scheme \<Rightarrow> u64 \<Rightarrow> nat list \<Rightarrow> 'z kmem_scheme \<Rightarrow> nat list \<Rightarrow> bool" where
  "pt_ext s r zs t ys \<longleftrightarrow> pt_grow s r zs t ys \<and> (\<forall>va. pte_of (mem t) r va = pte_of (mem s) r va)"

lemma kmem_frame_refl: "kmem_frame s s"
  by (simp add: kmem_frame_def)

lemma kmem_frame_trans:
  fixes s t u :: "'z kmem_scheme"
  shows "kmem_frame s t \<Longrightarrow> kmem_frame t u \<Longrightarrow> kmem_frame s u"
  unfolding kmem_frame_def by (cases s, cases t, cases u) simp

lemma kmem_frameD:
  assumes "kmem_frame s t"
  shows "locks t = locks s" and "kernel_end t = kernel_end s"
  using arg_cong [OF assms [unfolded kmem_frame_def], of locks]
    arg_cong [OF assms [unfolded kmem_frame_def], of kernel_end] by simp_all

lemma pt_growD:
  assumes "pt_grow s r zs t ys"
  shows "pt_inv t r ys" "kmem_frame s t" "tables (mem t) r = page_addr ` set zs \<union> tables (mem s) r"
    "(\<And>u. u \<in> tables (mem t) r \<Longrightarrow> \<not> in_page u x) \<Longrightarrow> mem t x = mem s x"
    "i \<notin> set zs \<Longrightarrow> run_ref (runs t i) = run_ref (runs s i)"
  using assms by (simp_all add: pt_grow_def)

lemma pt_grow_refl: "pt_inv s r xs \<Longrightarrow> pt_grow s r [] s xs"
  by (simp add: pt_grow_def kmem_frame_refl)

lemma pt_grow_trans:
  assumes s: "pt_grow s r us t (vs @ ys)" and t: "pt_grow t r vs u ys"
  shows "pt_grow s r (us @ vs) u ys"
proof -
  note tb = pt_growD(3) [OF s] pt_growD(3) [OF t]
  show ?thesis
    unfolding pt_grow_def
  proof (intro conjI allI impI)
    show "pt_inv u r ys" by (rule pt_growD(1) [OF t])
    show "kmem_frame s u" using pt_growD(2) [OF s] pt_growD(2) [OF t] by (rule kmem_frame_trans)
    show "tables (mem u) r = page_addr ` set (us @ vs) \<union> tables (mem s) r" using tb by auto
    fix x assume x: "\<forall>w \<in> tables (mem u) r. \<not> in_page w x"
    then have "\<forall>w \<in> tables (mem t) r. \<not> in_page w x" using tb by auto
    with x pt_growD(4) [OF s] pt_growD(4) [OF t] show "mem u x = mem s x" by simp
  next
    fix i assume "i \<notin> set (us @ vs)"
    then show "run_ref (runs u i) = run_ref (runs s i)"
      using pt_growD(5) [OF s] pt_growD(5) [OF t] by simp
  qed
qed

lemma pt_ext_refl: "pt_inv s r xs \<Longrightarrow> pt_ext s r [] s xs"
  by (simp add: pt_ext_def pt_grow_refl)

lemma pt_ext_trans:
  "pt_ext s r us t (vs @ ys) \<Longrightarrow> pt_ext t r vs u ys \<Longrightarrow> pt_ext s r (us @ vs) u ys"
  unfolding pt_ext_def using pt_grow_trans by (metis (full_types))

text \<open>Without allocation \<open>walk\<close> is a pure lookup.\<close>

lemma kload64_entry:
  "ram_page t \<Longrightarrow> pidx i \<Longrightarrow> kload64 (t + 8 * i) s = Ok (load64 (mem s) (t + 8 * i)) s"
  by (simp add: kload64_def entry_mapped)

lemma kstore64_entry:
  "ram_page t \<Longrightarrow> pidx i \<Longrightarrow> kstore64 (t + 8 * i) v s = Ok () (s\<lparr>mem := store64 (mem s) (t + 8 * i) v\<rparr>)"
  by (simp add: kstore64_def entry_mapped)

lemma walk_step_lookup:
  assumes "ram_page q" and "ent (mem s) q (PX l va) \<noteq> None \<or> \<not> alloc"
  shows "walk_step q va l alloc s = Ok (ent (mem s) q (PX l va)) s"
  using assms by (auto simp: walk_step_def ent_def kload64_entry Let_def)

lemma walk_lookup:
  assumes wf: "pt_wf (mem s) r" and va: "va < MAXVA"
  shows "walk r va False s = Ok (slot_of (mem s) r va) s"
proof -
  have r: "ram_page r" using wf by (auto intro: pt_wf_ram)
  show ?thesis
  proof (cases "ent (mem s) r (PX 2 va)")
    case None
    with r va show ?thesis
      by (simp add: walk_def numeral_2_eq_2 slot_of_def l0_def walk_step_lookup)
  next
    case (Some q)
    then have "ram_page q" using wf by (auto intro: pt_wf_ram tables_l1 [OF idx_PX])
    with r va Some show ?thesis
      by (cases "ent (mem s) q (PX 1 va)")
        (simp_all add: walk_def numeral_2_eq_2 slot_of_def l0_def walk_step_lookup)
  qed
qed

lemma slot_of_zero:
  assumes "pt_wf m r"
  shows "slot_of m r va = 0 \<longleftrightarrow> l0 m r (PX 2 va) (PX 1 va) = None"
  using entry_nonzero [OF pt_wf_ram [OF assms tables_l0 [OF idx_PX idx_PX]] idx_PX]
  by (auto simp: slot_of_def split: option.splits)

text \<open>With allocation, one level takes at most one free page.\<close>

lemma walk_step_links:
  assumes inv: "pt_inv s r (i # xs)" and q: "q \<in> tables (mem s) r"
    and none: "ent (mem s) q (PX l va) = None"
  shows "\<exists>t. walk_step q va l True s = Ok (Some (page_addr i)) t \<and>
     links_new (mem s) (mem t) r q (PX l va) (page_addr i) \<and> kmem_frame s t \<and> free_list t xs \<and>
     (\<forall>j. j \<noteq> i \<longrightarrow> run_ref (runs t j) = run_ref (runs s j))"
proof -
  let ?n = "page_addr i"
  let ?u = "(after_kalloc i s)\<lparr>mem := memset (mem (after_kalloc i s)) ?n 0 4096\<rparr>"
  let ?t = "?u\<lparr>mem := store64 (mem ?u) (q + 8 * PX l va) (PA2PTE ?n OR PTE_V)\<rparr>"
  from inv have fl: "freelist s = Some i" "page_ix s i" "kernel_above_base s" "kmem_lock \<notin> set (locks s)"
    by (auto simp: pt_inv_def free_list_def)
  have rn: "ram_page ?n" using fl by (auto intro: ram_page_page_addr)
  have rq: "ram_page q" using inv q by (auto simp: pt_inv_def intro: pt_wf_ram)
  have "walk_step q va l True s = Ok (Some ?n) ?t"
    using none rq rn
    by (simp add: walk_step_def ent_def Let_def kload64_entry kalloc_run [OF fl] ram_page_nonzero kmemset_def
        page_mapped kstore64_entry split: if_splits)
  moreover have "links_new (mem s) (mem ?t) r q (PX l va) ?n"
    using inv q none rn unfolding links_new_def pt_inv_def
    by (auto simp: memset_page after_kalloc_def intro!: exI [of _ "mem ?u"])
  moreover have "kmem_frame s ?t" by (simp add: kmem_frame_def after_kalloc_def)
  moreover have "free_list ?t xs" 
    using free_list_after_kalloc [of s i xs] inv by (simp add: pt_inv_def free_list_def page_ix_def kernel_above_base_def)
  moreover have "\<forall>j. j \<noteq> i \<longrightarrow> run_ref (runs ?t j) = run_ref (runs s j)" by simp
  ultimately show ?thesis by blast
qed

lemma links_ext:
  assumes inv: "pt_inv s r (i # xs)" and new: "links_new (mem s) (mem t) r q c (page_addr i)"
    and fr: "kmem_frame s t" "free_list t xs" "\<forall>j. j \<noteq> i \<longrightarrow> run_ref (runs t j) = run_ref (runs s j)"
    and tb: "tables (mem t) r = insert (page_addr i) (tables (mem s) r)"
    and wf: "pt_wf (mem t) r" and pte: "\<And>va. pte_of (mem t) r va = pte_of (mem s) r va"
  shows "pt_ext s r [i] t xs"
proof -
  from inv have ix: "\<forall>j \<in> set (i # xs). page_ix s j" "i \<notin> set xs"
    by (auto simp: pt_inv_def free_list_def dest: free_list_distinct) 
      (metis distinct.simps(2) free_list_def free_list_distinct inv pt_inv_def)
  have "page_addr j \<noteq> page_addr i" if "j \<in> set xs" for j
    using page_addr_inj [of s j i] ix that by auto
  then have "pt_inv t r xs"
    using inv wf fr tb kmem_frameD(1) [OF fr(1)] by (auto simp: pt_inv_def)
  moreover have "mem t x = mem s x" if "\<forall>u \<in> tables (mem t) r. \<not> in_page u x" for x
    using that tb by (intro outside_new [OF new]) auto
  ultimately show ?thesis using fr tb pte by (simp add: pt_ext_def pt_grow_def)
qed

lemma walk_top:
  assumes inv: "pt_inv s r xs" and "xs \<noteq> []"
  shows "\<exists>zs ys t q. xs = zs @ ys \<and> length zs \<le> 1 \<and> pt_ext s r zs t ys \<and>
     ent (mem t) r (PX 2 va) = Some q \<and> walk_step r va 2 True s = Ok (Some q) t"
proof (cases "ent (mem s) r (PX 2 va)")
  case (Some q)
  moreover have "ram_page r" using inv by (auto simp: pt_inv_def intro: pt_wf_ram)
  ultimately have "walk_step r va 2 True s = Ok (Some q) s" by (simp add: walk_step_lookup)
  with Some pt_ext_refl [OF inv] show ?thesis by force
next
  case None
  from \<open>xs \<noteq> []\<close> obtain i ys where xs: "xs = i # ys" by (cases xs) auto
  with None inv walk_step_links [of s r i ys r 2 va] obtain t where
    t: "walk_step r va 2 True s = Ok (Some (page_addr i)) t"
      "links_new (mem s) (mem t) r r (PX 2 va) (page_addr i)" "kmem_frame s t" "free_list t ys"
      "\<forall>j. j \<noteq> i \<longrightarrow> run_ref (runs t j) = run_ref (runs s j)" by auto
  note n = new_l1_table [OF t(2)]
  have "pt_ext s r [i] t ys"
    using inv xs t n by (intro links_ext) auto
  with t(1) n(3) xs show ?thesis by (intro exI [of _ "[i]"] exI [of _ ys]) auto
qed

lemma walk_mid:
  assumes inv: "pt_inv s r xs" and "xs \<noteq> []" and q: "ent (mem s) r (PX 2 va) = Some q"
  shows "\<exists>zs ys t u. xs = zs @ ys \<and> length zs \<le> 1 \<and> pt_ext s r zs t ys \<and>
     l0 (mem t) r (PX 2 va) (PX 1 va) = Some u \<and> walk_step q va 1 True s = Ok (Some u) t"
proof (cases "ent (mem s) q (PX 1 va)")
  case (Some u)
  moreover have "ram_page q" using inv q
    by (auto simp: pt_inv_def intro: pt_wf_ram tables_l1 [OF idx_PX])
  ultimately have "walk_step q va 1 True s = Ok (Some u) s" by (simp add: walk_step_lookup)
  with q Some pt_ext_refl [OF inv] show ?thesis by (force simp: l0_def)
next
  case None
  have qt: "q \<in> tables (mem s) r" using q by (auto intro: tables_l1 [OF idx_PX])
  from \<open>xs \<noteq> []\<close> obtain i ys where xs: "xs = i # ys" by (cases xs) auto
  with None inv qt walk_step_links [of s r i ys q 1 va] obtain t where
    t: "walk_step q va 1 True s = Ok (Some (page_addr i)) t"
      "links_new (mem s) (mem t) r q (PX 1 va) (page_addr i)" "kmem_frame s t" "free_list t ys"
      "\<forall>j. j \<noteq> i \<longrightarrow> run_ref (runs t j) = run_ref (runs s j)" by auto
  note n = new_l0_table [OF t(2) idx_PX q]
  have "pt_ext s r [i] t ys"
    using inv xs t n by (intro links_ext) auto
  with t(1) n(3) xs show ?thesis by (intro exI [of _ "[i]"] exI [of _ ys]) auto
qed

lemma pt_extD:
  assumes "pt_ext s r zs t ys"
  shows "pt_inv t r ys" "pt_grow s r zs t ys" "pte_of (mem t) r va = pte_of (mem s) r va"
  using assms by (simp_all add: pt_ext_def pt_grow_def)

lemma walk_alloc:
  assumes inv: "pt_inv s r xs" and len: "2 \<le> length xs" and va: "va < MAXVA"
  shows "\<exists>zs ys t u. xs = zs @ ys \<and> length zs \<le> 2 \<and> pt_ext s r zs t ys \<and>
     l0 (mem t) r (PX 2 va) (PX 1 va) = Some u \<and> walk r va True s = Ok (u + 8 * PX 0 va) t"
proof -
  from len have "xs \<noteq> []" by auto
  from walk_top [OF inv this, of va] obtain zs ys t q where
    1: "xs = zs @ ys" "length zs \<le> 1" "pt_ext s r zs t ys" "ent (mem t) r (PX 2 va) = Some q"
      "walk_step r va 2 True s = Ok (Some q) t" by blast
  with len have "ys \<noteq> []" by auto
  from walk_mid [OF pt_extD(1) [OF 1(3)] this 1(4)] obtain vs ws u v where
    2: "ys = vs @ ws" "length vs \<le> 1" "pt_ext t r vs u ws"
      "l0 (mem u) r (PX 2 va) (PX 1 va) = Some v" "walk_step q va 1 True t = Ok (Some v) u" by blast
  have "pt_ext s r (zs @ vs) u ws" using pt_ext_trans [OF _ 2(3)] 1(3) 2(1) by simp
  moreover have "walk r va True s = Ok (v + 8 * PX 0 va) u"
    using 1(5) 2(5) va by (simp add: walk_def numeral_2_eq_2)
  ultimately show ?thesis
    using 1 2 by (intro exI [of _ "zs @ vs"] exI [of _ ws] exI [of _ u] exI [of _ v]) auto
qed

section \<open>Mapping pages\<close>

lemma leaf_store_grow:
  fixes v :: u64
  assumes inv: "pt_inv s r xs" and u: "l0 (mem s) r (PX 2 va) (PX 1 va) = Some u" and va: "va < MAXVA"
  defines "t \<equiv> s\<lparr>mem := store64 (mem s) (u + 8 * PX 0 va) v\<rparr>"
  shows "pt_grow s r [] t xs"
    and "vb < MAXVA \<Longrightarrow> pte_of (mem t) r vb = (if PGROUNDDOWN vb = PGROUNDDOWN va then v else pte_of (mem s) r vb)"
proof -
  have wf: "pt_wf (mem s) r" using inv by (simp add: pt_inv_def)
  note l = leaf_store [OF wf u va, where v = v]
  have ut: "u \<in> tables (mem s) r" "ram_page u"
    using tables_l0 [OF idx_PX idx_PX u] pt_wf_ram [OF wf] by auto
  then show "pt_grow s r [] t xs"
    using inv l by (auto simp: pt_grow_def pt_inv_def kmem_frame_def t_def free_list_def page_ix_def
        kernel_above_base_def store_entry_outside)
  show "vb < MAXVA \<Longrightarrow> pte_of (mem t) r vb = (if PGROUNDDOWN vb = PGROUNDDOWN va then v else pte_of (mem s) r vb)"
    using l(4) [of vb] by (simp add: t_def)
qed

lemma map_one_page:
  assumes inv: "pt_inv s r xs" and len: "2 \<le> length xs" and va: "va < MAXVA"
    and free: "pte_of (mem s) r va AND PTE_V = 0"
  shows "\<exists>zs ys u. xs = zs @ ys \<and> length zs \<le> 2 \<and> pt_grow s r zs u ys \<and>
     (\<forall>vb < MAXVA. pte_of (mem u) r vb = (if PGROUNDDOWN vb = PGROUNDDOWN va then e else pte_of (mem s) r vb)) \<and>
     (\<exists>t p. walk r va True s = Ok p t \<and> p \<noteq> 0 \<and> kload64 p t = Ok (pte_of (mem s) r va) t \<and> kstore64 p e t = Ok () u)"
proof -
  from walk_alloc [OF inv len va] obtain zs ys t w where
    w: "xs = zs @ ys" "length zs \<le> 2" "pt_ext s r zs t ys"
      "l0 (mem t) r (PX 2 va) (PX 1 va) = Some w" "walk r va True s = Ok (w + 8 * PX 0 va) t" by blast
  note e = pt_extD [OF w(3)]
  note l = leaf_store_grow [OF e(1) w(4) va, where v = e]
  have "ram_page w"
    using e(1) tables_l0 [OF idx_PX idx_PX w(4)] by (auto simp: pt_inv_def intro: pt_wf_ram)
  moreover have "pte_of (mem s) r va = load64 (mem t) (w + 8 * PX 0 va)"
    using e(3) [of va] w(4) by (simp add: pte_of_def)
  ultimately have "kload64 (w + 8 * PX 0 va) t = Ok (pte_of (mem s) r va) t"
    "kstore64 (w + 8 * PX 0 va) e t = Ok () (t\<lparr>mem := store64 (mem t) (w + 8 * PX 0 va) e\<rparr>)"
    "w + 8 * PX 0 va \<noteq> 0"
    by (simp_all add: kload64_entry kstore64_entry entry_nonzero)
  moreover have "pt_grow s r zs (t\<lparr>mem := store64 (mem t) (w + 8 * PX 0 va) e\<rparr>) ys"
    using pt_grow_trans [of s r zs t "[]" ys] e(2) l(1) by simp
  moreover have "\<forall>vb < MAXVA. pte_of (mem (t\<lparr>mem := store64 (mem t) (w + 8 * PX 0 va) e\<rparr>)) r vb =
      (if PGROUNDDOWN vb = PGROUNDDOWN va then e else pte_of (mem s) r vb)"
    using l(2) e(3) by metis
  ultimately show ?thesis using w(1,2,5) by blast
qed

lemma PGROUNDDOWN_eq_iff:
  assumes "page_aligned a"
  shows "PGROUNDDOWN vb = a \<longleftrightarrow> unat a \<le> unat vb \<and> unat vb < unat a + 4096"
proof -
  from assms obtain k where k: "unat a = 4096 * k" by (auto simp: page_aligned_def elim: dvdE)
  have "PGROUNDDOWN vb = a \<longleftrightarrow> unat vb div 4096 * 4096 = unat a"
    by (auto simp: unat_PGROUNDDOWN_div [symmetric] intro: word_eqI_unat)
  also have "\<dots> \<longleftrightarrow> unat vb div 4096 = k" unfolding k by auto
  also have "\<dots> \<longleftrightarrow> unat a \<le> unat vb \<and> unat vb < unat a + 4096"
    unfolding k using div_mult_mod_eq [of "unat vb" 4096] by (auto intro: div_nat_eqI)
  finally show ?thesis .
qed

lemma page_step:
  assumes "page_aligned a" and "unat a + 4096 < 2 ^ 64"
  shows "unat (a + 4096) = unat a + 4096" and "page_aligned (a + 4096)"
proof -
  show u: "unat (a + 4096) = unat a + 4096" using assms(2) by (simp add: unat_plus_if')
  show "page_aligned (a + 4096)" using assms(1) unfolding page_aligned_def u by simp
qed

lemma mappages_pages:
  assumes "pt_inv s r xs" and "page_aligned a" and "unat a + 4096 * n + 4096 \<le> 2 ^ 38"
    and "2 * n + 2 \<le> length xs"
    and "\<And>vb. unat a \<le> unat vb \<Longrightarrow> unat vb < unat a + 4096 * n + 4096 \<Longrightarrow> pte_of (mem s) r vb AND PTE_V = 0"
  shows "\<exists>zs ys t. mappages_loop r a (a + of_nat (4096 * n)) pa perm s = Ok 0 t \<and> xs = zs @ ys \<and>
     length zs \<le> 2 * n + 2 \<and> pt_grow s r zs t ys \<and>
     (\<forall>vb < MAXVA. pte_of (mem t) r vb =
        (if unat a \<le> unat vb \<and> unat vb < unat a + 4096 * n + 4096
         then PA2PTE (pa + (PGROUNDDOWN vb - a)) OR perm OR PTE_V else pte_of (mem s) r vb))"
  using assms
proof (induction n arbitrary: s xs a pa)
  case 0
  let ?e = "PA2PTE pa OR perm OR PTE_V"
  from 0 have va: "a < MAXVA" by (simp add: word_less_nat_alt MAXVA_def)
  have len: "2 \<le> length xs" using 0 by simp
  have free: "pte_of (mem s) r a AND PTE_V = 0" using 0(5) [of a] by simp
  from map_one_page [OF 0(1) len va free, of ?e] obtain zs ys u t p where
    m: "xs = zs @ ys" "length zs \<le> 2" "pt_grow s r zs u ys"
      "\<forall>vb < MAXVA. pte_of (mem u) r vb = (if PGROUNDDOWN vb = PGROUNDDOWN a then ?e else pte_of (mem s) r vb)"
      "walk r a True s = Ok p t" "p \<noteq> 0" "kload64 p t = Ok (pte_of (mem s) r a) t" "kstore64 p ?e t = Ok () u"
    by blast
  have "mappages_loop r a (a + of_nat (4096 * 0)) pa perm s = Ok 0 u"
    using m(5-8) free by (subst mappages_loop.simps) simp
  moreover have "pte_of (mem u) r vb = (if unat a \<le> unat vb \<and> unat vb < unat a + 4096 * 0 + 4096
      then PA2PTE (pa + (PGROUNDDOWN vb - a)) OR perm OR PTE_V else pte_of (mem s) r vb)" if "vb < MAXVA" for vb
    using that m(4) PGROUNDDOWN_aligned [OF 0(2)] PGROUNDDOWN_eq_iff [OF 0(2), of vb] by auto
  ultimately show ?case
    using m(1-3) by - (rule exI [of _ zs], rule exI [of _ ys], rule exI [of _ u], simp)
next
  case (Suc n)
  let ?e = "PA2PTE pa OR perm OR PTE_V"
  let ?lst = "a + of_nat (4096 * Suc n)"
  have small: "unat a + 4096 < 2 ^ 64" using Suc.prems(3) by simp
  note a' = page_step [OF Suc.prems(2) small]
  from Suc.prems have va: "a < MAXVA" by (simp add: word_less_nat_alt MAXVA_def)
  have len: "2 \<le> length xs" using Suc.prems by simp
  have free: "pte_of (mem s) r a AND PTE_V = 0" using Suc.prems(5) [of a] by simp
  from map_one_page [OF Suc.prems(1) len va free, of ?e] obtain zs ys u t p where
    m: "xs = zs @ ys" "length zs \<le> 2" "pt_grow s r zs u ys"
      "\<forall>vb < MAXVA. pte_of (mem u) r vb = (if PGROUNDDOWN vb = PGROUNDDOWN a then ?e else pte_of (mem s) r vb)"
      "walk r a True s = Ok p t" "p \<noteq> 0" "kload64 p t = Ok (pte_of (mem s) r a) t" "kstore64 p ?e t = Ok () u"
    by blast
  have ga: "PGROUNDDOWN a = a" using Suc.prems(2) by (simp add: PGROUNDDOWN_aligned)
  have pu: "pte_of (mem u) r vb = (if unat a \<le> unat vb \<and> unat vb < unat a + 4096 then ?e else pte_of (mem s) r vb)"
    if "vb < MAXVA" for vb
    using that m(4) ga PGROUNDDOWN_eq_iff [OF Suc.prems(2)] by simp
  have ne: "a \<noteq> ?lst" and lst: "?lst = (a + 4096) + of_nat (4096 * n)"
  proof -
    have "unat (of_nat (4096 * Suc n) :: u64) = 4096 * Suc n"
      using Suc.prems(3) by (simp only: unat_of_nat) simp
    then have "(of_nat (4096 * Suc n) :: u64) \<noteq> 0" by (metis mult_is_0 nat.distinct(1) unat_0 zero_neq_numeral)
    then show "a \<noteq> ?lst" by (metis add_cancel_right_right)
  qed (simp add: algebra_simps)
  have "\<exists>zs' ws t. mappages_loop r (a + 4096) ((a + 4096) + of_nat (4096 * n)) (pa + 4096) perm u = Ok 0 t \<and>
     ys = zs' @ ws \<and> length zs' \<le> 2 * n + 2 \<and> pt_grow u r zs' t ws \<and>
     (\<forall>vb < MAXVA. pte_of (mem t) r vb =
        (if unat (a + 4096) \<le> unat vb \<and> unat vb < unat (a + 4096) + 4096 * n + 4096
         then PA2PTE (pa + 4096 + (PGROUNDDOWN vb - (a + 4096))) OR perm OR PTE_V else pte_of (mem u) r vb))"
  proof (rule Suc.IH)
    show "pt_inv u r ys" by (rule pt_growD(1) [OF m(3)])
    show "unat (a + 4096) + 4096 * n + 4096 \<le> 2 ^ 38" using Suc.prems(3) a' by simp
    show "2 * n + 2 \<le> length ys" using Suc.prems(4) m(1,2) by simp
    fix vb :: u64 assume vb: "unat (a + 4096) \<le> unat vb" "unat vb < unat (a + 4096) + 4096 * n + 4096"
    then have "vb < MAXVA" using Suc.prems(3) a' by (simp add: word_less_nat_alt MAXVA_def)
    with vb show "pte_of (mem u) r vb AND PTE_V = 0" using a' Suc.prems(5) [of vb] by (simp add: pu)
  qed (rule a')
  then obtain zs' ws w where
    i: "mappages_loop r (a + 4096) ?lst (pa + 4096) perm u = Ok 0 w" "ys = zs' @ ws" "length zs' \<le> 2 * n + 2"
      "pt_grow u r zs' w ws" "\<forall>vb < MAXVA. pte_of (mem w) r vb =
        (if unat a + 4096 \<le> unat vb \<and> unat vb < unat a + 4096 + 4096 * n + 4096
         then PA2PTE (pa + 4096 + (PGROUNDDOWN vb - (a + 4096))) OR perm OR PTE_V else pte_of (mem u) r vb)"
    unfolding lst a' by blast
  have "mappages_loop r a ?lst pa perm s = Ok 0 w"
    using m(5-8) free ne i(1) by (subst mappages_loop.simps) simp
  moreover have "pt_grow s r (zs @ zs') w ws" using m(3) i(2,4) by (auto intro: pt_grow_trans)
  moreover have "pte_of (mem w) r vb =
        (if unat a \<le> unat vb \<and> unat vb < unat a + 4096 * Suc n + 4096
         then PA2PTE (pa + (PGROUNDDOWN vb - a)) OR perm OR PTE_V else pte_of (mem s) r vb)" if "vb < MAXVA" for vb
  proof (cases "unat a \<le> unat vb \<and> unat vb < unat a + 4096")
    case True
    then have "PGROUNDDOWN vb = a" using PGROUNDDOWN_eq_iff [OF Suc.prems(2)] by simp
    with True that show ?thesis by (simp add: i(5) pu)
  next
    case False
    then show ?thesis using that by (auto simp: i(5) pu)
  qed
  ultimately show ?case
    using m(1,2) i(2,3) by - (rule exI [of _ "zs @ zs'"], rule exI [of _ ws], rule exI [of _ w], auto)
qed

section \<open>User memory\<close>

text \<open>
  \<open>user_page m r va\<close> is the physical page user code reaches through \<open>va\<close>, \<open>ubyte m r va\<close> the byte
  it reads there. In \<open>umem_ok\<close> memory user pages are RAM, no tables, and distinct virtual pages are
  distinct physical pages.
\<close>

definition user_page :: "(u64 \<Rightarrow> u8) \<Rightarrow> u64 \<Rightarrow> u64 \<Rightarrow> u64 option" where
  "user_page m r va = (let e = pte_of m r va in
     if va < MAXVA \<and> e AND PTE_V \<noteq> 0 \<and> e AND PTE_U \<noteq> 0 then Some (PTE2PA e) else None)"

definition ubyte :: "(u64 \<Rightarrow> u8) \<Rightarrow> u64 \<Rightarrow> u64 \<Rightarrow> u8 option" where
  "ubyte m r va = map_option (\<lambda>p. m (p + (va - PGROUNDDOWN va))) (user_page m r va)"

definition umem_ok :: "(u64 \<Rightarrow> u8) \<Rightarrow> u64 \<Rightarrow> bool" where
  "umem_ok m r \<longleftrightarrow> pt_wf m r \<and>
     (\<forall>va p. user_page m r va = Some p \<longrightarrow> ram_page p \<and> p \<notin> tables m r) \<and>
     (\<forall>va vb p. user_page m r va = Some p \<longrightarrow> user_page m r vb = Some p \<longrightarrow> PGROUNDDOWN va = PGROUNDDOWN vb)"

lemma umem_okD:
  assumes "umem_ok m r"
  shows "pt_wf m r" and "user_page m r va = Some p \<Longrightarrow> ram_page p"
    and "user_page m r va = Some p \<Longrightarrow> p \<notin> tables m r"
  using assms unfolding umem_ok_def by blast+

lemma PGROUNDDOWN_idem [simp]: "PGROUNDDOWN (PGROUNDDOWN va) = PGROUNDDOWN va"
  by (simp add: PGROUNDDOWN_aligned page_aligned_PGROUNDDOWN)

lemma pte_of_PGROUNDDOWN [simp]: "pte_of m r (PGROUNDDOWN va) = pte_of m r va"
  unfolding pte_of_def PX_PGROUNDDOWN ..

lemma PGROUNDDOWN_MAXVA [simp]: "PGROUNDDOWN va < MAXVA \<longleftrightarrow> va < MAXVA"
  using div_less_iff_less_mult [of 4096 "unat va" 67108864]
  by (simp add: word_less_nat_alt MAXVA_def unat_PGROUNDDOWN_div)

lemma user_page_PGROUNDDOWN [simp]: "user_page m r (PGROUNDDOWN va) = user_page m r va"
  by (simp add: user_page_def)

lemma unat_page_offset: "unat (va - PGROUNDDOWN va) = unat va mod 4096"
  using PGROUNDDOWN_le [of va] by (simp add: unat_sub unat_PGROUNDDOWN)

text \<open>\<open>walkaddr\<close> is the user translation, 0 for none.\<close>

lemma walkaddr_user_page:
  assumes "pt_wf (mem s) r"
  shows "walkaddr r va s = Ok (case user_page (mem s) r va of None \<Rightarrow> 0 | Some p \<Rightarrow> p) s"
proof (cases "va < MAXVA")
  case False
  then have "MAXVA \<le> va" by simp
  with False show ?thesis unfolding walkaddr_def user_page_def by simp
next
  case va: True
  show ?thesis
  proof (cases "l0 (mem s) r (PX 2 va) (PX 1 va)")
    case None
    then have "pte_of (mem s) r va = 0" "slot_of (mem s) r va = 0"
      by (simp_all add: pte_of_def slot_of_def)
    with va assms show ?thesis by (simp add: walkaddr_def walk_lookup user_page_def)
  next
    case (Some t)
    then have t: "ram_page t" "t + 8 * PX 0 va \<noteq> 0"
      using pt_wf_ram [OF assms tables_l0 [OF idx_PX idx_PX Some]] by (simp_all add: entry_nonzero)
    from Some have "pte_of (mem s) r va = load64 (mem s) (t + 8 * PX 0 va)"
      "slot_of (mem s) r va = t + 8 * PX 0 va" by (simp_all add: pte_of_def slot_of_def)
    with va assms t show ?thesis
      by (auto simp: walkaddr_def walk_lookup user_page_def kload64_entry Let_def)
  qed
qed

text \<open>Writing bytes inside one user page changes what user code reads there and nothing else.\<close>

lemma put_user:
  assumes ok: "umem_ok m r" and p: "user_page m r va = Some p" and len: "unat va mod 4096 + length bs \<le> 4096"
  defines "m' \<equiv> put_bytes m (p + (va - PGROUNDDOWN va)) bs"
  shows "umem_ok m' r" and "\<And>x. user_page m' r x = user_page m r x" and "tables m' r = tables m r"
    and "\<And>x. ubyte m' r x = (if unat va \<le> unat x \<and> unat x < unat va + length bs
      then Some (bs ! (unat x - unat va)) else ubyte m r x)"
    and "\<And>x. \<not> in_page p x \<Longrightarrow> m' x = m x"
    and "kmapped_range (p + (va - PGROUNDDOWN va)) (length bs)"
proof -
  let ?o = "va - PGROUNDDOWN va"
  have wf: "pt_wf m r" and rp: "ram_page p" and np: "p \<notin> tables m r"
    using umem_okD [OF ok] p by auto
  have o: "unat ?o = unat va mod 4096" by (rule unat_page_offset)
  have pb: "unat p + 4096 \<le> 2281701376" using ram_page_bounds [OF rp] by simp
  have base: "unat (p + ?o) = unat p + unat va mod 4096"
    using unat_in_page [OF rp, of ?o] o by simp
  show kr: "kmapped_range (p + ?o) (length bs)"
    using ram_page_bounds [OF rp] base len
    by (simp add: kmapped_range_def word_le_nat_alt KERNBASE_def PHYSTOP_def)
  have inside: "in_page p x" if "unat (x - (p + ?o)) < length bs" for x
  proof -
    have "x - p = ?o + (x - (p + ?o))" by simp
    moreover have "unat (?o + (x - (p + ?o))) = unat ?o + unat (x - (p + ?o))"
      using that len o unfolding unat_plus_if' by simp
    ultimately show ?thesis using that len o by (simp add: in_page_def)
  qed
  show out: "\<And>x. \<not> in_page p x \<Longrightarrow> m' x = m x"
    using inside by (auto simp: m'_def put_bytes_def)
  have tab: "m' x = m x" if "t \<in> tables m r" "in_page t x" for t x
    using that np rp pt_wf_ram [OF wf] by (intro out) (auto dest: in_page_unique)
  have fr: "tables m' r = tables m r" "pt_wf m' r" "pte_of m' r x = pte_of m r x" for x
    by (rule pt_frame [OF wf tab]; assumption)+
  show "tables m' r = tables m r" by (rule fr(1))
  show up: "user_page m' r x = user_page m r x" for x by (simp add: user_page_def fr(3))
  show "umem_ok m' r" using ok fr(2) unfolding umem_ok_def up fr(1) by (elim conjE) (intro conjI)
  show "ubyte m' r x = (if unat va \<le> unat x \<and> unat x < unat va + length bs
      then Some (bs ! (unat x - unat va)) else ubyte m r x)" for x
  proof (cases "user_page m r x = Some p")
    case True
    then have same: "PGROUNDDOWN x = PGROUNDDOWN va" using ok p unfolding umem_ok_def by blast
    have d: "p + (x - PGROUNDDOWN x) - (p + ?o) = x - va" unfolding same by simp
    have q: "unat x div 4096 = unat va div 4096"
      using arg_cong [OF same, of unat] by (simp add: unat_PGROUNDDOWN_div)
    have "unat (x - va) < length bs \<longleftrightarrow> unat va \<le> unat x \<and> unat x < unat va + length bs"
    proof (cases "unat va \<le> unat x")
      case True
      then have "unat (x - va) = unat x - unat va" by (simp add: unat_sub word_le_nat_alt)
      with True show ?thesis by auto
    next
      case False
      have "unat va - unat x < 4096"
        using q div_mult_mod_eq [of "unat x" 4096] div_mult_mod_eq [of "unat va" 4096] by linarith
      with False have "unat (x - va) = 2 ^ 64 - (unat va - unat x)" "unat va - unat x < 4096"
        by (auto simp: unat_sub_if' not_le)
      with False len show ?thesis by simp
    qed
    moreover have "unat (x - va) = unat x - unat va" if "unat va \<le> unat x"
      using that by (simp add: unat_sub word_le_nat_alt)
    moreover have "m' (p + (x - PGROUNDDOWN x)) =
        (if unat (x - va) < length bs then bs ! unat (x - va) else m (p + (x - PGROUNDDOWN x)))"
      unfolding m'_def put_bytes_def d ..
    ultimately show ?thesis using True by (simp add: ubyte_def up)
  next
    case False
    have "\<not> (unat va \<le> unat x \<and> unat x < unat va + length bs)"
    proof
      assume x: "unat va \<le> unat x \<and> unat x < unat va + length bs"
      have "unat x div 4096 = unat va div 4096"
      proof (rule div_nat_eqI)
        show "4096 * (unat va div 4096) \<le> unat x" using x mult_div_mod_eq [of 4096 "unat va"] by linarith
        show "unat x < 4096 * Suc (unat va div 4096)"
          using x len mult_div_mod_eq [of 4096 "unat va"] unfolding mult_Suc_right by linarith
      qed
      then have "PGROUNDDOWN x = PGROUNDDOWN va"
        by (intro word_eqI_unat) (simp add: unat_PGROUNDDOWN_div)
      then show False using False p by (metis user_page_PGROUNDDOWN)
    qed
    moreover have "ubyte m' r x = ubyte m r x"
    proof (cases "user_page m r x")
      case (Some w)
      then have "ram_page w" "w \<noteq> p" using umem_okD(2) [OF ok Some] False by auto
      moreover have "in_page w (w + (x - PGROUNDDOWN x))"
        by (rule in_page_add) (simp add: unat_page_offset)
      ultimately have "\<not> in_page p (w + (x - PGROUNDDOWN x))" using rp in_page_unique by blast
      with Some show ?thesis by (simp add: ubyte_def up out)
    qed (simp add: ubyte_def up)
    ultimately show ?thesis by auto
  qed
qed

lemma next_page_addr:
  assumes "unat va + page_rest va \<le> 2 ^ 38"
  shows "unat (PGROUNDDOWN va + PGSIZE) = unat va + page_rest va"
proof -
  have "unat (PGROUNDDOWN va) + 4096 = unat va + page_rest va"
    using mult_div_mod_eq [of 4096 "unat va"] mod_less_divisor [of 4096 "unat va"]
    unfolding unat_PGROUNDDOWN_div page_rest_eq by linarith
  then show ?thesis using assms by (simp add: unat_plus_if')
qed

text \<open>\<open>copyout\<close> to mapped user memory writes exactly the bytes of the range.\<close>

lemma copyout_user:
  assumes "umem_ok (mem s) r" and "unat va + length bs \<le> 2 ^ 38"
    and "\<And>x. unat va \<le> unat x \<Longrightarrow> unat x < unat va + length bs \<Longrightarrow> user_page (mem s) r x \<noteq> None"
  shows "\<exists>m. copyout r va bs s = Ok 0 (s\<lparr>mem := m\<rparr>) \<and> umem_ok m r \<and> tables m r = tables (mem s) r \<and>
     (\<forall>x. user_page m r x = user_page (mem s) r x) \<and>
     (\<forall>x. ubyte m r x = (if unat va \<le> unat x \<and> unat x < unat va + length bs
        then Some (bs ! (unat x - unat va)) else ubyte (mem s) r x)) \<and>
     (\<forall>x. (\<forall>v p. user_page (mem s) r v = Some p \<longrightarrow> \<not> in_page p x) \<longrightarrow> m x = mem s x)"
  using assms
proof (induction bs arbitrary: va s rule: length_induct)
  case (1 bs)
  show ?case
  proof (cases "bs = []")
    case True
    then show ?thesis
      using 1(2) by (intro exI [of _ "mem s"]) (auto simp: copyout.simps)
  next
    case False
    let ?n = "min (page_rest va) (length bs)"
    let ?o = "va - PGROUNDDOWN va"
    have npos: "0 < ?n" using False page_rest_pos by simp
    from 1(4) [of va] False obtain p where p: "user_page (mem s) r va = Some p" by auto
    have len: "unat va mod 4096 + length (take ?n bs) \<le> 4096" by (simp add: page_rest_eq)
    define m1 where "m1 = put_bytes (mem s) (p + ?o) (take ?n bs)"
    note pu = put_user [OF 1(2) p len, folded m1_def]
    let ?s1 = "s\<lparr>mem := m1\<rparr>"
    have p0: "p \<noteq> 0" using umem_okD(2) [OF 1(2) p] by (rule ram_page_nonzero)
    have step: "copyout r va bs s = copyout r (PGROUNDDOWN va + PGSIZE) (drop ?n bs) ?s1"
      using False p p0 pu(6) umem_okD(1) [OF 1(2)]
      by (subst copyout.simps) (simp add: Let_def walkaddr_user_page kput_def m1_def)
    have nva: "unat (PGROUNDDOWN va + PGSIZE) = unat va + ?n" if "drop ?n bs \<noteq> []"
      using that 1(3) next_page_addr [of va] by auto
    have len2: "length (drop ?n bs) < length bs" using npos False by simp
    have "\<exists>m. copyout r (PGROUNDDOWN va + PGSIZE) (drop ?n bs) ?s1 = Ok 0 (?s1\<lparr>mem := m\<rparr>) \<and> umem_ok m r \<and>
       tables m r = tables (mem s) r \<and>
       (\<forall>x. user_page m r x = user_page (mem s) r x) \<and>
       (\<forall>x. ubyte m r x = (if unat va + ?n \<le> unat x \<and> unat x < unat va + length bs
          then Some (bs ! (unat x - unat va)) else ubyte m1 r x)) \<and>
       (\<forall>x. (\<forall>v p. user_page (mem s) r v = Some p \<longrightarrow> \<not> in_page p x) \<longrightarrow> m x = m1 x)"
    proof (cases "drop ?n bs = []")
      case True
      then show ?thesis
        using pu(1-3) by (intro exI [of _ m1]) (auto simp: copyout.simps)
    next
      case more: False
      have le: "unat va + ?n + length (drop ?n bs) = unat va + length bs" by simp
      have cov: "user_page m1 r x \<noteq> None"
        if "unat va + ?n \<le> unat x" "unat x < unat va + ?n + length (drop ?n bs)" for x
        using 1(4) [of x] that unfolding pu(2) by auto
      have pidx: "drop ?n bs ! (unat x - (unat va + ?n)) = bs ! (unat x - unat va)"
        if "unat va + ?n \<le> unat x" for x :: u64
        using that by (simp add: diff_diff_left)
      from 1(1) [rule_format, OF len2, of ?s1 "PGROUNDDOWN va + PGSIZE"] pu(1) 1(3) cov
      show ?thesis
        unfolding nva [OF more] by (auto simp: pu(2,3) pidx le cong: if_cong)
    qed
    then obtain m where m: "copyout r va bs s = Ok 0 (s\<lparr>mem := m\<rparr>)" "umem_ok m r"
       "tables m r = tables (mem s) r" "\<forall>x. user_page m r x = user_page (mem s) r x"
       "\<forall>x. ubyte m r x = (if unat va + ?n \<le> unat x \<and> unat x < unat va + length bs
          then Some (bs ! (unat x - unat va)) else ubyte m1 r x)"
       "\<forall>x. (\<forall>v p. user_page (mem s) r v = Some p \<longrightarrow> \<not> in_page p x) \<longrightarrow> m x = m1 x"
      unfolding step by auto
    have "ubyte m r x = (if unat va \<le> unat x \<and> unat x < unat va + length bs
        then Some (bs ! (unat x - unat va)) else ubyte (mem s) r x)" for x
    proof (cases "unat va \<le> unat x \<and> unat x < unat va + ?n")
      case True
      then have "unat x - unat va < ?n" "unat x < unat va + length bs" by linarith+
      with True m(5) pu(4) [of x] show ?thesis by (simp del: min_less_iff_conj)
    next
      case False
      with m(5) pu(4) [of x] show ?thesis by auto
    qed
    moreover have "m x = mem s x" if "\<forall>v p. user_page (mem s) r v = Some p \<longrightarrow> \<not> in_page p x" for x
      using m(6) that p pu(5) by metis
    ultimately show ?thesis using m(1-4) by blast
  qed
qed

text \<open>\<open>copyin\<close> from mapped user memory returns what user code reads there.\<close>

lemma unat_add_of_nat:
  fixes w :: u64
  assumes "unat w + n < 2 ^ 64"
  shows "unat (w + of_nat n) = unat w + n"
  using assms by (simp add: unat_plus_if' unat_of_nat)

lemma get_bytes_Cons: "get_bytes m a (Suc n) = m a # get_bytes m (a + 1) n"
  unfolding get_bytes_def upt_conv_Cons [OF zero_less_Suc] map_Suc_upt [symmetric] by (simp add: add.assoc)

lemma get_user:
  assumes ok: "umem_ok m r" and p: "user_page m r va = Some p" and len: "unat va mod 4096 + n \<le> 4096"
  shows "get_bytes m (p + (va - PGROUNDDOWN va)) n = map (\<lambda>i. the (ubyte m r (va + of_nat i))) [0..<n]"
    and "kmapped_range (p + (va - PGROUNDDOWN va)) n"
proof -
  have "m (p + (va - PGROUNDDOWN va) + of_nat i) = the (ubyte m r (va + of_nat i))" if i: "i < n" for i
  proof -
    let ?x = "va + of_nat i"
    have "unat va + i < 2 ^ 64"
    proof -
      have "unat va div 4096 < 4503599627370496" using unat_u64_less [of va] by simp
      then have "unat va + i < 18446744073709551616"
        using mult_div_mod_eq [of 4096 "unat va"] len i by linarith
      then show ?thesis by simp
    qed
    then have u: "unat ?x = unat va + i" by (rule unat_add_of_nat)
    have "unat ?x div 4096 = unat va div 4096"
    proof (rule div_nat_eqI)
      show "4096 * (unat va div 4096) \<le> unat ?x"
        using u mult_div_mod_eq [of 4096 "unat va"] by linarith
      show "unat ?x < 4096 * Suc (unat va div 4096)"
        using u i len mult_div_mod_eq [of 4096 "unat va"] unfolding mult_Suc_right by linarith
    qed
    then have same: "PGROUNDDOWN ?x = PGROUNDDOWN va"
      by (intro word_eqI_unat) (simp add: unat_PGROUNDDOWN_div)
    then have "user_page m r ?x = Some p" using p by (metis user_page_PGROUNDDOWN)
    then show ?thesis by (simp add: ubyte_def same algebra_simps)
  qed
  then show "get_bytes m (p + (va - PGROUNDDOWN va)) n = map (\<lambda>i. the (ubyte m r (va + of_nat i))) [0..<n]"
    by (simp add: get_bytes_def)
  have rp: "ram_page p" by (rule umem_okD(2) [OF ok p])
  have "unat (p + (va - PGROUNDDOWN va)) = unat p + unat va mod 4096"
    using unat_in_page [OF rp, of "va - PGROUNDDOWN va"] unat_page_offset [of va] by simp
  then show "kmapped_range (p + (va - PGROUNDDOWN va)) n"
    using ram_page_bounds [OF rp] len
    by (simp add: kmapped_range_def word_le_nat_alt KERNBASE_def PHYSTOP_def)
qed

lemma copyin_user:
  assumes "umem_ok (mem s) r" and "unat va + n \<le> 2 ^ 38"
    and "\<And>x. unat va \<le> unat x \<Longrightarrow> unat x < unat va + n \<Longrightarrow> user_page (mem s) r x \<noteq> None"
  shows "copyin r va n s = Ok (0, map (\<lambda>i. the (ubyte (mem s) r (va + of_nat i))) [0..<n]) s"
  using assms
proof (induction n arbitrary: va rule: less_induct)
  case (less n)
  show ?case
  proof (cases "n = 0")
    case True
    then show ?thesis by (simp add: copyin.simps)
  next
    case False
    let ?n = "min (page_rest va) n"
    have npos: "0 < ?n" using False page_rest_pos by simp
    from less.prems(3) [of va] False obtain p where p: "user_page (mem s) r va = Some p" by auto
    have len: "unat va mod 4096 + ?n \<le> 4096" by (simp add: page_rest_eq)
    note gu = get_user [OF less.prems(1) p len]
    have p0: "p \<noteq> 0" using umem_okD(2) [OF less.prems(1) p] by (rule ram_page_nonzero)
    let ?f = "\<lambda>i. the (ubyte (mem s) r (va + of_nat i))"
    have rest: "copyin r (PGROUNDDOWN va + PGSIZE) (n - ?n) s = Ok (0, map ?f [?n..<n]) s"
    proof (cases "n - ?n = 0")
      case True
      then show ?thesis by (simp add: copyin.simps)
    next
      case more: False
      have u: "unat (PGROUNDDOWN va + PGSIZE) = unat va + ?n"
        using more less.prems(2) next_page_addr [of va] by auto
      have b: "unat va + ?n < 2 ^ 64" using less.prems(2) by simp
      from u have w: "PGROUNDDOWN va + PGSIZE = va + of_nat ?n"
        by (intro word_eqI_unat) (simp only: unat_add_of_nat [OF b])
      have "copyin r (PGROUNDDOWN va + PGSIZE) (n - ?n) s =
          Ok (0, map (\<lambda>i. the (ubyte (mem s) r (PGROUNDDOWN va + PGSIZE + of_nat i))) [0..<n - ?n]) s"
        using npos False less.prems u by (intro less.IH) auto
      also have "map (\<lambda>i. the (ubyte (mem s) r (PGROUNDDOWN va + PGSIZE + of_nat i))) [0..<n - ?n] =
          map ?f [?n..<n]"
        unfolding w by (rule nth_equalityI) (auto simp: add.assoc algebra_simps)
      finally show ?thesis .
    qed
    have split: "map ?f [0..<?n] @ map ?f [?n..<n] = map ?f [0..<n]"
      using upt_add_eq_append [of 0 ?n "n - ?n"] by (simp flip: map_append)
    show ?thesis
      using False p p0 gu umem_okD(1) [OF less.prems(1)] rest split
      by (subst copyin.simps) (simp add: Let_def walkaddr_user_page kget_def)
  qed
qed

section \<open>Removing mappings\<close>

lemma walk_mapped:
  assumes wf: "pt_wf (mem s) r" and va: "va < MAXVA" and v: "pte_of (mem s) r va \<noteq> 0"
  obtains u where "l0 (mem s) r (PX 2 va) (PX 1 va) = Some u" and "ram_page u"
    and "walk r va False s = Ok (u + 8 * PX 0 va) s" and "u + 8 * PX 0 va \<noteq> 0"
    and "load64 (mem s) (u + 8 * PX 0 va) = pte_of (mem s) r va"
proof -
  from v obtain u where u: "l0 (mem s) r (PX 2 va) (PX 1 va) = Some u"
    by (auto simp: pte_of_def split: option.splits)
  moreover from this have "ram_page u" using pt_wf_ram [OF wf tables_l0 [OF idx_PX idx_PX]] by blast
  ultimately show thesis
    using that walk_lookup [OF wf va] by (simp add: slot_of_def pte_of_def entry_nonzero)
qed

lemma uvmunmap_loop_done: "uvmunmap_loop r a a f s = Ok () s"
  by (subst uvmunmap_loop.simps) simp

lemma uvmunmap_one:
  assumes al: "page_aligned va" and va: "va < MAXVA" and w: "walk r va False s = Ok p s" "p \<noteq> 0"
    and l: "kload64 p s = Ok e s" "e AND PTE_V \<noteq> 0" "PTE_FLAGS e \<noteq> PTE_V"
  shows "uvmunmap r va 1 f s = bnd (guarded f (kfree (PTE2PA e))) (\<lambda>_. kstore64 p 0) s"
proof -
  have u: "unat (va + 4096) = unat va + 4096"
    using va by (simp add: word_less_nat_alt MAXVA_def unat_plus_if')
  then have "va < va + 4096" by (simp add: word_less_nat_alt)
  moreover have "va mod 4096 = 0"
    using al by (simp add: page_aligned_def word_unat_eq_iff unat_mod)
  ultimately show ?thesis
    using w l by (simp add: uvmunmap_def uvmunmap_loop_done uvmunmap_loop.simps [of r va] bnd_def split: outcome.splits)
qed

lemma uvmunmap_keep_page:
  assumes inv: "pt_inv s r xs" and al: "page_aligned va" and va: "va < MAXVA"
    and e: "pte_of (mem s) r va AND PTE_V \<noteq> 0" "PTE_FLAGS (pte_of (mem s) r va) \<noteq> PTE_V"
  shows "\<exists>t. uvmunmap r va 1 False s = Ok () t \<and> pt_grow s r [] t xs \<and>
     (\<forall>vb < MAXVA. pte_of (mem t) r vb = (if PGROUNDDOWN vb = va then 0 else pte_of (mem s) r vb))"
proof -
  have wf: "pt_wf (mem s) r" using inv by (simp add: pt_inv_def)
  have "pte_of (mem s) r va \<noteq> 0" using e by auto
  from walk_mapped [OF wf va this] obtain u where
    u: "l0 (mem s) r (PX 2 va) (PX 1 va) = Some u" "ram_page u"
      "walk r va False s = Ok (u + 8 * PX 0 va) s" "u + 8 * PX 0 va \<noteq> 0"
      "load64 (mem s) (u + 8 * PX 0 va) = pte_of (mem s) r va" by blast
  have "uvmunmap r va 1 False s = Ok () (s\<lparr>mem := store64 (mem s) (u + 8 * PX 0 va) 0\<rparr>)"
    using u e by (subst uvmunmap_one [OF al va u(3,4), where e = "pte_of (mem s) r va"])
      (simp_all add: kload64_entry kstore64_entry guarded_def)
  moreover note leaf_store_grow [OF inv u(1) va, where v = 0]
  ultimately show ?thesis using PGROUNDDOWN_aligned [OF al] by auto
qed

lemma uvmunmap_free_page:
  assumes inv: "pt_inv s r xs" and al: "page_aligned va" and va: "va < MAXVA"
    and e: "pte_of (mem s) r va AND PTE_V \<noteq> 0" "PTE_FLAGS (pte_of (mem s) r va) \<noteq> PTE_V"
    and pa: "PTE2PA (pte_of (mem s) r va) = page_addr i" "page_ix s i" "run_ref (runs s i) = 1"
      "i \<notin> set xs" "page_addr i \<notin> tables (mem s) r"
  shows "\<exists>t. uvmunmap r va 1 True s = Ok () t \<and> pt_inv t r (i # xs) \<and> kmem_frame s t \<and>
     tables (mem t) r = tables (mem s) r \<and>
     (\<forall>vb < MAXVA. pte_of (mem t) r vb = (if PGROUNDDOWN vb = va then 0 else pte_of (mem s) r vb)) \<and>
     (\<forall>x. (\<forall>u \<in> insert (page_addr i) (tables (mem s) r). \<not> in_page u x) \<longrightarrow> mem t x = mem s x) \<and>
     (\<forall>j. run_ref (runs t j) = run_ref (runs s j)) \<and>
     (\<forall>a b. pidx a \<longrightarrow> pidx b \<longrightarrow> l0 (mem t) r a b = l0 (mem s) r a b)"
proof -
  let ?a = "after_kfree i s"
  have wf: "pt_wf (mem s) r" and fl: "free_list s xs" and kl: "kmem_lock \<notin> set (locks s)"
    using inv by (simp_all add: pt_inv_def)
  have kb: "kernel_above_base s" using fl by (simp add: free_list_def)
  have ri: "ram_page (page_addr i)" by (rule ram_page_page_addr [OF pa(2) kb])
  have free: "kfree (page_addr i) s = Ok () ?a" by (rule kfree_run [OF pa(2) kb kl pa(3)])
  have ma: "mem ?a x = (if in_page (page_addr i) x then 1 else mem s x)" for x
    by (simp add: after_kfree_def memset_page)
  have same: "mem ?a x = mem s x" if "t \<in> tables (mem s) r" "in_page t x" for t x
    using that pa(5) ri pt_wf_ram [OF wf that(1)] in_page_unique [of t "page_addr i" x] by (auto simp: ma)
  have fr: "tables (mem ?a) r = tables (mem s) r" "pt_wf (mem ?a) r"
    "pte_of (mem ?a) r vb = pte_of (mem s) r vb" "pidx a \<Longrightarrow> pidx b \<Longrightarrow> l0 (mem ?a) r a b = l0 (mem s) r a b" for vb a b
    by (rule pt_frame [OF wf same]; assumption)+
  have fla: "free_list ?a (i # xs)" by (rule free_list_after_kfree [OF fl pa(2,4)])
  have inva: "pt_inv ?a r (i # xs)"
    using inv fla fr kl pa(5) by (simp add: pt_inv_def)
  have "pte_of (mem s) r va \<noteq> 0" using e by auto
  from walk_mapped [OF wf va this] obtain u where
    u: "l0 (mem s) r (PX 2 va) (PX 1 va) = Some u" "ram_page u"
      "walk r va False s = Ok (u + 8 * PX 0 va) s" "u + 8 * PX 0 va \<noteq> 0"
      "load64 (mem s) (u + 8 * PX 0 va) = pte_of (mem s) r va" by blast
  let ?t = "?a\<lparr>mem := store64 (mem ?a) (u + 8 * PX 0 va) 0\<rparr>"
  have run: "uvmunmap r va 1 True s = Ok () ?t"
    using u e pa(1) free by (subst uvmunmap_one [OF al va u(3,4), where e = "pte_of (mem s) r va"])
      (simp_all add: kload64_entry kstore64_entry guarded_def)
  have l0a: "l0 (mem ?a) r (PX 2 va) (PX 1 va) = Some u" using fr(4) [OF idx_PX idx_PX] u(1) by simp
  note g = leaf_store_grow [OF inva l0a va, where v = 0]
  note gd = pt_growD [OF g(1)]
  have fa: "kmem_frame s ?a" by (simp add: kmem_frame_def after_kfree_def)
  have out: "mem ?t x = mem s x" if "\<forall>u \<in> insert (page_addr i) (tables (mem s) r). \<not> in_page u x" for x
  proof -
    have "mem ?t x = mem ?a x" using that gd(3) fr(1) by (intro gd(4)) simp
    with that show ?thesis by (simp add: ma)
  qed
  have pte: "pte_of (mem ?t) r vb = (if PGROUNDDOWN vb = va then 0 else pte_of (mem s) r vb)"
    if "vb < MAXVA" for vb
    using g(2) [OF that] fr(3) PGROUNDDOWN_aligned [OF al] by simp
  have keep: "l0 (mem ?t) r a b = l0 (mem s) r a b" if "pidx a" "pidx b" for a b
    using leaf_store(3) [OF fr(2) l0a va that, where v = 0] fr(4) [OF that] by simp
  show ?thesis
    apply (rule exI [of _ ?t])
    apply (intro conjI)
    subgoal by (rule run)
    subgoal by (rule gd(1))
    subgoal by (rule kmem_frame_trans [OF fa gd(2)])
    subgoal by (rule trans [OF gd(3)]) (simp add: fr(1))
    subgoal by (intro allI impI) (rule pte)
    subgoal by (intro allI impI) (rule out)
    subgoal by (simp add: after_kfree_def)
    subgoal by (intro allI impI) (rule keep)
    done
qed

end
