(* ===== verification/Bytes.thy ===== *)
theory Bytes
  imports Prelude
begin

unbundle bit_operations_syntax

text \<open>
  Little-endian words in byte buffers: the view that the kernel has of disk blocks and other
  buffers when it casts a \<open>char\<close> array to a pointer to a structure.
\<close>

definition le_word :: "u8 list \<Rightarrow> 'a::len word" where
  "le_word bs = foldr (\<lambda>b w. ucast b OR push_bit 8 w) bs 0"

definition le_bytes :: "nat \<Rightarrow> 'a::len word \<Rightarrow> u8 list" where
  "le_bytes n w = map (\<lambda>i. ucast (drop_bit (8 * i) w)) [0..<n]"

text \<open>Replacing the bytes from offset \<open>i\<close> on; the buffer keeps its length.\<close>

definition put_at :: "u8 list \<Rightarrow> nat \<Rightarrow> u8 list \<Rightarrow> u8 list" where
  "put_at bs i vs = take (length bs) (take i bs @ vs @ drop (i + length vs) bs)"

definition get_at :: "u8 list \<Rightarrow> nat \<Rightarrow> nat \<Rightarrow> u8 list" where
  "get_at bs i n = take n (drop i bs)"

definition get16 :: "u8 list \<Rightarrow> nat \<Rightarrow> u16" where
  "get16 bs i = le_word (get_at bs i 2)"

definition get32 :: "u8 list \<Rightarrow> nat \<Rightarrow> u32" where
  "get32 bs i = le_word (get_at bs i 4)"

definition get64 :: "u8 list \<Rightarrow> nat \<Rightarrow> u64" where
  "get64 bs i = le_word (get_at bs i 8)"

definition put16 :: "u8 list \<Rightarrow> nat \<Rightarrow> u16 \<Rightarrow> u8 list" where
  "put16 bs i w = put_at bs i (le_bytes 2 w)"

definition put32 :: "u8 list \<Rightarrow> nat \<Rightarrow> u32 \<Rightarrow> u8 list" where
  "put32 bs i w = put_at bs i (le_bytes 4 w)"

section \<open>Round trips\<close>

lemma length_le_bytes [simp]: "length (le_bytes n w) = n"
  by (simp add: le_bytes_def)

lemma bit_le_word:
  "bit (le_word bs :: 'a::len word) k \<longleftrightarrow> k < LENGTH('a) \<and> k div 8 < length bs \<and> bit (bs ! (k div 8)) (k mod 8)"
proof (induction bs arbitrary: k)
  case Nil
  then show ?case by (simp add: le_word_def)
next
  case (Cons b bs)
  have e: "le_word (b # bs) = (ucast b OR push_bit 8 (le_word bs) :: 'a word)" by (simp add: le_word_def)
  show ?case
  proof (cases "k < 8")
    case True
    then show ?thesis by (auto simp: e bit_or_iff bit_push_bit_iff bit_ucast_iff dest: bit_imp_le_length)
  next
    case False
    then obtain j where k: "k = j + 8" by (metis le_add_diff_inverse2 not_less)
    then have "k div 8 = Suc (j div 8)" "k mod 8 = j mod 8" by simp_all
    moreover have "\<not> bit b k" using False bit_imp_le_length [of b k] by auto
    ultimately show ?thesis using Cons.IH [of j]
      by (auto simp: e k bit_or_iff bit_push_bit_iff bit_ucast_iff dest: bit_imp_le_length)
  qed
qed

lemma le_word_le_bytes:
  assumes "LENGTH('a) \<le> 8 * n"
  shows "le_word (le_bytes n w) = (w :: 'a::len word)"
proof (rule bit_word_eqI)
  fix k assume "k < LENGTH('a)"
  with assms have k: "k div 8 < n" by linarith
  then show "bit (le_word (le_bytes n w) :: 'a word) k = bit w k"
    using \<open>k < LENGTH('a)\<close> by (simp add: bit_le_word le_bytes_def bit_ucast_iff bit_drop_bit_eq)
qed

lemma length_put_at [simp]: "length (put_at bs i vs) = length bs"
  by (simp add: put_at_def)

lemma put_at_fits: "i + length vs \<le> length bs \<Longrightarrow> put_at bs i vs = take i bs @ vs @ drop (i + length vs) bs"
  by (simp add: put_at_def)

lemma nth_put_at:
  assumes "i + length vs \<le> length bs" and "j < length bs"
  shows "put_at bs i vs ! j = (if i \<le> j \<and> j < i + length vs then vs ! (j - i) else bs ! j)"
  using assms by (auto simp: put_at_fits nth_append min_def)

lemma get_put_at_same:
  "i + length vs \<le> length bs \<Longrightarrow> get_at (put_at bs i vs) i (length vs) = vs"
  by (simp add: put_at_fits get_at_def)

lemma get_put_at_other:
  assumes "i + length vs \<le> length bs" and "j + n \<le> i \<or> i + length vs \<le> j"
  shows "get_at (put_at bs i vs) j n = get_at bs j n"
proof (rule nth_equalityI)
  show "length (get_at (put_at bs i vs) j n) = length (get_at bs j n)" by (simp add: get_at_def)
  fix k assume "k < length (get_at (put_at bs i vs) j n)"
  then have "k < n" "j + k < length bs" by (auto simp: get_at_def)
  then show "get_at (put_at bs i vs) j n ! k = get_at bs j n ! k"
    using assms by (auto simp: get_at_def nth_put_at)
qed

lemma length_put32 [simp]: "length (put32 bs i w) = length bs"
  by (simp add: put32_def)

lemma length_put16 [simp]: "length (put16 bs i w) = length bs"
  by (simp add: put16_def)

lemma get32_put32:
  assumes "i + 4 \<le> length bs"
  shows "get32 (put32 bs i w) i = w"
  using assms get_put_at_same [of i "le_bytes 4 w" bs] by (simp add: get32_def put32_def le_word_le_bytes)

lemma get16_put16:
  assumes "i + 2 \<le> length bs"
  shows "get16 (put16 bs i w) i = w"
  using assms get_put_at_same [of i "le_bytes 2 w" bs] by (simp add: get16_def put16_def le_word_le_bytes)

lemma get_put_other:
  "i + 4 \<le> length bs \<Longrightarrow> j + 4 \<le> i \<or> i + 4 \<le> j \<Longrightarrow> get32 (put32 bs i w) j = get32 bs j"
  "i + 4 \<le> length bs \<Longrightarrow> j + 2 \<le> i \<or> i + 4 \<le> j \<Longrightarrow> get16 (put32 bs i w) j = get16 bs j"
  "i + 2 \<le> length bs \<Longrightarrow> j + 4 \<le> i \<or> i + 2 \<le> j \<Longrightarrow> get32 (put16 bs i v) j = get32 bs j"
  "i + 2 \<le> length bs \<Longrightarrow> j + 2 \<le> i \<or> i + 2 \<le> j \<Longrightarrow> get16 (put16 bs i v) j = get16 bs j"
  by (simp_all add: get32_def get16_def put32_def put16_def get_put_at_other)

end
