(* ===== verification/Proc.thy ===== *)
theory Proc
  imports Pagetable Bytes
begin

unbundle bit_operations_syntax

text \<open>
  The process table of \<open>kernel/proc.c\<close> and the operations on it that need no file system:
  allocation and freeing of a process, growing its memory, sleep and wakeup, kill, wait, the
  scheduler. The trapframe of a process lives in memory, at the address \<open>trapframe\<close>.

  The state is the view of one hart. A call of \<open>swtch\<close> hands the hart to the scheduler and the
  process continues when it is chosen again: \<open>yield\<close> and a sleep that a device ends are modelled
  with the scheduler's part (\<open>switch_out\<close>, \<open>switch_in\<close>) at that point, a sleep that only another
  process can end stops the run with \<open>Blocked\<close>.
\<close>

section \<open>State\<close>

datatype procstate = UNUSED | USED | SLEEPING | RUNNABLE | RUNNING | ZOMBIE

text \<open>A sleep channel: the address slept on, named by the object it belongs to and an index.\<close>

datatype channel = Chan string nat

record proc =
  state :: procstate
  chan :: "channel option"
  killed :: bool
  xstate :: int
  pid :: int
  parent :: "nat option"
  kstack :: u64
  psz :: u64
  pagetable :: u64
  trapframe :: u64
  ctx :: "u64 list"
  ofile :: "nat option list"
  cwd :: "nat option"
  pname :: "u8 list"
  pvmas :: "nat option"
  nvma :: int

text \<open>\<open>cur\<close> is \<open>mycpu()->proc\<close>; \<open>forkret_addr\<close> is the address of \<open>forkret\<close>.\<close>

record ptable = vm +
  proc :: "nat \<Rightarrow> proc"
  initproc :: "nat option"
  nextpid :: int
  cur :: "nat option"
  ticks :: u32
  forkret_addr :: u64

abbreviation plock :: "nat \<Rightarrow> lock" where
  "plock p \<equiv> Lock ''proc'' p"

abbreviation pid_lock :: lock where
  "pid_lock \<equiv> Lock ''nextpid'' 0"

abbreviation wait_lock :: lock where
  "wait_lock \<equiv> Lock ''wait_lock'' 0"

definition upd_proc :: "nat \<Rightarrow> (proc \<Rightarrow> proc) \<Rightarrow> ('z ptable_scheme, unit) kmon" where
  "upd_proc p f = modify (\<lambda>s. s\<lparr>proc := (proc s)(p := f (proc s p))\<rparr>)"

definition get_proc :: "nat \<Rightarrow> (proc \<Rightarrow> 'b) \<Rightarrow> ('z ptable_scheme, 'b) kmon" where
  "get_proc p f = gets (\<lambda>s. f (proc s p))"

text \<open>\<open>myproc()\<close> where its result is dereferenced: a null pointer faults.\<close>

definition myproc :: "('z ptable_scheme, nat) kmon" where
  "myproc = bnd (gets cur) (\<lambda>c. case c of None \<Rightarrow> stop (Fault 0) | Some p \<Rightarrow> ret p)"

section \<open>Boot and process identifiers\<close>

definition procinit :: "('z ptable_scheme, unit) kmon" where
  "procinit = for_each (\<lambda>p. upd_proc p (\<lambda>q. q\<lparr>kstack := KSTACK p\<rparr>)) [0..<NPROC]"

text \<open>\<open>int\<close> addition on 32 bits.\<close>

definition int_add :: "int \<Rightarrow> int \<Rightarrow> int" where
  "int_add a b = sint (word_of_int (a + b) :: u32)"

definition allocpid :: "('z ptable_scheme, int) kmon" where
  "allocpid = bnd (acquire pid_lock) (\<lambda>_.
     bnd (gets nextpid) (\<lambda>pid.
     bnd (modify (\<lambda>s. s\<lparr>nextpid := int_add (nextpid s) 1\<rparr>)) (\<lambda>_.
     bnd (release pid_lock) (\<lambda>_.
     ret pid))))"

section \<open>Switching\<close>

definition sched :: "('z ptable_scheme, unit) kmon" where
  "sched = bnd myproc (\<lambda>p.
     bnd (gets (holding (plock p))) (\<lambda>h.
     if \<not> h then panic ''sched p->lock''
     else bnd (gets (\<lambda>s. length (locks s))) (\<lambda>noff.
       if noff \<noteq> 1 then panic ''sched locks''
       else bnd (get_proc p state) (\<lambda>st.
         if st = RUNNING then panic ''sched running'' else ret ()))))"

text \<open>The scheduler's part when it chooses \<open>p\<close>.\<close>

definition resume :: "nat \<Rightarrow> ('z ptable_scheme, unit) kmon" where
  "resume p = bnd (upd_proc p (\<lambda>q. q\<lparr>state := RUNNING\<rparr>)) (\<lambda>_. modify (\<lambda>s. s\<lparr>cur := Some p\<rparr>))"

text \<open>
  The scheduler between the \<open>swtch\<close> of \<open>p\<close> and its next one to \<open>p\<close>: it has no process and
  releases the lock; later it takes the lock again and finds \<open>p\<close> runnable.
\<close>

definition switch_out :: "nat \<Rightarrow> ('z ptable_scheme, unit) kmon" where
  "switch_out p = bnd (modify (\<lambda>s. s\<lparr>cur := None\<rparr>)) (\<lambda>_. release (plock p))"

definition switch_in :: "nat \<Rightarrow> ('z ptable_scheme, unit) kmon" where
  "switch_in p = bnd (acquire (plock p)) (\<lambda>_.
     bnd (get_proc p state) (\<lambda>st.
     if st = RUNNABLE then resume p else stop (Blocked ''scheduler'')))"

text \<open>
  One iteration of the scheduler's inner loop; \<open>thread p\<close> is what runs between the two \<open>swtch\<close>es.
\<close>

definition scheduler_step ::
  "(nat \<Rightarrow> ('z ptable_scheme, unit) kmon) \<Rightarrow> nat \<Rightarrow> ('z ptable_scheme, unit) kmon" where
  "scheduler_step thread p = bnd (acquire (plock p)) (\<lambda>_.
     bnd (get_proc p state) (\<lambda>st.
     bnd (guarded (st = RUNNABLE)
       (bnd (resume p) (\<lambda>_.
        bnd (thread p) (\<lambda>_.
        modify (\<lambda>s. s\<lparr>cur := None\<rparr>))))) (\<lambda>_.
     release (plock p))))"

definition scheduler_pass ::
  "(nat \<Rightarrow> ('z ptable_scheme, unit) kmon) \<Rightarrow> ('z ptable_scheme, unit) kmon" where
  "scheduler_pass thread = for_each (scheduler_step thread) [0..<NPROC]"

text \<open>\<open>yield\<close> up to its \<open>swtch\<close>, and all of it.\<close>

definition yield_enter :: "nat \<Rightarrow> ('z ptable_scheme, unit) kmon" where
  "yield_enter p = bnd (acquire (plock p)) (\<lambda>_.
     bnd (upd_proc p (\<lambda>q. q\<lparr>state := RUNNABLE\<rparr>)) (\<lambda>_.
     sched))"

definition yield :: "('z ptable_scheme, unit) kmon" where
  "yield = bnd myproc (\<lambda>p.
     bnd (yield_enter p) (\<lambda>_.
     bnd (switch_out p) (\<lambda>_.
     bnd (switch_in p) (\<lambda>_.
     release (plock p)))))"

text \<open>\<open>sleep\<close> up to its \<open>swtch\<close>, and what follows it.\<close>

definition sleep_enter :: "channel \<Rightarrow> lock \<Rightarrow> ('z ptable_scheme, unit) kmon" where
  "sleep_enter ch lk = bnd myproc (\<lambda>p.
     bnd (acquire (plock p)) (\<lambda>_.
     bnd (release lk) (\<lambda>_.
     bnd (upd_proc p (\<lambda>q. q\<lparr>chan := Some ch\<rparr>)) (\<lambda>_.
     bnd (upd_proc p (\<lambda>q. q\<lparr>state := SLEEPING\<rparr>)) (\<lambda>_.
     sched)))))"

definition sleep_return :: "lock \<Rightarrow> ('z ptable_scheme, unit) kmon" where
  "sleep_return lk = bnd myproc (\<lambda>p.
     bnd (upd_proc p (\<lambda>q. q\<lparr>chan := None\<rparr>)) (\<lambda>_.
     bnd (release (plock p)) (\<lambda>_.
     acquire lk)))"

text \<open>
  \<open>sleep ch lk\<close> is the call whose wakeup must come from another process, so that the run stops in it.
  In \<open>sleep_until ch lk ev\<close> the process gets the hart back: \<open>ev\<close> is all that the hart does from the \<open>swtch\<close>
  to the scheduler until the scheduler chooses the process again (interrupts, other processes, further
  rounds of the scheduler, in any number and order). A process that \<open>ev\<close> leaves asleep is not chosen.
\<close>

definition sleep :: "channel \<Rightarrow> lock \<Rightarrow> ('z ptable_scheme, 'a) kmon" where
  "sleep ch lk = bnd (sleep_enter ch lk) (\<lambda>_. stop (Blocked (case ch of Chan n _ \<Rightarrow> n)))"

definition sleep_until ::
  "channel \<Rightarrow> lock \<Rightarrow> ('z ptable_scheme, unit) kmon \<Rightarrow> ('z ptable_scheme, unit) kmon" where
  "sleep_until ch lk ev = bnd myproc (\<lambda>p.
     bnd (sleep_enter ch lk) (\<lambda>_.
     bnd (switch_out p) (\<lambda>_.
     bnd ev (\<lambda>_.
     bnd (switch_in p) (\<lambda>_.
     sleep_return lk)))))"

definition wakeup1 :: "channel \<Rightarrow> proc \<Rightarrow> proc" where
  "wakeup1 ch q = (if state q = SLEEPING \<and> chan q = Some ch then q\<lparr>state := RUNNABLE\<rparr> else q)"

definition wakeup :: "channel \<Rightarrow> ('z ptable_scheme, unit) kmon" where
  "wakeup ch = for_each (\<lambda>p.
     bnd (gets cur) (\<lambda>c.
     guarded (c \<noteq> Some p)
       (bnd (acquire (plock p)) (\<lambda>_.
        bnd (upd_proc p (wakeup1 ch)) (\<lambda>_.
        release (plock p)))))) [0..<NPROC]"

lemma keeps_acquire:
  "(\<And>s l. v (s\<lparr>locks := l\<rparr>) = v s) \<Longrightarrow> keeps v (acquire lk)"
  by (auto simp: keeps_def acquire_eq_Ok)

lemma keeps_release:
  "(\<And>s l. v (s\<lparr>locks := l\<rparr>) = v s) \<Longrightarrow> keeps v (release lk)"
  by (auto simp: keeps_def release_eq_Ok)

lemma keeps_upd_proc:
  "(\<And>s f. v (s\<lparr>proc := f\<rparr>) = v s) \<Longrightarrow> keeps v (upd_proc p f)"
  by (simp add: upd_proc_def keeps_def)

lemma keeps_wakeup:
  assumes "\<And>s f. v (s\<lparr>proc := f\<rparr>) = v s" and "\<And>s l. v (s\<lparr>locks := l\<rparr>) = v s"
  shows "keeps v (wakeup ch)"
  unfolding wakeup_def
  by (intro keeps_intros keeps_acquire keeps_release keeps_upd_proc assms)

primrec kill_from :: "int \<Rightarrow> nat list \<Rightarrow> ('z ptable_scheme, int) kmon" where
  "kill_from pd [] = ret (- 1)"
| "kill_from pd (p # ps) =
     bnd (acquire (plock p)) (\<lambda>_.
     bnd (get_proc p pid) (\<lambda>q.
     if q = pd
     then bnd (upd_proc p (\<lambda>q. q\<lparr>killed := True\<rparr>)) (\<lambda>_.
       bnd (upd_proc p (\<lambda>q. if state q = SLEEPING then q\<lparr>state := RUNNABLE\<rparr> else q)) (\<lambda>_.
       bnd (release (plock p)) (\<lambda>_.
       ret 0)))
     else bnd (release (plock p)) (\<lambda>_. kill_from pd ps)))"

definition kill :: "int \<Rightarrow> ('z ptable_scheme, int) kmon" where
  "kill pd = kill_from pd [0..<NPROC]"

section \<open>Creating, growing and freeing a process\<close>

definition freeproc :: "nat \<Rightarrow> ('z ptable_scheme, unit) kmon" where
  "freeproc p =
     bnd (get_proc p trapframe) (\<lambda>tf.
     bnd (guarded (tf \<noteq> 0) (kfree tf)) (\<lambda>_.
     bnd (upd_proc p (\<lambda>q. q\<lparr>trapframe := 0\<rparr>)) (\<lambda>_.
     bnd (get_proc p pagetable) (\<lambda>pt.
     bnd (get_proc p psz) (\<lambda>sz.
     bnd (guarded (pt \<noteq> 0) (proc_freepagetable pt sz)) (\<lambda>_.
     upd_proc p (\<lambda>q. q\<lparr>pagetable := 0, psz := 0, pid := 0, parent := None,
       pname := (pname q)[0 := 0], chan := None, killed := False, xstate := 0,
       state := UNUSED\<rparr>)))))))"

text \<open>\<open>find_unused\<close> is the search loop: it returns holding the lock of the process found.\<close>

primrec find_unused :: "nat list \<Rightarrow> ('z ptable_scheme, nat option) kmon" where
  "find_unused [] = ret None"
| "find_unused (p # ps) =
     bnd (acquire (plock p)) (\<lambda>_.
     bnd (get_proc p state) (\<lambda>st.
     if st = UNUSED then ret (Some p)
     else bnd (release (plock p)) (\<lambda>_. find_unused ps)))"

definition allocproc_found :: "nat \<Rightarrow> ('z ptable_scheme, nat option) kmon" where
  "allocproc_found p = bnd allocpid (\<lambda>pd.
     bnd (upd_proc p (\<lambda>q. q\<lparr>pid := pd\<rparr>)) (\<lambda>_.
     bnd (upd_proc p (\<lambda>q. q\<lparr>state := USED\<rparr>)) (\<lambda>_.
     bnd kalloc (\<lambda>tf.
     bnd (upd_proc p (\<lambda>q. q\<lparr>trapframe := tf\<rparr>)) (\<lambda>_.
     if tf = 0 then bnd (freeproc p) (\<lambda>_. bnd (release (plock p)) (\<lambda>_. ret None))
     else bnd (proc_pagetable tf) (\<lambda>pt.
       bnd (upd_proc p (\<lambda>q. q\<lparr>pagetable := pt\<rparr>)) (\<lambda>_.
       if pt = 0 then bnd (freeproc p) (\<lambda>_. bnd (release (plock p)) (\<lambda>_. ret None))
       else bnd (gets forkret_addr) (\<lambda>fr.
         bnd (upd_proc p (\<lambda>q. q\<lparr>ctx := (replicate 14 0)[0 := fr, 1 := kstack q + PGSIZE]\<rparr>)) (\<lambda>_.
         ret (Some p))))))))))"

definition allocproc :: "('z ptable_scheme, nat option) kmon" where
  "allocproc = bnd (find_unused [0..<NPROC]) (\<lambda>r.
     case r of None \<Rightarrow> ret None | Some p \<Rightarrow> allocproc_found p)"

text \<open>The last steps of \<open>fork\<close> for the child.\<close>

definition fork_start :: "nat \<Rightarrow> ('z ptable_scheme, unit) kmon" where
  "fork_start np = bnd (acquire (plock np)) (\<lambda>_.
     bnd (upd_proc np (\<lambda>n. n\<lparr>state := RUNNABLE\<rparr>)) (\<lambda>_.
     release (plock np)))"

text \<open>\<open>sz\<close> is a 32-bit \<open>uint\<close> in \<open>growproc\<close>.\<close>

definition growproc :: "int \<Rightarrow> ('z ptable_scheme, int) kmon" where
  "growproc n = bnd myproc (\<lambda>p.
     bnd (get_proc p pagetable) (\<lambda>pt.
     bnd (get_proc p psz) (\<lambda>psz0.
     let sz = ucast psz0 :: u32 in
     if n > 0
     then bnd (uvmalloc pt (ucast sz) (ucast (sz + word_of_int n))) (\<lambda>r.
       if (ucast r :: u32) = 0 then ret (- 1)
       else bnd (upd_proc p (\<lambda>q. q\<lparr>psz := ucast (ucast r :: u32)\<rparr>)) (\<lambda>_. ret 0))
     else if n < 0
     then bnd (uvmdealloc pt (ucast sz) (ucast (sz + word_of_int n))) (\<lambda>r.
       bnd (upd_proc p (\<lambda>q. q\<lparr>psz := ucast (ucast r :: u32)\<rparr>)) (\<lambda>_. ret 0))
     else bnd (upd_proc p (\<lambda>q. q\<lparr>psz := ucast sz\<rparr>)) (\<lambda>_. ret 0))))"

section \<open>Parents and children\<close>

text \<open>The channel of a process pointer; nothing sleeps on the null pointer.\<close>

definition proc_chan :: "nat option \<Rightarrow> channel" where
  "proc_chan p = (case p of None \<Rightarrow> Chan ''null'' 0 | Some i \<Rightarrow> Chan ''proc'' i)"

definition reparent :: "nat \<Rightarrow> ('z ptable_scheme, unit) kmon" where
  "reparent p = for_each (\<lambda>pp.
     bnd (get_proc pp parent) (\<lambda>par.
     guarded (par = Some p)
       (bnd (gets initproc) (\<lambda>ip.
        bnd (upd_proc pp (\<lambda>q. q\<lparr>parent := ip\<rparr>)) (\<lambda>_.
        wakeup (proc_chan ip)))))) [0..<NPROC]"

text \<open>The end of \<open>exit\<close>, up to its \<open>swtch\<close>.\<close>

definition exit_zombie :: "nat \<Rightarrow> int \<Rightarrow> ('z ptable_scheme, unit) kmon" where
  "exit_zombie p status = bnd (acquire wait_lock) (\<lambda>_.
     bnd (reparent p) (\<lambda>_.
     bnd (get_proc p parent) (\<lambda>par.
     bnd (wakeup (proc_chan par)) (\<lambda>_.
     bnd (acquire (plock p)) (\<lambda>_.
     bnd (upd_proc p (\<lambda>q. q\<lparr>xstate := status, state := ZOMBIE\<rparr>)) (\<lambda>_.
     bnd (release wait_lock) (\<lambda>_.
     sched)))))))"

text \<open>
  The scan of \<open>wait\<close>: \<open>Inl r\<close> when the function returns \<open>r\<close> from inside the loop, else whether
  there are children. The exit status is copied out as its four bytes.
\<close>

primrec wait_scan :: "nat \<Rightarrow> u64 \<Rightarrow> nat list \<Rightarrow> bool \<Rightarrow> ('z ptable_scheme, int + bool) kmon" where
  "wait_scan p addr [] havekids = ret (Inr havekids)"
| "wait_scan p addr (np # nps) havekids =
     bnd (get_proc np parent) (\<lambda>par.
     if par \<noteq> Some p then wait_scan p addr nps havekids
     else bnd (acquire (plock np)) (\<lambda>_.
       bnd (get_proc np state) (\<lambda>st.
       if st \<noteq> ZOMBIE then bnd (release (plock np)) (\<lambda>_. wait_scan p addr nps True)
       else bnd (get_proc np pid) (\<lambda>pd.
         bnd (get_proc p pagetable) (\<lambda>pt.
         bnd (get_proc np xstate) (\<lambda>xs.
         bnd (if addr \<noteq> 0 then copyout pt addr (le_bytes 4 (word_of_int xs :: u32)) else ret 0) (\<lambda>r.
         if r < 0
         then bnd (release (plock np)) (\<lambda>_. bnd (release wait_lock) (\<lambda>_. ret (Inl (- 1))))
         else bnd (freeproc np) (\<lambda>_.
           bnd (release (plock np)) (\<lambda>_.
           bnd (release wait_lock) (\<lambda>_.
           ret (Inl pd)))))))))))"

definition wait :: "u64 \<Rightarrow> ('z ptable_scheme, int) kmon" where
  "wait addr = bnd myproc (\<lambda>p.
     bnd (acquire wait_lock) (\<lambda>_.
     bnd (wait_scan p addr [0..<NPROC] False) (\<lambda>r.
     case r of Inl v \<Rightarrow> ret v
     | Inr havekids \<Rightarrow>
       bnd (get_proc p killed) (\<lambda>k.
       if \<not> havekids \<or> k then bnd (release wait_lock) (\<lambda>_. ret (- 1))
       else sleep (Chan ''proc'' p) wait_lock))))"

section \<open>Copying to and from user or kernel addresses\<close>

definition either_copyout :: "bool \<Rightarrow> u64 \<Rightarrow> u8 list \<Rightarrow> ('z ptable_scheme, int) kmon" where
  "either_copyout user_dst dst src = bnd myproc (\<lambda>p.
     if user_dst then bnd (get_proc p pagetable) (\<lambda>pt. copyout pt dst src)
     else bnd (kput dst src) (\<lambda>_. ret 0))"

definition either_copyin :: "bool \<Rightarrow> u64 \<Rightarrow> nat \<Rightarrow> ('z ptable_scheme, int \<times> u8 list) kmon" where
  "either_copyin user_src src len = bnd myproc (\<lambda>p.
     if user_src then bnd (get_proc p pagetable) (\<lambda>pt. copyin pt src len)
     else bnd (kget src len) (\<lambda>bs. ret (0, bs)))"

end
