(* ===== verification/Sleeplock.thy ===== *)
theory Sleeplock
  imports Proc
begin

text \<open>
  Sleep locks, \<open>kernel/sleeplock.c\<close>. A sleep lock is named like a spin lock; its inner spin lock
  \<open>lk->lk\<close> is \<open>inner l\<close> and its sleep channel \<open>sl_chan l\<close>.
\<close>

record sleeplock =
  sl_locked :: bool
  sl_pid :: int

record slocks = ptable +
  sleeplocks :: "lock \<Rightarrow> sleeplock"

definition inner :: "lock \<Rightarrow> lock" where
  "inner l = (case l of Lock n i \<Rightarrow> Lock (''sleep lock '' @ n) i)"

definition sl_chan :: "lock \<Rightarrow> channel" where
  "sl_chan l = (case l of Lock n i \<Rightarrow> Chan (''sleep lock '' @ n) i)"

definition upd_sl :: "lock \<Rightarrow> (sleeplock \<Rightarrow> sleeplock) \<Rightarrow> ('z slocks_scheme, unit) kmon" where
  "upd_sl l f = modify (\<lambda>s. s\<lparr>sleeplocks := (sleeplocks s)(l := f (sleeplocks s l))\<rparr>)"

definition initsleeplock :: "lock \<Rightarrow> ('z slocks_scheme, unit) kmon" where
  "initsleeplock l = upd_sl l (\<lambda>_. \<lparr>sl_locked = False, sl_pid = 0\<rparr>)"

definition acquiresleep :: "lock \<Rightarrow> ('z slocks_scheme, unit) kmon" where
  "acquiresleep l = bnd (acquire (inner l)) (\<lambda>_.
     bnd (gets (\<lambda>s. sl_locked (sleeplocks s l))) (\<lambda>busy.
     if busy then sleep (sl_chan l) (inner l)
     else bnd (upd_sl l (\<lambda>k. k\<lparr>sl_locked := True\<rparr>)) (\<lambda>_.
       bnd myproc (\<lambda>p.
       bnd (get_proc p pid) (\<lambda>pd.
       bnd (upd_sl l (\<lambda>k. k\<lparr>sl_pid := pd\<rparr>)) (\<lambda>_.
       release (inner l)))))))"

definition releasesleep :: "lock \<Rightarrow> ('z slocks_scheme, unit) kmon" where
  "releasesleep l = bnd (acquire (inner l)) (\<lambda>_.
     bnd (upd_sl l (\<lambda>k. k\<lparr>sl_locked := False, sl_pid := 0\<rparr>)) (\<lambda>_.
     bnd (wakeup (sl_chan l)) (\<lambda>_.
     release (inner l))))"

definition holdingsleep :: "lock \<Rightarrow> ('z slocks_scheme, bool) kmon" where
  "holdingsleep l = bnd (acquire (inner l)) (\<lambda>_.
     bnd (gets (\<lambda>s. sleeplocks s l)) (\<lambda>k.
     bnd (if sl_locked k
       then bnd myproc (\<lambda>p. bnd (get_proc p pid) (\<lambda>pd. ret (sl_pid k = pd)))
       else ret False) (\<lambda>r.
     bnd (release (inner l)) (\<lambda>_.
     ret r))))"

end
