(* ===== verification/Virtio.thy ===== *)
theory Virtio
  imports Sleeplock
begin

unbundle bit_operations_syntax

text \<open>
  The virtio disk driver, \<open>kernel/virtio_disk.c\<close>, and the buffers it transfers. The descriptor
  table, the two rings and the driver's book-keeping are the fields of \<open>vdisk\<close>; an address put
  in a descriptor is named by the object it points to.

  The device itself is not part of the program: \<open>serve\<close> is what it does for one request, a
  parameter that the driver only reaches through the rings, and \<open>blk_device\<close> is what the virtio
  specification promises of it.
\<close>

section \<open>State\<close>

definition BSIZE :: nat where [simp]: "BSIZE = 1024"

definition NUM :: nat where [simp]: "NUM = 8"

definition VRING_DESC_F_NEXT :: u16 where [simp]: "VRING_DESC_F_NEXT = 1"

definition VRING_DESC_F_WRITE :: u16 where [simp]: "VRING_DESC_F_WRITE = 2"

definition VIRTIO_BLK_T_IN :: u32 where [simp]: "VIRTIO_BLK_T_IN = 0"

definition VIRTIO_BLK_T_OUT :: u32 where [simp]: "VIRTIO_BLK_T_OUT = 1"

record buf =
  valid :: bool
  bdisk :: bool
  dev :: u32
  blockno :: u32
  refcnt :: u32
  bprev :: nat
  bnext :: nat
  data :: "u8 list"

datatype dma = Null | OpsAddr nat | DataAddr nat | StatusAddr nat

record virtq_desc =
  daddr :: dma
  dlen :: u32
  flags :: u16
  dnext :: u16

record virtio_blk_req =
  rtype :: u32
  reserved :: u32
  sector :: u64

record disk_info =
  info_b :: "nat option"
  info_status :: u8

text \<open>
  \<open>dev_avail\<close> is the device's own position in the avail ring, \<open>platter\<close> what it stores, by
  sector, \<open>written\<close> the write requests it has completed, oldest first, \<open>serve\<close> its behaviour:
  type, sector, buffer and platter before, to platter, buffer and status after.
\<close>

record vdisk = slocks +
  bufs :: "nat \<Rightarrow> buf"
  desc :: "nat \<Rightarrow> virtq_desc"
  avail_idx :: u16
  avail_ring :: "nat \<Rightarrow> u16"
  used_idx :: u16
  used_ring :: "nat \<Rightarrow> u32"
  vfree :: "nat \<Rightarrow> bool"
  seen_idx :: u16
  info :: "nat \<Rightarrow> disk_info"
  ops :: "nat \<Rightarrow> virtio_blk_req"
  dev_avail :: u16
  platter :: "u64 \<Rightarrow> u8 list"
  written :: "(u64 \<times> u8 list) list"
  serve :: "u32 \<Rightarrow> u64 \<Rightarrow> u8 list \<Rightarrow> (u64 \<Rightarrow> u8 list) \<Rightarrow> (u64 \<Rightarrow> u8 list) \<times> u8 list \<times> u8"

abbreviation vdisk_lock :: lock where
  "vdisk_lock \<equiv> Lock ''virtio_disk'' 0"

definition blk_device ::
  "(u32 \<Rightarrow> u64 \<Rightarrow> u8 list \<Rightarrow> (u64 \<Rightarrow> u8 list) \<Rightarrow> (u64 \<Rightarrow> u8 list) \<times> u8 list \<times> u8) \<Rightarrow> bool" where
  "blk_device sv \<longleftrightarrow>
     (\<forall>sec buf pl. length buf = BSIZE \<longrightarrow> sv VIRTIO_BLK_T_OUT sec buf pl = (pl(sec := buf), buf, 0)) \<and>
     (\<forall>sec buf pl. sv VIRTIO_BLK_T_IN sec buf pl = (pl, pl sec, 0))"

definition upd_buf :: "nat \<Rightarrow> (buf \<Rightarrow> buf) \<Rightarrow> ('z vdisk_scheme, unit) kmon" where
  "upd_buf b f = modify (\<lambda>s. s\<lparr>bufs := (bufs s)(b := f (bufs s b))\<rparr>)"

definition get_buf :: "nat \<Rightarrow> (buf \<Rightarrow> 'b) \<Rightarrow> ('z vdisk_scheme, 'b) kmon" where
  "get_buf b f = gets (\<lambda>s. f (bufs s b))"

definition upd_desc :: "nat \<Rightarrow> (virtq_desc \<Rightarrow> virtq_desc) \<Rightarrow> ('z vdisk_scheme, unit) kmon" where
  "upd_desc i f = modify (\<lambda>s. s\<lparr>desc := (desc s)(i := f (desc s i))\<rparr>)"

section \<open>Descriptors\<close>

primrec alloc_desc_from :: "nat list \<Rightarrow> ('z vdisk_scheme, nat option) kmon" where
  "alloc_desc_from [] = ret None"
| "alloc_desc_from (i # js) =
     bnd (gets (\<lambda>s. vfree s i)) (\<lambda>f.
     if f then bnd (modify (\<lambda>s. s\<lparr>vfree := (vfree s)(i := False)\<rparr>)) (\<lambda>_. ret (Some i))
     else alloc_desc_from js)"

definition alloc_desc :: "('z vdisk_scheme, nat option) kmon" where
  "alloc_desc = alloc_desc_from [0..<NUM]"

definition free_desc :: "nat \<Rightarrow> ('z vdisk_scheme, unit) kmon" where
  "free_desc i =
     (if i \<ge> NUM then panic ''free_desc 1''
      else bnd (gets (\<lambda>s. vfree s i)) (\<lambda>f.
        if f then panic ''free_desc 2''
        else bnd (upd_desc i (\<lambda>_. \<lparr>daddr = Null, dlen = 0, flags = 0, dnext = 0\<rparr>)) (\<lambda>_.
          bnd (modify (\<lambda>s. s\<lparr>vfree := (vfree s)(i := True)\<rparr>)) (\<lambda>_.
          wakeup (Chan ''disk.free'' 0)))))"

lemma wakeup_keeps_vdisk:
  "keeps vfree (wakeup ch)" "keeps used_idx (wakeup ch)" "keeps seen_idx (wakeup ch)"
  by (intro keeps_wakeup; simp)+

lemma free_desc_Ok:
  assumes "free_desc i s = Ok x t"
  shows "i < NUM" and "\<not> vfree s i" and "vfree t = (vfree s)(i := True)"
proof -
  from assms show "i < NUM" and "\<not> vfree s i"
    by (auto simp: free_desc_def bnd_eq_Ok split: if_splits)
  from assms show "vfree t = (vfree s)(i := True)"
    by (auto simp: free_desc_def bnd_eq_Ok upd_desc_def split: if_splits
        dest!: keepsD [OF wakeup_keeps_vdisk(1)])
qed

function free_chain :: "nat \<Rightarrow> 'z vdisk_scheme \<Rightarrow> (unit, 'z vdisk_scheme) outcome" where
  "free_chain i s =
     bnd (gets (\<lambda>s. desc s i)) (\<lambda>d t.
       bnd (free_desc i) (\<lambda>_ t.
         if flags d AND VRING_DESC_F_NEXT \<noteq> 0 then free_chain (unat (dnext d)) t
         else Ok () t) t) s"
  by pat_completeness auto
termination
proof (relation "measure (\<lambda>(i, s). card {j. j < NUM \<and> \<not> vfree s j})", simp)
  fix i and s t t' :: "'z vdisk_scheme" and d :: virtq_desc and x
  assume "gets (\<lambda>s. desc s i) s = Ok d t" and "free_desc i t = Ok x t'"
  then have f: "i < NUM" "\<not> vfree s i" "vfree t' = (vfree s)(i := True)"
    using free_desc_Ok [of i s x t'] by auto
  then have "{j. j < NUM \<and> \<not> vfree t' j} \<subset> {j. j < NUM \<and> \<not> vfree s j}" by auto
  then show "((unat (dnext d), t'), i, s) \<in> measure (\<lambda>(i, s). card {j. j < NUM \<and> \<not> vfree s j})"
    by (simp add: psubset_card_mono)
qed

declare free_chain.simps [simp del]

text \<open>\<open>alloc3_desc\<close>: the three descriptors, or \<open>None\<close> with those taken given back.\<close>

primrec alloc_descs :: "nat \<Rightarrow> nat list \<Rightarrow> ('z vdisk_scheme, nat list option) kmon" where
  "alloc_descs 0 idx = ret (Some idx)"
| "alloc_descs (Suc n) idx = bnd alloc_desc (\<lambda>r.
     case r of None \<Rightarrow> bnd (for_each free_desc idx) (\<lambda>_. ret None)
     | Some i \<Rightarrow> alloc_descs n (idx @ [i]))"

definition alloc3_desc :: "('z vdisk_scheme, nat list option) kmon" where
  "alloc3_desc = alloc_descs 3 []"

section \<open>Requests\<close>

text \<open>The device takes the requests of the avail ring in turn and puts them in the used ring.\<close>

definition device_serve :: "('z vdisk_scheme, unit) kmon" where
  "device_serve = modify (\<lambda>s.
     let head = unat (avail_ring s (unat (dev_avail s) mod NUM));
         d0 = desc s head; d1 = desc s (unat (dnext d0)); d2 = desc s (unat (dnext d1))
     in case (daddr d0, daddr d1, daddr d2) of
       (OpsAddr k, DataAddr b, StatusAddr j) \<Rightarrow>
         (case serve s (rtype (ops s k)) (sector (ops s k)) (data (bufs s b)) (platter s) of
           (pl, bs, st) \<Rightarrow>
             s\<lparr>platter := pl,
               written := written s @ (if rtype (ops s k) = VIRTIO_BLK_T_OUT then [(sector (ops s k), data (bufs s b))] else []),
               bufs := (bufs s)(b := (bufs s b)\<lparr>data := bs\<rparr>),
               info := (info s)(j := (info s j)\<lparr>info_status := st\<rparr>),
               used_ring := (used_ring s)(unat (used_idx s) mod NUM := of_nat head),
               used_idx := used_idx s + 1, dev_avail := dev_avail s + 1\<rparr>)
     | _ \<Rightarrow> s)"

function virtio_disk_intr_loop :: "'z vdisk_scheme \<Rightarrow> (unit, 'z vdisk_scheme) outcome" where
  "virtio_disk_intr_loop s =
     (if seen_idx s \<noteq> used_idx s
      then let id = unat (used_ring s (unat (seen_idx s) mod NUM)) in
        if info_status (info s id) \<noteq> 0 then Halt (Panic ''virtio_disk_intr status'') s
        else case info_b (info s id) of None \<Rightarrow> Halt (Fault 0) s
        | Some b \<Rightarrow>
          bnd (bnd (upd_buf b (\<lambda>x. x\<lparr>bdisk := False\<rparr>)) (\<lambda>_. wakeup (Chan ''buf'' b)))
            (\<lambda>_ t. virtio_disk_intr_loop (t\<lparr>seen_idx := seen_idx t + 1\<rparr>)) s
      else Ok () s)"
  by pat_completeness auto

termination
proof (relation "measure (\<lambda>s. unat (used_idx s - seen_idx s))", simp)
  fix s t :: "'z vdisk_scheme" and id b x
  assume ne: "seen_idx s \<noteq> used_idx s"
    and ok: "bnd (upd_buf b (\<lambda>x. x\<lparr>bdisk := False\<rparr>)) (\<lambda>_. wakeup (Chan ''buf'' b)) s = Ok x t"
  from ok have "used_idx t = used_idx s"
    by (auto simp: bnd_eq_Ok upd_buf_def dest!: keepsD [OF wakeup_keeps_vdisk(2)])
  moreover from ok have "seen_idx t = seen_idx s"
    by (auto simp: bnd_eq_Ok upd_buf_def dest!: keepsD [OF wakeup_keeps_vdisk(3)])
  moreover have "unat (used_idx s - (seen_idx s + 1)) < unat (used_idx s - seen_idx s)"
    using ne by (simp add: diff_diff_eq [symmetric] measure_unat)
  ultimately show "(t\<lparr>seen_idx := seen_idx t + 1\<rparr>, s) \<in> measure (\<lambda>s. unat (used_idx s - seen_idx s))"
    by simp
qed

declare virtio_disk_intr_loop.simps [simp del]

definition virtio_disk_intr :: "('z vdisk_scheme, unit) kmon" where
  "virtio_disk_intr = bnd (acquire vdisk_lock) (\<lambda>_.
     bnd virtio_disk_intr_loop (\<lambda>_. release vdisk_lock))"

text \<open>
  The three descriptors of a request, and its entry in the avail ring. The wait at the end is
  modelled with the device serving the request and its interrupt.
\<close>

definition virtio_format :: "nat \<Rightarrow> bool \<Rightarrow> nat \<Rightarrow> nat \<Rightarrow> nat \<Rightarrow> ('z vdisk_scheme, unit) kmon" where
  "virtio_format b write i0 i1 i2 =
     bnd (get_buf b blockno) (\<lambda>bn.
     bnd (modify (\<lambda>s. s\<lparr>ops := (ops s)(i0 :=
       \<lparr>rtype = (if write then VIRTIO_BLK_T_OUT else VIRTIO_BLK_T_IN), reserved = 0,
        sector = ucast (bn * 2)\<rparr>)\<rparr>)) (\<lambda>_.
     bnd (upd_desc i0 (\<lambda>_. \<lparr>daddr = OpsAddr i0, dlen = 16, flags = VRING_DESC_F_NEXT,
       dnext = of_nat i1\<rparr>)) (\<lambda>_.
     bnd (upd_desc i1 (\<lambda>_. \<lparr>daddr = DataAddr b, dlen = of_nat BSIZE,
       flags = (if write then 0 else VRING_DESC_F_WRITE) OR VRING_DESC_F_NEXT, dnext = of_nat i2\<rparr>)) (\<lambda>_.
     bnd (modify (\<lambda>s. s\<lparr>info := (info s)(i0 := (info s i0)\<lparr>info_status := 0xff\<rparr>)\<rparr>)) (\<lambda>_.
     bnd (upd_desc i2 (\<lambda>_. \<lparr>daddr = StatusAddr i0, dlen = 1, flags = VRING_DESC_F_WRITE,
       dnext = 0\<rparr>)) (\<lambda>_.
     bnd (upd_buf b (\<lambda>x. x\<lparr>bdisk := True\<rparr>)) (\<lambda>_.
     bnd (modify (\<lambda>s. s\<lparr>info := (info s)(i0 := (info s i0)\<lparr>info_b := Some b\<rparr>)\<rparr>)) (\<lambda>_.
     modify (\<lambda>s. s\<lparr>avail_ring := (avail_ring s)(unat (avail_idx s) mod NUM := of_nat i0),
       avail_idx := avail_idx s + 1\<rparr>)))))))))"

definition virtio_disk_rw :: "nat \<Rightarrow> bool \<Rightarrow> ('z vdisk_scheme, unit) kmon" where
  "virtio_disk_rw b write = bnd (acquire vdisk_lock) (\<lambda>_.
     bnd alloc3_desc (\<lambda>r.
     case r of
       Some [i0, i1, i2] \<Rightarrow>
         bnd (virtio_format b write i0 i1 i2) (\<lambda>_.
         bnd (get_buf b bdisk) (\<lambda>busy.
         bnd (guarded busy (sleep_until (Chan ''buf'' b) vdisk_lock
           (bnd device_serve (\<lambda>_. virtio_disk_intr)))) (\<lambda>_.
         bnd (get_buf b bdisk) (\<lambda>busy.
         if busy then sleep (Chan ''buf'' b) vdisk_lock
         else bnd (modify (\<lambda>s. s\<lparr>info := (info s)(i0 := (info s i0)\<lparr>info_b := None\<rparr>)\<rparr>)) (\<lambda>_.
         bnd (free_chain i0) (\<lambda>_.
         release vdisk_lock))))))
     | _ \<Rightarrow> sleep (Chan ''disk.free'' 0) vdisk_lock))"

end
