(* ===== verification/Bio.thy ===== *)
theory Bio
  imports Virtio
begin

text \<open>
  The buffer cache, \<open>kernel/bio.c\<close>. \<open>bcache.head\<close> is the buffer with index \<open>NBUF\<close>; the list of
  all buffers goes through \<open>bprev\<close> and \<open>bnext\<close>, most recently used first. A traversal of the list
  gets \<open>NBUF + 1\<close> steps, which is enough whenever the list is well formed.
\<close>

abbreviation bcache_lock :: lock where
  "bcache_lock \<equiv> Lock ''bcache'' 0"

abbreviation buf_lock :: "nat \<Rightarrow> lock" where
  "buf_lock b \<equiv> Lock ''buffer'' b"

abbreviation BHEAD :: nat where
  "BHEAD \<equiv> NBUF"

section \<open>Operations\<close>

definition push_front :: "nat \<Rightarrow> ('z vdisk_scheme, unit) kmon" where
  "push_front b = bnd (get_buf BHEAD bnext) (\<lambda>h.
     bnd (upd_buf b (\<lambda>x. x\<lparr>bnext := h\<rparr>)) (\<lambda>_.
     bnd (upd_buf b (\<lambda>x. x\<lparr>bprev := BHEAD\<rparr>)) (\<lambda>_.
     bnd (get_buf BHEAD bnext) (\<lambda>h.
     bnd (upd_buf h (\<lambda>x. x\<lparr>bprev := b\<rparr>)) (\<lambda>_.
     upd_buf BHEAD (\<lambda>x. x\<lparr>bnext := b\<rparr>))))))"

definition binit :: "('z vdisk_scheme, unit) kmon" where
  "binit = bnd (upd_buf BHEAD (\<lambda>x. x\<lparr>bprev := BHEAD, bnext := BHEAD\<rparr>)) (\<lambda>_.
     for_each (\<lambda>b. bnd (push_front b) (\<lambda>_. initsleeplock (buf_lock b))) [0..<NBUF])"

text \<open>
  The two loops of \<open>bget\<close>: follow \<open>dir\<close> from \<open>b\<close> until the head; \<open>None\<close> when the steps run out.
\<close>

primrec buf_search ::
  "nat \<Rightarrow> (buf \<Rightarrow> nat) \<Rightarrow> (buf \<Rightarrow> bool) \<Rightarrow> (nat \<Rightarrow> buf) \<Rightarrow> nat \<Rightarrow> nat option option" where
  "buf_search 0 dir P bs b = None"
| "buf_search (Suc n) dir P bs b =
     (if b = BHEAD then Some None
      else if P (bs b) then Some (Some b)
      else buf_search n dir P bs (dir (bs b)))"

definition bget :: "u32 \<Rightarrow> u32 \<Rightarrow> ('z vdisk_scheme, nat) kmon" where
  "bget d bn = bnd (acquire bcache_lock) (\<lambda>_.
     bnd (gets bufs) (\<lambda>bs.
     case buf_search (Suc NBUF) bnext (\<lambda>x. dev x = d \<and> blockno x = bn) bs (bnext (bs BHEAD)) of
       None \<Rightarrow> stop (Blocked ''bcache list'')
     | Some (Some b) \<Rightarrow>
         bnd (upd_buf b (\<lambda>x. x\<lparr>refcnt := refcnt x + 1\<rparr>)) (\<lambda>_.
         bnd (release bcache_lock) (\<lambda>_.
         bnd (acquiresleep (buf_lock b)) (\<lambda>_.
         ret b)))
     | Some None \<Rightarrow>
       (case buf_search (Suc NBUF) bprev (\<lambda>x. refcnt x = 0) bs (bprev (bs BHEAD)) of
          None \<Rightarrow> stop (Blocked ''bcache list'')
        | Some None \<Rightarrow> panic ''bget: no buffers''
        | Some (Some b) \<Rightarrow>
            bnd (upd_buf b (\<lambda>x. x\<lparr>dev := d, blockno := bn, valid := False, refcnt := 1\<rparr>)) (\<lambda>_.
            bnd (release bcache_lock) (\<lambda>_.
            bnd (acquiresleep (buf_lock b)) (\<lambda>_.
            ret b))))))"

definition bread :: "u32 \<Rightarrow> u32 \<Rightarrow> ('z vdisk_scheme, nat) kmon" where
  "bread d bn = bnd (bget d bn) (\<lambda>b.
     bnd (get_buf b valid) (\<lambda>v.
     bnd (guarded (\<not> v)
       (bnd (virtio_disk_rw b False) (\<lambda>_. upd_buf b (\<lambda>x. x\<lparr>valid := True\<rparr>)))) (\<lambda>_.
     ret b)))"

definition bwrite :: "nat \<Rightarrow> ('z vdisk_scheme, unit) kmon" where
  "bwrite b = bnd (holdingsleep (buf_lock b)) (\<lambda>h.
     if \<not> h then panic ''bwrite'' else virtio_disk_rw b True)"

definition unlink_buf :: "nat \<Rightarrow> ('z vdisk_scheme, unit) kmon" where
  "unlink_buf b = bnd (get_buf b bnext) (\<lambda>n.
     bnd (get_buf b bprev) (\<lambda>p.
     bnd (upd_buf n (\<lambda>x. x\<lparr>bprev := p\<rparr>)) (\<lambda>_.
     bnd (get_buf b bprev) (\<lambda>p.
     bnd (get_buf b bnext) (\<lambda>n.
     upd_buf p (\<lambda>x. x\<lparr>bnext := n\<rparr>))))))"

definition brelse :: "nat \<Rightarrow> ('z vdisk_scheme, unit) kmon" where
  "brelse b = bnd (holdingsleep (buf_lock b)) (\<lambda>h.
     if \<not> h then panic ''brelse''
     else bnd (releasesleep (buf_lock b)) (\<lambda>_.
       bnd (acquire bcache_lock) (\<lambda>_.
       bnd (upd_buf b (\<lambda>x. x\<lparr>refcnt := refcnt x - 1\<rparr>)) (\<lambda>_.
       bnd (get_buf b refcnt) (\<lambda>r.
       bnd (guarded (r = 0) (bnd (unlink_buf b) (\<lambda>_. push_front b))) (\<lambda>_.
       release bcache_lock))))))"

definition bpin :: "nat \<Rightarrow> ('z vdisk_scheme, unit) kmon" where
  "bpin b = bnd (acquire bcache_lock) (\<lambda>_.
     bnd (upd_buf b (\<lambda>x. x\<lparr>refcnt := refcnt x + 1\<rparr>)) (\<lambda>_.
     release bcache_lock))"

definition bunpin :: "nat \<Rightarrow> ('z vdisk_scheme, unit) kmon" where
  "bunpin b = bnd (acquire bcache_lock) (\<lambda>_.
     bnd (upd_buf b (\<lambda>x. x\<lparr>refcnt := refcnt x - 1\<rparr>)) (\<lambda>_.
     release bcache_lock))"

end
