(* ===== verification/Log.thy ===== *)
theory Log
  imports Bio
begin

text \<open>
  The redo log, \<open>kernel/log.c\<close>. The header block on disk holds the number of logged blocks and
  their home locations; \<open>log_blocks\<close> is its in-memory copy \<open>log.lh.block\<close>, an array of \<open>LOGSIZE\<close>
  entries. An access beyond the array, undefined in C, stops the run with a fault.
\<close>

record superblock =
  magic :: u32
  fssize :: u32
  nblocks :: u32
  ninodes :: u32
  nlog :: u32
  logstart :: u32
  inodestart :: u32
  bmapstart :: u32

record log = vdisk +
  log_start :: int
  log_size :: int
  outstanding :: int
  committing :: bool
  log_dev :: u32
  log_n :: int
  log_blocks :: "u32 list"

abbreviation log_lock :: lock where
  "log_lock \<equiv> Lock ''log'' 0"

definition set_data :: "nat \<Rightarrow> u8 list \<Rightarrow> ('z vdisk_scheme, unit) kmon" where
  "set_data b bs = upd_buf b (\<lambda>x. x\<lparr>data := bs\<rparr>)"

definition log_block :: "nat \<Rightarrow> ('z log_scheme, u32) kmon" where
  "log_block i = bnd (gets log_blocks) (\<lambda>bs. if i < length bs then ret (bs ! i) else stop (Fault 0))"

section \<open>Copying between the log and the home locations\<close>

definition install_one :: "bool \<Rightarrow> nat \<Rightarrow> ('z log_scheme, unit) kmon" where
  "install_one recovering tail =
     bnd (gets log_dev) (\<lambda>d.
     bnd (gets log_start) (\<lambda>st.
     bnd (bread d (word_of_int (st + int tail + 1))) (\<lambda>lbuf.
     bnd (log_block tail) (\<lambda>bn.
     bnd (bread d bn) (\<lambda>dbuf.
     bnd (get_buf lbuf data) (\<lambda>bs.
     bnd (set_data dbuf bs) (\<lambda>_.
     bnd (bwrite dbuf) (\<lambda>_.
     bnd (guarded (\<not> recovering) (bunpin dbuf)) (\<lambda>_.
     bnd (brelse lbuf) (\<lambda>_.
     brelse dbuf))))))))))"

definition install_trans :: "bool \<Rightarrow> ('z log_scheme, unit) kmon" where
  "install_trans recovering = bnd (gets log_n) (\<lambda>n. for_each (install_one recovering) [0..<nat n])"

definition read_head :: "('z log_scheme, unit) kmon" where
  "read_head = bnd (gets log_dev) (\<lambda>d.
     bnd (gets log_start) (\<lambda>st.
     bnd (bread d (word_of_int st)) (\<lambda>buf.
     bnd (get_buf buf data) (\<lambda>bs.
     let n = sint (get32 bs 0) in
     bnd (modify (\<lambda>s. s\<lparr>log_n := n\<rparr>)) (\<lambda>_.
     if n > int LOGSIZE then stop (Fault 0)
     else bnd (modify (\<lambda>s. s\<lparr>log_blocks :=
         map (\<lambda>i. get32 bs (4 + 4 * i)) [0..<nat n] @ drop (nat n) (log_blocks s)\<rparr>)) (\<lambda>_.
       brelse buf))))))"

definition write_head :: "('z log_scheme, unit) kmon" where
  "write_head = bnd (gets log_dev) (\<lambda>d.
     bnd (gets log_start) (\<lambda>st.
     bnd (bread d (word_of_int st)) (\<lambda>buf.
     bnd (get_buf buf data) (\<lambda>bs.
     bnd (gets log_n) (\<lambda>n.
     bnd (gets log_blocks) (\<lambda>blks.
     if n > int (length blks) then stop (Fault 0)
     else bnd (set_data buf
         (fold (\<lambda>i hb. put32 hb (4 + 4 * i) (blks ! i)) [0..<nat n] (put32 bs 0 (word_of_int n)))) (\<lambda>_.
       bnd (bwrite buf) (\<lambda>_.
       brelse buf))))))))"

definition recover_from_log :: "('z log_scheme, unit) kmon" where
  "recover_from_log = bnd read_head (\<lambda>_.
     bnd (install_trans True) (\<lambda>_.
     bnd (modify (\<lambda>s. s\<lparr>log_n := 0\<rparr>)) (\<lambda>_.
     write_head)))"

definition initlog :: "u32 \<Rightarrow> superblock \<Rightarrow> ('z log_scheme, unit) kmon" where
  "initlog d sb = bnd (modify (\<lambda>s. s\<lparr>log_start := sint (logstart sb), log_size := sint (nlog sb), log_dev := d\<rparr>)) (\<lambda>_.
     recover_from_log)"

definition write_log_one :: "nat \<Rightarrow> ('z log_scheme, unit) kmon" where
  "write_log_one tail =
     bnd (gets log_dev) (\<lambda>d.
     bnd (gets log_start) (\<lambda>st.
     bnd (bread d (word_of_int (st + int tail + 1))) (\<lambda>to.
     bnd (log_block tail) (\<lambda>bn.
     bnd (bread d bn) (\<lambda>from_buf.
     bnd (get_buf from_buf data) (\<lambda>bs.
     bnd (set_data to bs) (\<lambda>_.
     bnd (bwrite to) (\<lambda>_.
     bnd (brelse from_buf) (\<lambda>_.
     brelse to)))))))))"

definition write_log :: "('z log_scheme, unit) kmon" where
  "write_log = bnd (gets log_n) (\<lambda>n. for_each write_log_one [0..<nat n])"

definition commit :: "('z log_scheme, unit) kmon" where
  "commit = bnd (gets log_n) (\<lambda>n.
     guarded (n > 0)
       (bnd write_log (\<lambda>_.
        bnd write_head (\<lambda>_.
        bnd (install_trans False) (\<lambda>_.
        bnd (modify (\<lambda>s. s\<lparr>log_n := 0\<rparr>)) (\<lambda>_.
        write_head))))))"

section \<open>Operations\<close>

definition begin_op :: "('z log_scheme, unit) kmon" where
  "begin_op = bnd (acquire log_lock) (\<lambda>_.
     bnd (gets committing) (\<lambda>c.
     if c then sleep (Chan ''log'' 0) log_lock
     else bnd (gets (\<lambda>s. log_n s + (outstanding s + 1) * int MAXOPBLOCKS)) (\<lambda>need.
       if need > int LOGSIZE then sleep (Chan ''log'' 0) log_lock
       else bnd (modify (\<lambda>s. s\<lparr>outstanding := outstanding s + 1\<rparr>)) (\<lambda>_.
         release log_lock))))"

definition end_op :: "('z log_scheme, unit) kmon" where
  "end_op = bnd (acquire log_lock) (\<lambda>_.
     bnd (modify (\<lambda>s. s\<lparr>outstanding := outstanding s - 1\<rparr>)) (\<lambda>_.
     bnd (gets committing) (\<lambda>c.
     if c then panic ''log.committing''
     else bnd (gets outstanding) (\<lambda>n.
       let do_commit = (n = 0) in
       bnd (if do_commit then modify (\<lambda>s. s\<lparr>committing := True\<rparr>) else wakeup (Chan ''log'' 0)) (\<lambda>_.
       bnd (release log_lock) (\<lambda>_.
       guarded do_commit
         (bnd commit (\<lambda>_.
          bnd (acquire log_lock) (\<lambda>_.
          bnd (modify (\<lambda>s. s\<lparr>committing := False\<rparr>)) (\<lambda>_.
          bnd (wakeup (Chan ''log'' 0)) (\<lambda>_.
          release log_lock)))))))))))"

text \<open>The index of a block number among the first \<open>n\<close> log entries, \<open>n\<close> when it is not there.\<close>

definition absorb_index :: "u32 list \<Rightarrow> nat \<Rightarrow> u32 \<Rightarrow> nat" where
  "absorb_index blks n bn = length (takeWhile (\<lambda>x. x \<noteq> bn) (take n blks))"

definition log_write :: "nat \<Rightarrow> ('z log_scheme, unit) kmon" where
  "log_write b = bnd (acquire log_lock) (\<lambda>_.
     bnd (gets log_n) (\<lambda>n.
     bnd (gets log_size) (\<lambda>sz.
     if n \<ge> int LOGSIZE \<or> n \<ge> sz - 1 then panic ''too big a transaction''
     else bnd (gets outstanding) (\<lambda>out.
       if out < 1 then panic ''log_write outside of trans''
       else bnd (get_buf b blockno) (\<lambda>bn.
         bnd (gets (\<lambda>s. absorb_index (log_blocks s) (nat n) bn)) (\<lambda>i.
         bnd (modify (\<lambda>s. s\<lparr>log_blocks := (log_blocks s)[i := bn]\<rparr>)) (\<lambda>_.
         bnd (guarded (int i = n) (bnd (bpin b) (\<lambda>_. modify (\<lambda>s. s\<lparr>log_n := n + 1\<rparr>)))) (\<lambda>_.
         release log_lock))))))))"

end
