(* ===== verification/Fs.thy ===== *)
theory Fs
  imports Log
begin

unbundle bit_operations_syntax

text \<open>
  The file system, \<open>kernel/fs.c\<close>: superblock, block bitmap, inode table, file contents,
  directories and path names. On-disk structures are read and written in the data of buffers at
  the offsets of the C structures. An inode pointer is an index into \<open>itable.inode\<close>, \<open>None\<close> the
  null pointer; a path or a directory name is the list of its bytes without the terminating zero.
\<close>

section \<open>State and layout\<close>

definition ROOTINO :: u32 where [simp]: "ROOTINO = 1"

definition ROOTDEV :: u32 where [simp]: "ROOTDEV = 1"

definition FSMAGIC :: u32 where [simp]: "FSMAGIC = 0x10203040"

definition NDIRECT :: nat where [simp]: "NDIRECT = 12"

definition NINDIRECT :: nat where [simp]: "NINDIRECT = 256"

definition MAXFILE :: nat where [simp]: "MAXFILE = 268"

definition IPB :: nat where [simp]: "IPB = 16"

definition BPB :: nat where [simp]: "BPB = 8192"

definition DIRSIZ :: nat where [simp]: "DIRSIZ = 14"

definition T_DIR :: u16 where [simp]: "T_DIR = 1"

definition T_FILE :: u16 where [simp]: "T_FILE = 2"

definition T_DEVICE :: u16 where [simp]: "T_DEVICE = 3"

record inode =
  idev :: u32
  inum :: u32
  iref :: int
  ivalid :: bool
  itype :: u16
  major :: u16
  minor :: u16
  nlink :: u16
  isize :: u32
  addrs :: "u32 list"

record fs = log +
  sb :: superblock
  inode :: "nat \<Rightarrow> inode"

abbreviation itable_lock :: lock where
  "itable_lock \<equiv> Lock ''itable'' 0"

abbreviation inode_lock :: "nat \<Rightarrow> lock" where
  "inode_lock i \<equiv> Lock ''inode'' i"

definition IBLOCK :: "u32 \<Rightarrow> superblock \<Rightarrow> u32" where
  "IBLOCK i sblk = i div of_nat IPB + inodestart sblk"

definition BBLOCK :: "u32 \<Rightarrow> superblock \<Rightarrow> u32" where
  "BBLOCK b sblk = b div of_nat BPB + bmapstart sblk"

definition upd_inode :: "nat \<Rightarrow> (inode \<Rightarrow> inode) \<Rightarrow> ('z fs_scheme, unit) kmon" where
  "upd_inode i f = modify (\<lambda>s. s\<lparr>inode := (inode s)(i := f (inode s i))\<rparr>)"

definition get_inode :: "nat \<Rightarrow> (inode \<Rightarrow> 'b) \<Rightarrow> ('z fs_scheme, 'b) kmon" where
  "get_inode i f = gets (\<lambda>s. f (inode s i))"

text \<open>Using a null pointer faults.\<close>

definition deref :: "'a option \<Rightarrow> ('s, 'a) kmon" where
  "deref p = (case p of None \<Rightarrow> stop (Fault 0) | Some x \<Rightarrow> ret x)"

section \<open>Superblock and blocks\<close>

definition superblock_of :: "u8 list \<Rightarrow> superblock" where
  "superblock_of bs = \<lparr>magic = get32 bs 0, fssize = get32 bs 4, nblocks = get32 bs 8, ninodes = get32 bs 12,
     nlog = get32 bs 16, logstart = get32 bs 20, inodestart = get32 bs 24, bmapstart = get32 bs 28\<rparr>"

definition readsb :: "u32 \<Rightarrow> ('z fs_scheme, unit) kmon" where
  "readsb d = bnd (bread d 1) (\<lambda>bp.
     bnd (get_buf bp data) (\<lambda>bs.
     bnd (modify (\<lambda>s. s\<lparr>sb := superblock_of bs\<rparr>)) (\<lambda>_.
     brelse bp)))"

definition fsinit :: "u32 \<Rightarrow> ('z fs_scheme, unit) kmon" where
  "fsinit d = bnd (readsb d) (\<lambda>_.
     bnd (gets sb) (\<lambda>sblk.
     if magic sblk \<noteq> FSMAGIC then panic ''invalid file system''
     else initlog d sblk))"

definition bzero :: "u32 \<Rightarrow> u32 \<Rightarrow> ('z fs_scheme, unit) kmon" where
  "bzero d bno = bnd (bread d bno) (\<lambda>bp.
     bnd (set_data bp (replicate BSIZE 0)) (\<lambda>_.
     bnd (log_write bp) (\<lambda>_.
     brelse bp)))"

definition bitmap_bit :: "u8 list \<Rightarrow> nat \<Rightarrow> bool" where
  "bitmap_bit bs bi \<longleftrightarrow> (bs ! (bi div 8)) AND push_bit (bi mod 8) 1 \<noteq> 0"

function balloc_from :: "u32 \<Rightarrow> nat \<Rightarrow> nat \<Rightarrow> 'z fs_scheme \<Rightarrow> (u32, 'z fs_scheme) outcome" where
  "balloc_from d sz b s =
     (if b < sz
      then bnd (bnd (gets sb) (\<lambda>sblk. bread d (BBLOCK (of_nat b) sblk))) (\<lambda>bp t.
        bnd (get_buf bp data) (\<lambda>bs t.
        case find (\<lambda>bi. \<not> bitmap_bit bs bi) [0..<min BPB (sz - b)] of
          Some bi \<Rightarrow>
            bnd (set_data bp (bs[bi div 8 := (bs ! (bi div 8)) OR push_bit (bi mod 8) 1])) (\<lambda>_.
            bnd (log_write bp) (\<lambda>_.
            bnd (brelse bp) (\<lambda>_.
            bnd (bzero d (of_nat (b + bi))) (\<lambda>_.
            ret (of_nat (b + bi)))))) t
        | None \<Rightarrow> bnd (brelse bp) (\<lambda>_ t. balloc_from d sz (b + BPB) t) t) t) s
      else Halt (Panic ''balloc: out of blocks'') s)"
  by pat_completeness auto
termination
  by (relation "measure (\<lambda>(d, sz, b, s). sz - b)") auto

declare balloc_from.simps [simp del]

definition balloc :: "u32 \<Rightarrow> ('z fs_scheme, u32) kmon" where
  "balloc d = bnd (gets sb) (\<lambda>sblk. balloc_from d (unat (fssize sblk)) 0)"

definition bfree :: "u32 \<Rightarrow> u32 \<Rightarrow> ('z fs_scheme, unit) kmon" where
  "bfree d b = bnd (gets sb) (\<lambda>sblk.
     bnd (bread d (BBLOCK b sblk)) (\<lambda>bp.
     bnd (get_buf bp data) (\<lambda>bs.
     let bi = unat b mod BPB in
     if \<not> bitmap_bit bs bi then panic ''freeing free block''
     else bnd (set_data bp (bs[bi div 8 := (bs ! (bi div 8)) AND NOT (push_bit (bi mod 8) 1)])) (\<lambda>_.
       bnd (log_write bp) (\<lambda>_.
       brelse bp)))))"

section \<open>Inodes\<close>

definition iinit :: "('z fs_scheme, unit) kmon" where
  "iinit = for_each (\<lambda>i. initsleeplock (inode_lock i)) [0..<NINODE]"

text \<open>The table entry \<open>iget\<close> finds, and the first free one.\<close>

definition find_inode :: "u32 \<Rightarrow> u32 \<Rightarrow> (nat \<Rightarrow> inode) \<Rightarrow> nat option" where
  "find_inode d n tab = find (\<lambda>i. iref (tab i) > 0 \<and> idev (tab i) = d \<and> inum (tab i) = n) [0..<NINODE]"

definition find_free_inode :: "(nat \<Rightarrow> inode) \<Rightarrow> nat option" where
  "find_free_inode tab = find (\<lambda>i. iref (tab i) = 0) [0..<NINODE]"

definition iget :: "u32 \<Rightarrow> u32 \<Rightarrow> ('z fs_scheme, nat) kmon" where
  "iget d n = bnd (acquire itable_lock) (\<lambda>_.
     bnd (gets inode) (\<lambda>tab.
     case find_inode d n tab of
       Some i \<Rightarrow>
         bnd (upd_inode i (\<lambda>x. x\<lparr>iref := iref x + 1\<rparr>)) (\<lambda>_.
         bnd (release itable_lock) (\<lambda>_.
         ret i))
     | None \<Rightarrow>
       (case find_free_inode tab of
          None \<Rightarrow> panic ''iget: no inodes''
        | Some i \<Rightarrow>
          bnd (upd_inode i (\<lambda>x. x\<lparr>idev := d, inum := n, iref := 1, ivalid := False\<rparr>)) (\<lambda>_.
          bnd (release itable_lock) (\<lambda>_.
          ret i)))))"

definition dinode_off :: "u32 \<Rightarrow> nat" where
  "dinode_off n = 64 * (unat n mod IPB)"

primrec ialloc_from :: "u32 \<Rightarrow> u16 \<Rightarrow> nat list \<Rightarrow> ('z fs_scheme, nat) kmon" where
  "ialloc_from d ty [] = panic ''ialloc: no inodes''"
| "ialloc_from d ty (n # ns) = bnd (gets sb) (\<lambda>sblk.
     bnd (bread d (IBLOCK (of_nat n) sblk)) (\<lambda>bp.
     bnd (get_buf bp data) (\<lambda>bs.
     let o0 = dinode_off (of_nat n) in
     if get16 bs o0 = 0
     then bnd (set_data bp (put16 (put_at bs o0 (replicate 64 0)) o0 ty)) (\<lambda>_.
       bnd (log_write bp) (\<lambda>_.
       bnd (brelse bp) (\<lambda>_.
       iget d (of_nat n))))
     else bnd (brelse bp) (\<lambda>_. ialloc_from d ty ns))))"

definition ialloc :: "u32 \<Rightarrow> u16 \<Rightarrow> ('z fs_scheme, nat) kmon" where
  "ialloc d ty = bnd (gets sb) (\<lambda>sblk. ialloc_from d ty [1..<unat (ninodes sblk)])"

text \<open>The bytes of a disk inode.\<close>

definition put_dinode :: "u8 list \<Rightarrow> nat \<Rightarrow> inode \<Rightarrow> u8 list" where
  "put_dinode bs o0 ip = put_at (put32 (put16 (put16 (put16 (put16 bs o0 (itype ip)) (o0 + 2) (major ip))
     (o0 + 4) (minor ip)) (o0 + 6) (nlink ip)) (o0 + 8) (isize ip)) (o0 + 12) (concat (map (le_bytes 4) (addrs ip)))"

definition get_dinode :: "u8 list \<Rightarrow> nat \<Rightarrow> inode \<Rightarrow> inode" where
  "get_dinode bs o0 ip = ip\<lparr>itype := get16 bs o0, major := get16 bs (o0 + 2), minor := get16 bs (o0 + 4),
     nlink := get16 bs (o0 + 6), isize := get32 bs (o0 + 8),
     addrs := map (\<lambda>i. get32 bs (o0 + 12 + 4 * i)) [0..<NDIRECT + 1]\<rparr>"

definition iupdate :: "nat \<Rightarrow> ('z fs_scheme, unit) kmon" where
  "iupdate i = bnd (gets sb) (\<lambda>sblk.
     bnd (get_inode i (\<lambda>x. x)) (\<lambda>ip.
     bnd (bread (idev ip) (IBLOCK (inum ip) sblk)) (\<lambda>bp.
     bnd (get_buf bp data) (\<lambda>bs.
     bnd (set_data bp (put_dinode bs (dinode_off (inum ip)) ip)) (\<lambda>_.
     bnd (log_write bp) (\<lambda>_.
     brelse bp))))))"

definition idup :: "nat option \<Rightarrow> ('z fs_scheme, nat option) kmon" where
  "idup ip = bnd (acquire itable_lock) (\<lambda>_.
     bnd (deref ip) (\<lambda>i.
     bnd (upd_inode i (\<lambda>x. x\<lparr>iref := iref x + 1\<rparr>)) (\<lambda>_.
     bnd (release itable_lock) (\<lambda>_.
     ret ip))))"

definition ilock :: "nat option \<Rightarrow> ('z fs_scheme, unit) kmon" where
  "ilock ip = (case ip of None \<Rightarrow> panic ''ilock''
   | Some i \<Rightarrow>
     bnd (get_inode i iref) (\<lambda>r.
     if r < 1 then panic ''ilock''
     else bnd (acquiresleep (inode_lock i)) (\<lambda>_.
       bnd (get_inode i ivalid) (\<lambda>v.
       guarded (\<not> v)
         (bnd (gets sb) (\<lambda>sblk.
          bnd (get_inode i (\<lambda>x. x)) (\<lambda>x.
          bnd (bread (idev x) (IBLOCK (inum x) sblk)) (\<lambda>bp.
          bnd (get_buf bp data) (\<lambda>bs.
          bnd (upd_inode i (get_dinode bs (dinode_off (inum x)))) (\<lambda>_.
          bnd (brelse bp) (\<lambda>_.
          bnd (upd_inode i (\<lambda>x. x\<lparr>ivalid := True\<rparr>)) (\<lambda>_.
          bnd (get_inode i itype) (\<lambda>ty.
          if ty = 0 then panic ''ilock: no type'' else ret ())))))))))))))"

definition iunlock :: "nat option \<Rightarrow> ('z fs_scheme, unit) kmon" where
  "iunlock ip = (case ip of None \<Rightarrow> panic ''iunlock''
   | Some i \<Rightarrow>
     bnd (holdingsleep (inode_lock i)) (\<lambda>h.
     bnd (get_inode i iref) (\<lambda>r.
     if \<not> h \<or> r < 1 then panic ''iunlock'' else releasesleep (inode_lock i))))"

text \<open>\<open>itrunc\<close>: the direct blocks, then those of the indirect block and the block itself.\<close>

definition itrunc_direct :: "nat \<Rightarrow> nat \<Rightarrow> ('z fs_scheme, unit) kmon" where
  "itrunc_direct i k = bnd (get_inode i (\<lambda>x. x)) (\<lambda>ip.
     guarded (addrs ip ! k \<noteq> 0)
       (bnd (bfree (idev ip) (addrs ip ! k)) (\<lambda>_.
        upd_inode i (\<lambda>x. x\<lparr>addrs := (addrs x)[k := 0]\<rparr>))))"

definition itrunc :: "nat \<Rightarrow> ('z fs_scheme, unit) kmon" where
  "itrunc i = bnd (for_each (itrunc_direct i) [0..<NDIRECT]) (\<lambda>_.
     bnd (get_inode i (\<lambda>x. x)) (\<lambda>ip.
     bnd (guarded (addrs ip ! NDIRECT \<noteq> 0)
       (bnd (bread (idev ip) (addrs ip ! NDIRECT)) (\<lambda>bp.
        bnd (for_each (\<lambda>j. bnd (get_buf bp data) (\<lambda>bs.
          guarded (get32 bs (4 * j) \<noteq> 0) (bfree (idev ip) (get32 bs (4 * j))))) [0..<NINDIRECT]) (\<lambda>_.
        bnd (brelse bp) (\<lambda>_.
        bnd (bfree (idev ip) (addrs ip ! NDIRECT)) (\<lambda>_.
        upd_inode i (\<lambda>x. x\<lparr>addrs := (addrs x)[NDIRECT := 0]\<rparr>))))))) (\<lambda>_.
     bnd (upd_inode i (\<lambda>x. x\<lparr>isize := 0\<rparr>)) (\<lambda>_.
     iupdate i))))"

definition iput :: "nat option \<Rightarrow> ('z fs_scheme, unit) kmon" where
  "iput ip = bnd (acquire itable_lock) (\<lambda>_.
     bnd (deref ip) (\<lambda>i.
     bnd (get_inode i (\<lambda>x. iref x = 1 \<and> ivalid x \<and> nlink x = 0)) (\<lambda>lst.
     bnd (guarded lst
       (bnd (acquiresleep (inode_lock i)) (\<lambda>_.
        bnd (release itable_lock) (\<lambda>_.
        bnd (itrunc i) (\<lambda>_.
        bnd (upd_inode i (\<lambda>x. x\<lparr>itype := 0\<rparr>)) (\<lambda>_.
        bnd (iupdate i) (\<lambda>_.
        bnd (upd_inode i (\<lambda>x. x\<lparr>ivalid := False\<rparr>)) (\<lambda>_.
        bnd (releasesleep (inode_lock i)) (\<lambda>_.
        acquire itable_lock))))))))) (\<lambda>_.
     bnd (upd_inode i (\<lambda>x. x\<lparr>iref := iref x - 1\<rparr>)) (\<lambda>_.
     release itable_lock)))))"

definition iunlockput :: "nat option \<Rightarrow> ('z fs_scheme, unit) kmon" where
  "iunlockput ip = bnd (iunlock ip) (\<lambda>_. iput ip)"

section \<open>File contents\<close>

definition bmap :: "nat \<Rightarrow> u32 \<Rightarrow> ('z fs_scheme, u32) kmon" where
  "bmap i bn =
     (if unat bn < NDIRECT
      then bnd (get_inode i (\<lambda>x. x)) (\<lambda>ip.
        if addrs ip ! unat bn \<noteq> 0 then ret (addrs ip ! unat bn)
        else bnd (balloc (idev ip)) (\<lambda>addr.
          bnd (upd_inode i (\<lambda>x. x\<lparr>addrs := (addrs x)[unat bn := addr]\<rparr>)) (\<lambda>_.
          ret addr)))
      else let n = unat bn - NDIRECT in
        if n < NINDIRECT
        then bnd (get_inode i (\<lambda>x. x)) (\<lambda>ip.
          bnd (if addrs ip ! NDIRECT \<noteq> 0 then ret (addrs ip ! NDIRECT)
            else bnd (balloc (idev ip)) (\<lambda>addr.
              bnd (upd_inode i (\<lambda>x. x\<lparr>addrs := (addrs x)[NDIRECT := addr]\<rparr>)) (\<lambda>_.
              ret addr))) (\<lambda>ind.
          bnd (bread (idev ip) ind) (\<lambda>bp.
          bnd (get_buf bp data) (\<lambda>bs.
          bnd (if get32 bs (4 * n) \<noteq> 0 then ret (get32 bs (4 * n))
            else bnd (balloc (idev ip)) (\<lambda>addr.
              bnd (upd_buf bp (\<lambda>x. x\<lparr>data := put32 (data x) (4 * n) addr\<rparr>)) (\<lambda>_.
              bnd (log_write bp) (\<lambda>_.
              ret addr)))) (\<lambda>addr.
          bnd (brelse bp) (\<lambda>_.
          ret addr))))))
        else panic ''bmap: out of range'')"

text \<open>
  Where \<open>readi\<close> puts bytes and \<open>writei\<close> takes them from: a user address, a physical kernel
  address, or a local variable of the caller (for \<open>readi\<close> the bytes are returned).
\<close>

datatype iodst = ToUser u64 | ToKernel u64 | ToLocal

datatype iosrc = FromUser u64 | FromKernel u64 | FromLocal "u8 list"

definition io_out :: "iodst \<Rightarrow> u8 list \<Rightarrow> ('z ptable_scheme, int) kmon" where
  "io_out dst bs = (case dst of ToUser a \<Rightarrow> either_copyout True a bs
     | ToKernel a \<Rightarrow> either_copyout False a bs | ToLocal \<Rightarrow> ret 0)"

definition io_in :: "iosrc \<Rightarrow> nat \<Rightarrow> ('z ptable_scheme, int \<times> u8 list) kmon" where
  "io_in src n = (case src of FromUser a \<Rightarrow> either_copyin True a n
     | FromKernel a \<Rightarrow> either_copyin False a n | FromLocal bs \<Rightarrow> ret (0, take n bs))"

definition dst_add :: "iodst \<Rightarrow> u32 \<Rightarrow> iodst" where
  "dst_add dst m = (case dst of ToUser a \<Rightarrow> ToUser (a + ucast m) | ToKernel a \<Rightarrow> ToKernel (a + ucast m)
     | ToLocal \<Rightarrow> ToLocal)"

definition src_add :: "iosrc \<Rightarrow> u32 \<Rightarrow> iosrc" where
  "src_add src m = (case src of FromUser a \<Rightarrow> FromUser (a + ucast m) | FromKernel a \<Rightarrow> FromKernel (a + ucast m)
     | FromLocal bs \<Rightarrow> FromLocal (drop (unat m) bs))"

definition io_chunk :: "u32 \<Rightarrow> u32 \<Rightarrow> u32 \<Rightarrow> u32" where
  "io_chunk n tot off = min (n - tot) (of_nat BSIZE - off mod of_nat BSIZE)"

lemma io_chunk_pos:
  assumes "tot < n"
  shows "0 < unat (io_chunk n tot off)" and "unat (io_chunk n tot off) \<le> unat n - unat tot"
proof -
  have a: "unat (n - tot) = unat n - unat tot" using assms by (simp add: unat_sub)
  have b: "unat (off mod 1024) < 1024" by (simp add: unat_mod)
  then have "off mod 1024 \<le> 1024" by (simp add: word_le_nat_alt)
  then have c: "unat (1024 - off mod 1024) = 1024 - unat (off mod 1024)" by (simp add: unat_sub)
  have "unat (io_chunk n tot off) = min (unat (n - tot)) (unat (1024 - off mod 1024))"
    by (auto simp: io_chunk_def min_def word_le_nat_alt)
  then show "0 < unat (io_chunk n tot off)" "unat (io_chunk n tot off) \<le> unat n - unat tot"
    using a b c assms by (auto simp: word_less_nat_alt)
qed

lemma io_chunk_progress:
  assumes "tot < n"
  shows "unat n - unat (tot + io_chunk n tot off) < unat n - unat tot"
proof -
  note p = io_chunk_pos [OF assms, of off]
  have "unat tot < unat n" using assms by (simp add: word_less_nat_alt)
  then have "unat tot + unat (io_chunk n tot off) < 2 ^ 32"
    using p(2) unat_u32_less [of n] by linarith
  then have "unat (tot + io_chunk n tot off) = unat tot + unat (io_chunk n tot off)"
    by (simp add: unat_plus_if')
  with p \<open>unat tot < unat n\<close> show ?thesis by simp
qed

function readi_loop ::
  "nat \<Rightarrow> iodst \<Rightarrow> u32 \<Rightarrow> u32 \<Rightarrow> u32 \<Rightarrow> u8 list \<Rightarrow> 'z fs_scheme \<Rightarrow> (u32 \<times> u8 list, 'z fs_scheme) outcome" where
  "readi_loop i dst off n tot acc s =
     (if tot < n
      then let m = io_chunk n tot off in
        bnd (bnd (bmap i (off div of_nat BSIZE)) (\<lambda>addr. bnd (get_inode i idev) (\<lambda>d. bread d addr))) (\<lambda>bp t.
          bnd (get_buf bp data) (\<lambda>bs t.
          let chunk = get_at bs (unat off mod BSIZE) (unat m) in
          bnd (io_out dst chunk) (\<lambda>r t.
          bnd (brelse bp) (\<lambda>_ t.
          if r = - 1 then Ok (- 1, acc) t
          else readi_loop i (dst_add dst m) (off + m) n (tot + m) (acc @ chunk) t) t) t) t) s
      else Ok (tot, acc) s)"
  by pat_completeness auto
termination
  by (relation "measure (\<lambda>(i, dst, off, n, tot, acc, s). unat n - unat tot)")
    (simp_all add: io_chunk_progress)

declare readi_loop.simps [simp del]

definition readi :: "nat \<Rightarrow> iodst \<Rightarrow> u32 \<Rightarrow> u32 \<Rightarrow> ('z fs_scheme, int \<times> u8 list) kmon" where
  "readi i dst off n = bnd (get_inode i isize) (\<lambda>sz.
     if off > sz \<or> off + n < off then ret (0, [])
     else let n' = (if off + n > sz then sz - off else n) in
       bnd (readi_loop i dst off n' 0 []) (\<lambda>(tot, bs). ret (sint tot, bs)))"

function writei_loop ::
  "nat \<Rightarrow> iosrc \<Rightarrow> u32 \<Rightarrow> u32 \<Rightarrow> u32 \<Rightarrow> 'z fs_scheme \<Rightarrow> (u32 \<times> u32, 'z fs_scheme) outcome" where
  "writei_loop i src off n tot s =
     (if tot < n
      then let m = io_chunk n tot off in
        bnd (bnd (bmap i (off div of_nat BSIZE)) (\<lambda>addr. bnd (get_inode i idev) (\<lambda>d. bread d addr))) (\<lambda>bp t.
          bnd (io_in src (unat m)) (\<lambda>(r, bs) t.
          bnd (upd_buf bp (\<lambda>x. x\<lparr>data := put_at (data x) (unat off mod BSIZE) bs\<rparr>)) (\<lambda>_ t.
          if r = - 1 then bnd (brelse bp) (\<lambda>_. ret (tot, off)) t
          else bnd (bnd (log_write bp) (\<lambda>_. brelse bp)) (\<lambda>_ t.
            writei_loop i (src_add src m) (off + m) n (tot + m) t) t) t) t) s
      else Ok (tot, off) s)"
  by pat_completeness auto
termination
  by (relation "measure (\<lambda>(i, src, off, n, tot, s). unat n - unat tot)")
    (simp_all add: io_chunk_progress)

declare writei_loop.simps [simp del]

definition writei :: "nat \<Rightarrow> iosrc \<Rightarrow> u32 \<Rightarrow> u32 \<Rightarrow> ('z fs_scheme, int) kmon" where
  "writei i src off n = bnd (get_inode i isize) (\<lambda>sz.
     if off > sz \<or> off + n < off then ret (- 1)
     else if unat (off + n) > MAXFILE * BSIZE then ret (- 1)
     else bnd (writei_loop i src off n 0) (\<lambda>(tot, off').
       bnd (upd_inode i (\<lambda>x. if off' > isize x then x\<lparr>isize := off'\<rparr> else x)) (\<lambda>_.
       bnd (iupdate i) (\<lambda>_.
       ret (sint tot)))))"

record stat =
  st_dev :: u32
  st_ino :: u32
  st_type :: u16
  st_nlink :: u16
  st_size :: u64

definition stati :: "nat \<Rightarrow> ('z fs_scheme, stat) kmon" where
  "stati i = get_inode i (\<lambda>ip. \<lparr>st_dev = idev ip, st_ino = inum ip, st_type = itype ip,
     st_nlink = nlink ip, st_size = ucast (isize ip)\<rparr>)"

section \<open>Directories\<close>

definition cstr_of :: "u8 list \<Rightarrow> cstr" where
  "cstr_of bs = (\<lambda>i. if i < length bs then bs ! i else 0)"

definition namecmp :: "u8 list \<Rightarrow> u8 list \<Rightarrow> int" where
  "namecmp p q = strncmp (cstr_of p) (cstr_of q) DIRSIZ"

text \<open>A directory entry is 16 bytes: \<open>inum\<close>, then the name.\<close>

definition dirent_offs :: "u32 \<Rightarrow> u32 list" where
  "dirent_offs sz = map (\<lambda>k. of_nat (16 * k)) [0..<(unat sz + 15) div 16]"

primrec dirlookup_from :: "nat \<Rightarrow> u8 list \<Rightarrow> u32 list \<Rightarrow> ('z fs_scheme, (nat \<times> u32) option) kmon" where
  "dirlookup_from dp name [] = ret None"
| "dirlookup_from dp name (off # offs) =
     bnd (readi dp ToLocal off 16) (\<lambda>(r, de).
     if r \<noteq> 16 then panic ''dirlookup read''
     else if get16 de 0 = 0 then dirlookup_from dp name offs
     else if namecmp name (get_at de 2 DIRSIZ) = 0
     then bnd (get_inode dp idev) (\<lambda>d. bnd (iget d (ucast (get16 de 0))) (\<lambda>i. ret (Some (i, off))))
     else dirlookup_from dp name offs)"

definition dirlookup :: "nat \<Rightarrow> u8 list \<Rightarrow> ('z fs_scheme, (nat \<times> u32) option) kmon" where
  "dirlookup dp name = bnd (get_inode dp itype) (\<lambda>ty.
     if ty \<noteq> T_DIR then panic ''dirlookup not DIR''
     else bnd (get_inode dp isize) (\<lambda>sz. dirlookup_from dp name (dirent_offs sz)))"

text \<open>The offset of the first empty entry, the size of the directory when there is none.\<close>

primrec empty_dirent :: "nat \<Rightarrow> u32 list \<Rightarrow> ('z fs_scheme, u32 option) kmon" where
  "empty_dirent dp [] = ret None"
| "empty_dirent dp (off # offs) =
     bnd (readi dp ToLocal off 16) (\<lambda>(r, de).
     if r \<noteq> 16 then panic ''dirlink read''
     else if get16 de 0 = 0 then ret (Some off)
     else empty_dirent dp offs)"

definition dirent_bytes :: "u8 list \<Rightarrow> u32 \<Rightarrow> u8 list" where
  "dirent_bytes name n = le_bytes 2 (ucast n :: u16) @ strncpy (cstr_of name) DIRSIZ"

definition dirlink :: "nat \<Rightarrow> u8 list \<Rightarrow> u32 \<Rightarrow> ('z fs_scheme, int) kmon" where
  "dirlink dp name n = bnd (dirlookup dp name) (\<lambda>r.
     case r of Some (i, _) \<Rightarrow> bnd (iput (Some i)) (\<lambda>_. ret (- 1))
     | None \<Rightarrow>
       bnd (get_inode dp isize) (\<lambda>sz.
       bnd (empty_dirent dp (dirent_offs sz)) (\<lambda>e.
       let off = (case e of Some o0 \<Rightarrow> o0 | None \<Rightarrow> of_nat (16 * ((unat sz + 15) div 16))) in
       bnd (writei dp (FromLocal (dirent_bytes name n)) off 16) (\<lambda>w.
       if w \<noteq> 16 then panic ''dirlink'' else ret 0))))"

section \<open>Paths\<close>

abbreviation slash :: u8 where
  "slash \<equiv> 47"

text \<open>The rest of the path and the next element, cut to \<open>DIRSIZ\<close> bytes.\<close>

definition skipelem :: "u8 list \<Rightarrow> (u8 list \<times> u8 list) option" where
  "skipelem path =
     (let p = dropWhile (\<lambda>c. c = slash) path in
      if p = [] then None
      else let name = takeWhile (\<lambda>c. c \<noteq> slash) p; rest = dropWhile (\<lambda>c. c \<noteq> slash) p
        in Some (dropWhile (\<lambda>c. c = slash) rest, take DIRSIZ name))"

lemma skipelem_shorter:
  assumes "skipelem path = Some (rest, name)"
  shows "length rest < length path"
proof -
  let ?p = "dropWhile (\<lambda>c. c = slash) path"
  from assms have p: "?p \<noteq> []" and r: "rest = dropWhile (\<lambda>c. c = slash) (dropWhile (\<lambda>c. c \<noteq> slash) ?p)"
    by (auto simp: skipelem_def Let_def split: if_splits)
  from p have "hd ?p \<noteq> slash" by (metis (mono_tags, lifting) hd_dropWhile)
  with p have "length (dropWhile (\<lambda>c. c \<noteq> slash) ?p) < length ?p"
    by (cases ?p) (auto intro: le_imp_less_Suc length_dropWhile_le)
  moreover have "length rest \<le> length (dropWhile (\<lambda>c. c \<noteq> slash) ?p)"
    unfolding r by (rule length_dropWhile_le)
  moreover have "length ?p \<le> length path" by (rule length_dropWhile_le)
  ultimately show ?thesis by linarith
qed

function namex_loop ::
  "nat \<Rightarrow> u8 list \<Rightarrow> bool \<Rightarrow> u8 list \<Rightarrow> 'z fs_scheme \<Rightarrow> (nat option \<times> u8 list, 'z fs_scheme) outcome" where
  "namex_loop i path npar name s =
     (case skipelem path of
       None \<Rightarrow> if npar then bnd (iput (Some i)) (\<lambda>_. ret (None, name)) s else Ok (Some i, name) s
     | Some (rest, nm) \<Rightarrow>
       bnd (ilock (Some i)) (\<lambda>_ t.
       if itype (inode t i) \<noteq> T_DIR then bnd (iunlockput (Some i)) (\<lambda>_. ret (None, nm)) t
       else if npar \<and> rest = [] then bnd (iunlock (Some i)) (\<lambda>_. ret (Some i, nm)) t
       else bnd (dirlookup i nm) (\<lambda>r t.
         case r of None \<Rightarrow> bnd (iunlockput (Some i)) (\<lambda>_. ret (None, nm)) t
         | Some (j, _) \<Rightarrow> bnd (iunlockput (Some i)) (\<lambda>_ t. namex_loop j rest npar nm t) t) t) s)"
  by pat_completeness auto
termination
  by (relation "measure (\<lambda>(i, path, npar, name, s). length path)") (auto dest: skipelem_shorter)

declare namex_loop.simps [simp del]

definition namex :: "u8 list \<Rightarrow> bool \<Rightarrow> ('z fs_scheme, nat option \<times> u8 list) kmon" where
  "namex path npar =
     (if path \<noteq> [] \<and> hd path = slash
      then bnd (iget ROOTDEV ROOTINO) (\<lambda>i. namex_loop i path npar [])
      else bnd myproc (\<lambda>p. bnd (get_proc p cwd) (\<lambda>c. bnd (idup c) (\<lambda>c.
        bnd (deref c) (\<lambda>i. namex_loop i path npar [])))))"

definition namei :: "u8 list \<Rightarrow> ('z fs_scheme, nat option) kmon" where
  "namei path = bnd (namex path False) (\<lambda>(r, _). ret r)"

definition nameiparent :: "u8 list \<Rightarrow> ('z fs_scheme, nat option \<times> u8 list) kmon" where
  "nameiparent path = namex path True"

end
