(* ===== verification/Console.thy ===== *)
theory Console
  imports Fs
begin

unbundle bit_operations_syntax

text \<open>
  Console input and output: \<open>kernel/uart.c\<close>, \<open>kernel/console.c\<close>, \<open>kernel/printf.c\<close>.

  The UART is a device: \<open>tx_room\<close> is how many bytes its transmitter accepts before the
  \<open>LSR_TX_IDLE\<close> bit clears, \<open>uart_in\<close> the bytes received and not yet read, \<open>uart_out\<close> the bytes
  written to \<open>THR\<close>, in order. \<open>uartputc_sync\<close> waits for room, so its write always happens.
\<close>

section \<open>State\<close>

definition INPUT_BUF :: nat where [simp]: "INPUT_BUF = 128"

definition UART_TX_BUF_SIZE :: nat where [simp]: "UART_TX_BUF_SIZE = 32"

definition BACKSPACE :: int where [simp]: "BACKSPACE = 0x100"

record console = fs +
  uart_tx_buf :: "u8 list"
  uart_tx_w :: u64
  uart_tx_r :: u64
  tx_room :: nat
  uart_in :: "u8 list"
  uart_out :: "u8 list"
  panicked :: bool
  pr_locking :: bool
  cons_buf :: "u8 list"
  cons_r :: u32
  cons_w :: u32
  cons_e :: u32
  devsw :: "nat \<Rightarrow> bool"

abbreviation uart_tx_lock :: lock where
  "uart_tx_lock \<equiv> Lock ''uart'' 0"

abbreviation cons_lock :: lock where
  "cons_lock \<equiv> Lock ''cons'' 0"

abbreviation pr_lock :: lock where
  "pr_lock \<equiv> Lock ''pr'' 0"

section \<open>uart.c\<close>

definition write_thr :: "u8 \<Rightarrow> ('z console_scheme, unit) kmon" where
  "write_thr c = modify (\<lambda>s. s\<lparr>uart_out := uart_out s @ [c], tx_room := tx_room s - 1\<rparr>)"

function uartstart :: "'z console_scheme \<Rightarrow> (unit, 'z console_scheme) outcome" where
  "uartstart s =
     (if uart_tx_w s = uart_tx_r s \<or> tx_room s = 0 then Ok () s
      else bnd (let c = uart_tx_buf s ! (unat (uart_tx_r s) mod UART_TX_BUF_SIZE) in
          bnd (modify (\<lambda>s. s\<lparr>uart_tx_r := uart_tx_r s + 1\<rparr>)) (\<lambda>_.
          bnd (wakeup (Chan ''uart_tx_r'' 0)) (\<lambda>_.
          write_thr c))) (\<lambda>_ t. uartstart t) s)"
  by pat_completeness auto
termination
proof (relation "measure tx_room", simp)
  fix s t :: "'z console_scheme" and x
  assume "\<not> (uart_tx_w s = uart_tx_r s \<or> tx_room s = 0)"
    and "(let c = uart_tx_buf s ! (unat (uart_tx_r s) mod UART_TX_BUF_SIZE) in
          bnd (modify (\<lambda>s. s\<lparr>uart_tx_r := uart_tx_r s + 1\<rparr>)) (\<lambda>_.
          bnd (wakeup (Chan ''uart_tx_r'' 0)) (\<lambda>_. write_thr c))) s = Ok x t"
  moreover have "keeps tx_room (wakeup (Chan ''uart_tx_r'' 0) :: ('z console_scheme, unit) kmon)"
    by (rule keeps_wakeup) simp_all
  ultimately show "(t, s) \<in> measure tx_room"
    by (auto simp: Let_def bnd_eq_Ok write_thr_def dest!: keepsD)
qed

declare uartstart.simps [simp del]

definition uartputc :: "u8 \<Rightarrow> ('z console_scheme, unit) kmon" where
  "uartputc c = bnd (acquire uart_tx_lock) (\<lambda>_.
     bnd (gets panicked) (\<lambda>pk.
     if pk then stop (Blocked ''panicked'')
     else bnd (gets (\<lambda>s. uart_tx_w s = uart_tx_r s + of_nat UART_TX_BUF_SIZE)) (\<lambda>full.
       if full then sleep (Chan ''uart_tx_r'' 0) uart_tx_lock
       else bnd (modify (\<lambda>s. s\<lparr>uart_tx_buf := (uart_tx_buf s)[unat (uart_tx_w s) mod UART_TX_BUF_SIZE := c],
              uart_tx_w := uart_tx_w s + 1\<rparr>)) (\<lambda>_.
         bnd uartstart (\<lambda>_.
         release uart_tx_lock)))))"

definition uartputc_sync :: "u8 \<Rightarrow> ('z console_scheme, unit) kmon" where
  "uartputc_sync c = bnd (gets panicked) (\<lambda>pk.
     if pk then stop (Blocked ''panicked'') else write_thr c)"

definition uartgetc :: "('z console_scheme, int) kmon" where
  "uartgetc = bnd (gets uart_in) (\<lambda>q.
     case q of [] \<Rightarrow> ret (- 1)
     | c # cs \<Rightarrow> bnd (modify (\<lambda>s. s\<lparr>uart_in := cs\<rparr>)) (\<lambda>_. ret (uint c)))"

section \<open>printf.c\<close>

definition consputc :: "int \<Rightarrow> ('z console_scheme, unit) kmon" where
  "consputc c =
     (if c = BACKSPACE
      then bnd (uartputc_sync 8) (\<lambda>_. bnd (uartputc_sync 32) (\<lambda>_. uartputc_sync 8))
      else uartputc_sync (word_of_int c))"

abbreviation putb :: "u8 \<Rightarrow> ('z console_scheme, unit) kmon" where
  "putb c \<equiv> consputc (uint c)"

definition ascii :: "string \<Rightarrow> u8 list" where
  "ascii str = map (\<lambda>c. of_nat (of_char c)) str"

text \<open>The digits of \<open>x\<close>, least significant first, as \<open>printint\<close> puts them in \<open>buf\<close>.\<close>

definition digit :: "nat \<Rightarrow> u8" where
  "digit d = (if d < 10 then of_nat (48 + d) else of_nat (87 + d))"

function digits_rev :: "nat \<Rightarrow> nat \<Rightarrow> u8 list" where
  "digits_rev base x = digit (x mod base) # (if x div base = 0 \<or> base < 2 then [] else digits_rev base (x div base))"
  by pat_completeness auto
termination
  by (relation "measure snd") (auto intro!: div_less_dividend, metis div_0 gr0I)

declare digits_rev.simps [simp del]

definition printint_str :: "u32 \<Rightarrow> nat \<Rightarrow> u8 list" where
  "printint_str xx base =
     (let neg = sint xx < 0; x = (if neg then - xx else xx)
      in rev (digits_rev base (unat x) @ (if neg then [45] else [])))"

definition printint :: "u32 \<Rightarrow> nat \<Rightarrow> ('z console_scheme, unit) kmon" where
  "printint xx base = for_each putb (printint_str xx base)"

definition printptr :: "u64 \<Rightarrow> ('z console_scheme, unit) kmon" where
  "printptr x = bnd (putb 48) (\<lambda>_. bnd (putb 120) (\<lambda>_.
     for_each (\<lambda>i. putb (digit (unat (drop_bit 60 (push_bit (4 * i) x))))) [0..<16]))"

datatype arg = ArgInt u32 | ArgPtr u64 | ArgStr "u8 list option"

text \<open>
  The format loop. An argument that is missing or of another type than the directive asks for,
  undefined in C, stops the run.
\<close>

fun printf_loop :: "u8 list \<Rightarrow> arg list \<Rightarrow> ('z console_scheme, unit) kmon" where
  "printf_loop [] args = ret ()"
| "printf_loop (c # cs) args =
     (if c \<noteq> 37 then bnd (putb c) (\<lambda>_. printf_loop cs args)
      else case cs of [] \<Rightarrow> ret ()
      | d # ds \<Rightarrow>
        if d = 100 then (case args of ArgInt x # as \<Rightarrow> bnd (printint x 10) (\<lambda>_. printf_loop ds as) | _ \<Rightarrow> stop (Fault 0))
        else if d = 120 then (case args of ArgInt x # as \<Rightarrow> bnd (printint x 16) (\<lambda>_. printf_loop ds as) | _ \<Rightarrow> stop (Fault 0))
        else if d = 112 then (case args of ArgPtr x # as \<Rightarrow> bnd (printptr x) (\<lambda>_. printf_loop ds as) | _ \<Rightarrow> stop (Fault 0))
        else if d = 115 then
          (case args of ArgStr str # as \<Rightarrow>
             bnd (for_each putb (case str of None \<Rightarrow> ascii ''(null)'' | Some b \<Rightarrow> takeWhile (\<lambda>x. x \<noteq> 0) b)) (\<lambda>_.
             printf_loop ds as)
           | _ \<Rightarrow> stop (Fault 0))
        else if d = 37 then bnd (putb 37) (\<lambda>_. printf_loop ds args)
        else bnd (putb 37) (\<lambda>_. bnd (putb d) (\<lambda>_. printf_loop ds args)))"

definition printf :: "string \<Rightarrow> arg list \<Rightarrow> ('z console_scheme, unit) kmon" where
  "printf fmt args = bnd (gets pr_locking) (\<lambda>locking.
     bnd (guarded locking (acquire pr_lock)) (\<lambda>_.
     bnd (printf_loop (ascii fmt) args) (\<lambda>_.
     guarded locking (release pr_lock))))"

definition panic_print :: "string \<Rightarrow> ('z console_scheme, 'a) kmon" where
  "panic_print msg = bnd (modify (\<lambda>s. s\<lparr>pr_locking := False\<rparr>)) (\<lambda>_.
     bnd (printf ''panic: '' []) (\<lambda>_.
     bnd (printf msg []) (\<lambda>_.
     bnd (printf [CHR 0x0A] []) (\<lambda>_.
     bnd (modify (\<lambda>s. s\<lparr>panicked := True\<rparr>)) (\<lambda>_.
     stop (Panic msg))))))"

definition printfinit :: "('z console_scheme, unit) kmon" where
  "printfinit = modify (\<lambda>s. s\<lparr>pr_locking := True\<rparr>)"

text \<open>\<open>procdump\<close> of \<open>proc.c\<close>; the table has no entry for \<open>USED\<close>.\<close>

definition state_str :: "procstate \<Rightarrow> string" where
  "state_str st = (case st of UNUSED \<Rightarrow> ''unused'' | USED \<Rightarrow> ''???'' | SLEEPING \<Rightarrow> ''sleep ''
     | RUNNABLE \<Rightarrow> ''runble'' | RUNNING \<Rightarrow> ''run   '' | ZOMBIE \<Rightarrow> ''zombie'')"

definition procdump :: "('z console_scheme, unit) kmon" where
  "procdump = bnd (printf [CHR 0x0A] []) (\<lambda>_.
     for_each (\<lambda>p. bnd (get_proc p (\<lambda>q. q)) (\<lambda>q.
       guarded (state q \<noteq> UNUSED)
         (bnd (printf ''%d %s %s'' [ArgInt (word_of_int (pid q)), ArgStr (Some (ascii (state_str (state q)))),
            ArgStr (Some (pname q))]) (\<lambda>_.
          printf [CHR 0x0A] [])))) [0..<NPROC])"

section \<open>console.c\<close>

primrec consolewrite_from :: "bool \<Rightarrow> u64 \<Rightarrow> nat \<Rightarrow> nat \<Rightarrow> ('z console_scheme, nat) kmon" where
  "consolewrite_from user src i 0 = ret i"
| "consolewrite_from user src i (Suc n) =
     bnd (either_copyin user (src + of_nat i) 1) (\<lambda>(r, bs).
     if r = - 1 then ret i
     else bnd (uartputc (hd bs)) (\<lambda>_. consolewrite_from user src (Suc i) n))"

definition consolewrite :: "bool \<Rightarrow> u64 \<Rightarrow> int \<Rightarrow> ('z console_scheme, int) kmon" where
  "consolewrite user src n = bnd (consolewrite_from user src 0 (nat n)) (\<lambda>i. ret (int i))"

text \<open>\<open>n\<close> is what is left of \<open>target\<close>; the result is what is left at the end.\<close>

primrec consoleread_loop :: "nat \<Rightarrow> nat \<Rightarrow> bool \<Rightarrow> u64 \<Rightarrow> ('z console_scheme, int + nat) kmon" where
  "consoleread_loop target 0 user dst = ret (Inr 0)"
| "consoleread_loop target (Suc n) user dst =
     bnd (gets (\<lambda>s. cons_r s = cons_w s)) (\<lambda>empty.
     if empty
     then bnd myproc (\<lambda>p. bnd (get_proc p killed) (\<lambda>k.
       if k then bnd (release cons_lock) (\<lambda>_. ret (Inl (- 1)))
       else sleep (Chan ''cons.r'' 0) cons_lock))
     else bnd (gets (\<lambda>s. cons_buf s ! (unat (cons_r s) mod INPUT_BUF))) (\<lambda>c.
       bnd (modify (\<lambda>s. s\<lparr>cons_r := cons_r s + 1\<rparr>)) (\<lambda>_.
       if c = 4
       then bnd (guarded (Suc n < target) (modify (\<lambda>s. s\<lparr>cons_r := cons_r s - 1\<rparr>))) (\<lambda>_. ret (Inr (Suc n)))
       else bnd (either_copyout user dst [c]) (\<lambda>r.
         if r = - 1 then ret (Inr (Suc n))
         else if c = 10 then ret (Inr n)
         else consoleread_loop target n user (dst + 1)))))"

definition consoleread :: "bool \<Rightarrow> u64 \<Rightarrow> int \<Rightarrow> ('z console_scheme, int) kmon" where
  "consoleread user dst n = bnd (acquire cons_lock) (\<lambda>_.
     if n \<le> 0 then bnd (release cons_lock) (\<lambda>_. ret 0)
     else bnd (consoleread_loop (nat n) (nat n) user dst) (\<lambda>r.
       case r of Inl v \<Rightarrow> ret v
       | Inr lft \<Rightarrow> bnd (release cons_lock) (\<lambda>_. ret (n - int lft))))"

text \<open>Control-U: erase back to the start of the line.\<close>

function kill_line :: "'z console_scheme \<Rightarrow> (unit, 'z console_scheme) outcome" where
  "kill_line s =
     (if cons_e s \<noteq> cons_w s \<and> cons_buf s ! (unat (cons_e s - 1) mod INPUT_BUF) \<noteq> 10
      then bnd (bnd (modify (\<lambda>s. s\<lparr>cons_e := cons_e s - 1\<rparr>)) (\<lambda>_. consputc BACKSPACE)) (\<lambda>_ t. kill_line t) s
      else Ok () s)"
  by pat_completeness auto

lemma consputc_Ok:
  assumes "consputc c s = Ok x t"
  shows "cons_e t = cons_e s" "cons_w t = cons_w s"
  using assms
  by (auto simp: consputc_def uartputc_sync_def write_thr_def bnd_eq_Ok split: if_splits)

termination kill_line
proof (relation "measure (\<lambda>s. unat (cons_e s - cons_w s))", simp)
  fix s t :: "'z console_scheme" and x
  assume c: "cons_e s \<noteq> cons_w s \<and> cons_buf s ! (unat (cons_e s - 1) mod INPUT_BUF) \<noteq> 10"
    and "bnd (modify (\<lambda>s. s\<lparr>cons_e := cons_e s - 1\<rparr>)) (\<lambda>_. consputc BACKSPACE) s = Ok x t"
  then have "cons_e t = cons_e s - 1" "cons_w t = cons_w s"
    by (auto simp: bnd_eq_Ok dest: consputc_Ok)
  moreover have "unat (cons_e s - cons_w s - 1) < unat (cons_e s - cons_w s)"
    using c by (simp add: measure_unat)
  ultimately show "(t, s) \<in> measure (\<lambda>s. unat (cons_e s - cons_w s))"
    by (simp add: diff_right_commute)
qed

declare kill_line.simps [simp del]

definition store_char :: "u8 \<Rightarrow> ('z console_scheme, unit) kmon" where
  "store_char c = modify (\<lambda>s. s\<lparr>cons_buf := (cons_buf s)[unat (cons_e s) mod INPUT_BUF := c],
     cons_e := cons_e s + 1\<rparr>)"

definition consoleintr :: "int \<Rightarrow> ('z console_scheme, unit) kmon" where
  "consoleintr c0 = bnd (acquire cons_lock) (\<lambda>_.
     bnd (if c0 = 16 then procdump
       else if c0 = 21 then kill_line
       else if c0 = 8 \<or> c0 = 127
       then bnd (gets (\<lambda>s. cons_e s \<noteq> cons_w s)) (\<lambda>some.
         guarded some (bnd (modify (\<lambda>s. s\<lparr>cons_e := cons_e s - 1\<rparr>)) (\<lambda>_. consputc BACKSPACE)))
       else bnd (gets (\<lambda>s. unat (cons_e s - cons_r s) < INPUT_BUF)) (\<lambda>room.
         guarded (c0 \<noteq> 0 \<and> room)
           (let c = (if c0 = 13 then 10 else c0) in
            bnd (consputc c) (\<lambda>_.
            bnd (store_char (word_of_int c)) (\<lambda>_.
            bnd (gets (\<lambda>s. cons_e s = cons_r s + of_nat INPUT_BUF)) (\<lambda>full.
            guarded (c = 10 \<or> c = 4 \<or> full)
              (bnd (modify (\<lambda>s. s\<lparr>cons_w := cons_e s\<rparr>)) (\<lambda>_. wakeup (Chan ''cons.r'' 0)))))))))
     (\<lambda>_. release cons_lock))"

text \<open>\<open>uartintr\<close> gives every received byte to \<open>consoleintr\<close>, then sends.\<close>

definition uartintr :: "('z console_scheme, unit) kmon" where
  "uartintr = bnd (gets uart_in) (\<lambda>cs.
     bnd (for_each (\<lambda>_. bnd uartgetc consoleintr) cs) (\<lambda>_.
     bnd (acquire uart_tx_lock) (\<lambda>_.
     bnd uartstart (\<lambda>_.
     release uart_tx_lock))))"

definition CONSOLE :: nat where [simp]: "CONSOLE = 1"

definition consoleinit :: "('z console_scheme, unit) kmon" where
  "consoleinit = modify (\<lambda>s. s\<lparr>devsw := (devsw s)(CONSOLE := True)\<rparr>)"

end
