(* ===== verification/Pipe.thy ===== *)
theory Pipe
  imports Console
begin

text \<open>
  Pipes, \<open>kernel/pipe.c\<close>. A pipe lives in a page from \<open>kalloc\<close>; \<open>pipes\<close> gives the structure at
  each page address. The byte buffer is used as a ring: \<open>nread\<close> and \<open>nwrite\<close> count bytes modulo
  \<open>2 ^ 32\<close> and index the buffer modulo \<open>PIPESIZE\<close>.
\<close>

definition PIPESIZE :: nat where [simp]: "PIPESIZE = 512"

record pipe =
  pdata :: "u8 list"
  nread :: u32
  nwrite :: u32
  readopen :: bool
  writeopen :: bool

record pipes = console +
  pipes :: "u64 \<Rightarrow> pipe"

abbreviation pipe_lock :: "u64 \<Rightarrow> lock" where
  "pipe_lock pi \<equiv> Lock ''pipe'' (unat pi)"

abbreviation nread_chan :: "u64 \<Rightarrow> channel" where
  "nread_chan pi \<equiv> Chan ''nread'' (unat pi)"

abbreviation nwrite_chan :: "u64 \<Rightarrow> channel" where
  "nwrite_chan pi \<equiv> Chan ''nwrite'' (unat pi)"

definition upd_pipe :: "u64 \<Rightarrow> (pipe \<Rightarrow> pipe) \<Rightarrow> ('z pipes_scheme, unit) kmon" where
  "upd_pipe pi f = modify (\<lambda>s. s\<lparr>pipes := (pipes s)(pi := f (pipes s pi))\<rparr>)"

definition get_pipe :: "u64 \<Rightarrow> (pipe \<Rightarrow> 'b) \<Rightarrow> ('z pipes_scheme, 'b) kmon" where
  "get_pipe pi f = gets (\<lambda>s. f (pipes s pi))"

section \<open>The ring\<close>

definition pipe_put :: "u8 \<Rightarrow> pipe \<Rightarrow> pipe" where
  "pipe_put c q = q\<lparr>pdata := (pdata q)[unat (nwrite q) mod PIPESIZE := c], nwrite := nwrite q + 1\<rparr>"

definition pipe_head :: "pipe \<Rightarrow> u8" where
  "pipe_head q = pdata q ! (unat (nread q) mod PIPESIZE)"

definition pipe_drop :: "pipe \<Rightarrow> pipe" where
  "pipe_drop q = q\<lparr>nread := nread q + 1\<rparr>"

definition pipe_full :: "pipe \<Rightarrow> bool" where
  "pipe_full q \<longleftrightarrow> nwrite q = nread q + of_nat PIPESIZE"

definition pipe_empty :: "pipe \<Rightarrow> bool" where
  "pipe_empty q \<longleftrightarrow> nread q = nwrite q"

section \<open>Operations\<close>

definition pipeclose :: "u64 \<Rightarrow> bool \<Rightarrow> ('z pipes_scheme, unit) kmon" where
  "pipeclose pi writable = bnd (acquire (pipe_lock pi)) (\<lambda>_.
     bnd (if writable
       then bnd (upd_pipe pi (\<lambda>q. q\<lparr>writeopen := False\<rparr>)) (\<lambda>_. wakeup (nread_chan pi))
       else bnd (upd_pipe pi (\<lambda>q. q\<lparr>readopen := False\<rparr>)) (\<lambda>_. wakeup (nwrite_chan pi))) (\<lambda>_.
     bnd (get_pipe pi (\<lambda>q. \<not> readopen q \<and> \<not> writeopen q)) (\<lambda>dead.
     if dead then bnd (release (pipe_lock pi)) (\<lambda>_. kfree pi)
     else release (pipe_lock pi))))"

text \<open>The loop of \<open>pipewrite\<close>: \<open>Inl r\<close> when the function returns from inside it.\<close>

primrec pipewrite_loop :: "u64 \<Rightarrow> nat \<Rightarrow> u64 \<Rightarrow> nat \<Rightarrow> nat \<Rightarrow> ('z pipes_scheme, int + nat) kmon" where
  "pipewrite_loop pi p addr i 0 = ret (Inr i)"
| "pipewrite_loop pi p addr i (Suc n) =
     bnd (get_pipe pi (\<lambda>q. q)) (\<lambda>q.
     bnd (get_proc p (\<lambda>q. q)) (\<lambda>pr.
     if \<not> readopen q \<or> killed pr then bnd (release (pipe_lock pi)) (\<lambda>_. ret (Inl (- 1)))
     else if pipe_full q
     then bnd (wakeup (nread_chan pi)) (\<lambda>_. sleep (nwrite_chan pi) (pipe_lock pi))
     else bnd (copyin (pagetable pr) (addr + of_nat i) 1) (\<lambda>(r, bs).
       if r = - 1 then ret (Inr i)
       else bnd (upd_pipe pi (pipe_put (hd bs))) (\<lambda>_. pipewrite_loop pi p addr (Suc i) n))))"

definition pipewrite :: "u64 \<Rightarrow> u64 \<Rightarrow> int \<Rightarrow> ('z pipes_scheme, int) kmon" where
  "pipewrite pi addr n = bnd myproc (\<lambda>p.
     bnd (acquire (pipe_lock pi)) (\<lambda>_.
     bnd (pipewrite_loop pi p addr 0 (nat n)) (\<lambda>r.
     case r of Inl v \<Rightarrow> ret v
     | Inr i \<Rightarrow>
       bnd (wakeup (nread_chan pi)) (\<lambda>_.
       bnd (release (pipe_lock pi)) (\<lambda>_.
       ret (int i))))))"

primrec piperead_loop :: "u64 \<Rightarrow> nat \<Rightarrow> u64 \<Rightarrow> nat \<Rightarrow> nat \<Rightarrow> ('z pipes_scheme, nat) kmon" where
  "piperead_loop pi p addr i 0 = ret i"
| "piperead_loop pi p addr i (Suc n) =
     bnd (get_pipe pi (\<lambda>q. q)) (\<lambda>q.
     if pipe_empty q then ret i
     else bnd (upd_pipe pi pipe_drop) (\<lambda>_.
       bnd (get_proc p pagetable) (\<lambda>pt.
       bnd (copyout pt (addr + of_nat i) [pipe_head q]) (\<lambda>r.
       if r = - 1 then ret i else piperead_loop pi p addr (Suc i) n))))"

definition piperead :: "u64 \<Rightarrow> u64 \<Rightarrow> int \<Rightarrow> ('z pipes_scheme, int) kmon" where
  "piperead pi addr n = bnd myproc (\<lambda>p.
     bnd (acquire (pipe_lock pi)) (\<lambda>_.
     bnd (get_pipe pi (\<lambda>q. pipe_empty q \<and> writeopen q)) (\<lambda>wt.
     if wt
     then bnd (get_proc p killed) (\<lambda>k.
       if k then bnd (release (pipe_lock pi)) (\<lambda>_. ret (- 1))
       else sleep (nread_chan pi) (pipe_lock pi))
     else bnd (piperead_loop pi p addr 0 (nat n)) (\<lambda>i.
       bnd (wakeup (nwrite_chan pi)) (\<lambda>_.
       bnd (release (pipe_lock pi)) (\<lambda>_.
       ret (int i)))))))"

end
