(* ===== verification/File.thy ===== *)
theory File
  imports Pipe
begin

unbundle bit_operations_syntax

text \<open>
  Open files, \<open>kernel/file.c\<close> and \<open>pipealloc\<close>. A \<open>struct file *\<close> is an index into \<open>ftable.file\<close>.
  The only device is the console: \<open>devsw\<close> says whether its functions are registered.
\<close>

datatype file_type = FD_NONE | FD_PIPE | FD_INODE | FD_DEVICE

record file_struct =
  ftype :: file_type
  fref :: int
  readable :: u8
  writable :: u8
  fpipe :: u64
  fip :: "nat option"
  foff :: u32
  fmajor :: u16

record ftable = pipes +
  files :: "nat \<Rightarrow> file_struct"

abbreviation ftable_lock :: lock where
  "ftable_lock \<equiv> Lock ''ftable'' 0"

definition upd_file :: "nat \<Rightarrow> (file_struct \<Rightarrow> file_struct) \<Rightarrow> ('z ftable_scheme, unit) kmon" where
  "upd_file f g = modify (\<lambda>s. s\<lparr>files := (files s)(f := g (files s f))\<rparr>)"

definition get_file :: "nat \<Rightarrow> (file_struct \<Rightarrow> 'b) \<Rightarrow> ('z ftable_scheme, 'b) kmon" where
  "get_file f g = gets (\<lambda>s. g (files s f))"

section \<open>The file table\<close>

definition find_free_file :: "(nat \<Rightarrow> file_struct) \<Rightarrow> nat option" where
  "find_free_file tab = find (\<lambda>f. fref (tab f) = 0) [0..<NFILE]"

definition filealloc :: "('z ftable_scheme, nat option) kmon" where
  "filealloc = bnd (acquire ftable_lock) (\<lambda>_.
     bnd (gets files) (\<lambda>tab.
     case find_free_file tab of
       Some f \<Rightarrow>
         bnd (upd_file f (\<lambda>x. x\<lparr>fref := 1\<rparr>)) (\<lambda>_.
         bnd (release ftable_lock) (\<lambda>_.
         ret (Some f)))
     | None \<Rightarrow> bnd (release ftable_lock) (\<lambda>_. ret None)))"

definition filedup :: "nat \<Rightarrow> ('z ftable_scheme, nat) kmon" where
  "filedup f = bnd (acquire ftable_lock) (\<lambda>_.
     bnd (get_file f fref) (\<lambda>r.
     if r < 1 then panic ''filedup''
     else bnd (upd_file f (\<lambda>x. x\<lparr>fref := fref x + 1\<rparr>)) (\<lambda>_.
       bnd (release ftable_lock) (\<lambda>_.
       ret f))))"

definition fileclose :: "nat \<Rightarrow> ('z ftable_scheme, unit) kmon" where
  "fileclose f = bnd (acquire ftable_lock) (\<lambda>_.
     bnd (get_file f fref) (\<lambda>r.
     if r < 1 then panic ''fileclose''
     else bnd (upd_file f (\<lambda>x. x\<lparr>fref := fref x - 1\<rparr>)) (\<lambda>_.
       bnd (get_file f (\<lambda>x. x)) (\<lambda>ff.
       if fref ff > 0 then release ftable_lock
       else bnd (upd_file f (\<lambda>x. x\<lparr>fref := 0, ftype := FD_NONE\<rparr>)) (\<lambda>_.
         bnd (release ftable_lock) (\<lambda>_.
         if ftype ff = FD_PIPE then pipeclose (fpipe ff) (writable ff \<noteq> 0)
         else guarded (ftype ff = FD_INODE \<or> ftype ff = FD_DEVICE)
           (bnd begin_op (\<lambda>_.
            bnd (iput (fip ff)) (\<lambda>_.
            end_op)))))))))"

definition pipealloc :: "('z ftable_scheme, (nat \<times> nat) option) kmon" where
  "pipealloc = bnd filealloc (\<lambda>f0.
     case f0 of None \<Rightarrow> ret None
     | Some f0 \<Rightarrow>
       bnd filealloc (\<lambda>f1.
       case f1 of None \<Rightarrow> bnd (fileclose f0) (\<lambda>_. ret None)
       | Some f1 \<Rightarrow>
         bnd kalloc (\<lambda>pi.
         if pi = 0 then bnd (fileclose f0) (\<lambda>_. bnd (fileclose f1) (\<lambda>_. ret None))
         else bnd (upd_pipe pi (\<lambda>q. q\<lparr>readopen := True, writeopen := True, nwrite := 0, nread := 0\<rparr>)) (\<lambda>_.
           bnd (upd_file f0 (\<lambda>x. x\<lparr>ftype := FD_PIPE, readable := 1, writable := 0, fpipe := pi\<rparr>)) (\<lambda>_.
           bnd (upd_file f1 (\<lambda>x. x\<lparr>ftype := FD_PIPE, readable := 0, writable := 1, fpipe := pi\<rparr>)) (\<lambda>_.
           ret (Some (f0, f1))))))))"

section \<open>Reading, writing and metadata\<close>

text \<open>The bytes of a \<open>struct stat\<close>: 4 + 4 + 2 + 2, padding, 8.\<close>

definition stat_bytes :: "stat \<Rightarrow> u8 list" where
  "stat_bytes st = le_bytes 4 (st_dev st) @ le_bytes 4 (st_ino st) @ le_bytes 2 (st_type st) @
     le_bytes 2 (st_nlink st) @ replicate 4 0 @ le_bytes 8 (st_size st)"

definition filestat :: "nat \<Rightarrow> u64 \<Rightarrow> ('z ftable_scheme, int) kmon" where
  "filestat f addr = bnd myproc (\<lambda>p.
     bnd (get_file f (\<lambda>x. x)) (\<lambda>x.
     if ftype x = FD_INODE \<or> ftype x = FD_DEVICE
     then bnd (ilock (fip x)) (\<lambda>_.
       bnd (deref (fip x)) (\<lambda>i.
       bnd (stati i) (\<lambda>st.
       bnd (iunlock (fip x)) (\<lambda>_.
       bnd (get_proc p pagetable) (\<lambda>pt.
       bnd (copyout pt addr (stat_bytes st)) (\<lambda>r.
       if r < 0 then ret (- 1) else ret 0))))))
     else ret (- 1)))"

definition has_dev :: "u16 \<Rightarrow> 'z console_scheme \<Rightarrow> bool" where
  "has_dev mj s \<longleftrightarrow> 0 \<le> sint mj \<and> sint mj < int NDEV \<and> devsw s (unat mj)"

definition fileread :: "nat \<Rightarrow> u64 \<Rightarrow> int \<Rightarrow> ('z ftable_scheme, int) kmon" where
  "fileread f addr n = bnd (get_file f (\<lambda>x. x)) (\<lambda>x.
     if readable x = 0 then ret (- 1)
     else case ftype x of
       FD_PIPE \<Rightarrow> piperead (fpipe x) addr n
     | FD_DEVICE \<Rightarrow> bnd (gets (has_dev (fmajor x))) (\<lambda>ok.
         if \<not> ok then ret (- 1) else consoleread True addr n)
     | FD_INODE \<Rightarrow>
         bnd (ilock (fip x)) (\<lambda>_.
         bnd (deref (fip x)) (\<lambda>i.
         bnd (readi i (ToUser addr) (foff x) (word_of_int n)) (\<lambda>(r, _).
         bnd (guarded (r > 0) (upd_file f (\<lambda>x. x\<lparr>foff := foff x + word_of_int r\<rparr>))) (\<lambda>_.
         bnd (iunlock (fip x)) (\<lambda>_.
         ret r)))))
     | FD_NONE \<Rightarrow> panic ''fileread'')"

text \<open>A write goes to the file in pieces of at most 3 blocks, each its own transaction.\<close>

definition filewrite_max :: int where
  "filewrite_max = int ((MAXOPBLOCKS - 1 - 1 - 2) div 2 * BSIZE)"

definition filewrite_piece :: "nat \<Rightarrow> u64 \<Rightarrow> int \<Rightarrow> ('z ftable_scheme, int) kmon" where
  "filewrite_piece f addr n1 =
     bnd begin_op (\<lambda>_.
     bnd (get_file f (\<lambda>x. x)) (\<lambda>x.
     bnd (ilock (fip x)) (\<lambda>_.
     bnd (deref (fip x)) (\<lambda>i.
     bnd (get_file f foff) (\<lambda>off.
     bnd (writei i (FromUser addr) off (word_of_int n1)) (\<lambda>r.
     bnd (guarded (r > 0) (upd_file f (\<lambda>x. x\<lparr>foff := foff x + word_of_int r\<rparr>))) (\<lambda>_.
     bnd (iunlock (fip x)) (\<lambda>_.
     bnd end_op (\<lambda>_.
     ret r)))))))))"

function filewrite_loop :: "nat \<Rightarrow> u64 \<Rightarrow> int \<Rightarrow> int \<Rightarrow> 'z ftable_scheme \<Rightarrow> (int, 'z ftable_scheme) outcome" where
  "filewrite_loop f addr n i s =
     (if i < n
      then let n1 = min (n - i) filewrite_max in
        bnd (filewrite_piece f (addr + word_of_int i) n1) (\<lambda>r t.
          if r \<noteq> n1 then Ok i t else filewrite_loop f addr n (i + r) t) s
      else Ok i s)"
  by pat_completeness auto
termination
  by (relation "measure (\<lambda>(f, addr, n, i, s). nat (n - i))") (auto simp: filewrite_max_def)

declare filewrite_loop.simps [simp del]

definition filewrite :: "nat \<Rightarrow> u64 \<Rightarrow> int \<Rightarrow> ('z ftable_scheme, int) kmon" where
  "filewrite f addr n = bnd (get_file f (\<lambda>x. x)) (\<lambda>x.
     if writable x = 0 then ret (- 1)
     else case ftype x of
       FD_PIPE \<Rightarrow> pipewrite (fpipe x) addr n
     | FD_DEVICE \<Rightarrow> bnd (gets (has_dev (fmajor x))) (\<lambda>ok.
         if \<not> ok then ret (- 1) else consolewrite True addr n)
     | FD_INODE \<Rightarrow> bnd (filewrite_loop f addr n 0) (\<lambda>i. ret (if i = n then n else - 1))
     | FD_NONE \<Rightarrow> panic ''filewrite'')"

end
