(* ===== verification/Vma.thy ===== *)
theory Vma
  imports File
begin

unbundle bit_operations_syntax

text \<open>
  Memory-mapped files, \<open>mmap\<close> and \<open>munmap\<close> of \<open>kernel/file.c\<close>. The areas of all processes come
  from the global array \<open>vmas\<close>; the areas of a process form a list through \<open>vnext\<close> that starts at
  \<open>pvmas\<close> and has \<open>nvma\<close> elements.
\<close>

section \<open>State\<close>

record vma =
  vuse :: bool
  vsize :: u64
  vofile :: "nat option"
  addrinit :: u64
  addri :: u64
  addre :: u64
  voffset :: u64
  vnext :: "nat option"
  prot :: int
  flag :: int

record vstate = ftable +
  vmas :: "nat \<Rightarrow> vma"

abbreviation vmaslock :: lock where
  "vmaslock \<equiv> Lock ''vmaslock'' 0"

definition upd_vma :: "nat \<Rightarrow> (vma \<Rightarrow> vma) \<Rightarrow> ('z vstate_scheme, unit) kmon" where
  "upd_vma v f = modify (\<lambda>s. s\<lparr>vmas := (vmas s)(v := f (vmas s v))\<rparr>)"

definition get_vma :: "nat \<Rightarrow> (vma \<Rightarrow> 'b) \<Rightarrow> ('z vstate_scheme, 'b) kmon" where
  "get_vma v f = gets (\<lambda>s. f (vmas s v))"

text \<open>\<open>p->ofile[fd]\<close>; an index outside the array is undefined and faults here.\<close>

definition ofile_at :: "nat \<Rightarrow> int \<Rightarrow> ('z ptable_scheme, nat option) kmon" where
  "ofile_at p fd = bnd (get_proc p ofile) (\<lambda>fs.
     if 0 \<le> fd \<and> nat fd < length fs then ret (fs ! nat fd) else stop (Fault 0))"

section \<open>mmap\<close>

definition find_free_vma :: "(nat \<Rightarrow> vma) \<Rightarrow> nat option" where
  "find_free_vma tab = find (\<lambda>c. \<not> vuse (tab c)) [0..<VMAS_STORED]"

text \<open>\<open>findVma\<close>; \<open>None\<close> is the pointer \<open>0xffffffffffffffff\<close>.\<close>

definition findVma :: "('z vstate_scheme, nat option) kmon" where
  "findVma = bnd (acquire vmaslock) (\<lambda>_.
     bnd (gets (\<lambda>s. find_free_vma (vmas s))) (\<lambda>r.
     case r of
       Some c \<Rightarrow>
         bnd (upd_vma c (\<lambda>v. v\<lparr>vuse := True\<rparr>)) (\<lambda>_.
         bnd (release vmaslock) (\<lambda>_.
         ret (Some c)))
     | None \<Rightarrow> bnd (release vmaslock) (\<lambda>_. ret None)))"

text \<open>
  The search loop, at most \<open>MAX_VMAS + 1\<close> iterations: \<open>Inr n\<close> jumps to \<open>allocated\<close>, \<open>Inl r\<close>
  returns \<open>r\<close>. Two of the returns leave \<open>p->lock\<close> held, as in the source.
\<close>

primrec mmap_loop ::
  "nat \<Rightarrow> u64 \<Rightarrow> nat \<Rightarrow> nat option \<Rightarrow> nat option \<Rightarrow> ('z vstate_scheme, u64 + nat) kmon" where
  "mmap_loop p psize 0 prev act = ret (Inl (- 1))"
| "mmap_loop p psize (Suc k) prev act =
     bnd (gets vmas) (\<lambda>tab.
     case act of
       None \<Rightarrow>
         (let base = (case prev of Some q \<Rightarrow> addre (tab q) | None \<Rightarrow> START_ADDRESS) in
          if base + psize > TOP_ADDRESS then ret (Inl (- 1))
          else bnd findVma (\<lambda>r.
            case r of
              None \<Rightarrow> bnd (release (plock p)) (\<lambda>_. ret (Inl (- 1)))
            | Some n \<Rightarrow>
                bnd (case prev of
                  None \<Rightarrow> upd_vma n (\<lambda>v. v\<lparr>addri := START_ADDRESS, addre := START_ADDRESS + psize\<rparr>)
                | Some q \<Rightarrow>
                    bnd (upd_vma q (\<lambda>v. v\<lparr>vnext := Some n\<rparr>)) (\<lambda>_.
                    bnd (get_vma q addre) (\<lambda>e.
                    upd_vma n (\<lambda>v. v\<lparr>addri := e, addre := e + psize\<rparr>)))) (\<lambda>_.
                bnd (upd_vma n (\<lambda>v. v\<lparr>vnext := None\<rparr>)) (\<lambda>_.
                ret (Inr n)))))
     | Some a \<Rightarrow>
         (case prev of
            None \<Rightarrow> mmap_loop p psize k (Some a) (vnext (tab a))
          | Some q \<Rightarrow>
              if addre (tab q) + psize \<le> addri (tab a)
              then bnd findVma (\<lambda>r.
                case r of
                  None \<Rightarrow> bnd (release (plock p)) (\<lambda>_. ret (Inl (- 1)))
                | Some n \<Rightarrow>
                    bnd (upd_vma q (\<lambda>v. v\<lparr>vnext := Some n\<rparr>)) (\<lambda>_.
                    bnd (get_vma q addre) (\<lambda>e.
                    bnd (upd_vma n (\<lambda>v. v\<lparr>vnext := Some a, addri := e, addre := e + psize\<rparr>)) (\<lambda>_.
                    ret (Inr n)))))
              else mmap_loop p psize k (Some a) (vnext (tab a))))"

definition mmap :: "u64 \<Rightarrow> int \<Rightarrow> int \<Rightarrow> int \<Rightarrow> ('z vstate_scheme, u64) kmon" where
  "mmap length0 prot0 flag0 fd = bnd myproc (\<lambda>p.
     bnd (if flag0 = uint MAP_SHARED
       then bnd (ofile_at p fd) (\<lambda>o0. bnd (deref o0) (\<lambda>f. get_file f (\<lambda>x. readable x \<noteq> 1 \<or> writable x \<noteq> 1)))
       else ret False) (\<lambda>denied.
     if denied then ret (- 1)
     else bnd (acquire (plock p)) (\<lambda>_.
       bnd (get_proc p nvma) (\<lambda>nv.
       if nv = int MAX_VMAS then bnd (release (plock p)) (\<lambda>_. ret (- 1))
       else bnd (get_proc p pvmas) (\<lambda>act.
         bnd (mmap_loop p (PGROUNDUP length0) (Suc MAX_VMAS) None act) (\<lambda>r.
         case r of
           Inl v \<Rightarrow> ret v
         | Inr n \<Rightarrow>
             bnd (ofile_at p fd) (\<lambda>o0.
             bnd (upd_vma n (\<lambda>v. v\<lparr>vsize := length0, prot := prot0, vofile := o0, voffset := 0, flag := flag0,
               addrinit := addri v\<rparr>)) (\<lambda>_.
             bnd (deref o0) (\<lambda>f.
             bnd (upd_file f (\<lambda>x. x\<lparr>fref := fref x + 1\<rparr>)) (\<lambda>_.
             bnd (upd_proc p (\<lambda>q. if nvma q = 0 then q\<lparr>pvmas := Some n\<rparr> else q)) (\<lambda>_.
             bnd (upd_proc p (\<lambda>q. q\<lparr>nvma := nvma q + 1\<rparr>)) (\<lambda>_.
             bnd (release (plock p)) (\<lambda>_.
             get_vma n addri)))))))))))))"

section \<open>munmap\<close>

text \<open>The search: position, previous and found area; following a null pointer faults.\<close>

primrec munmap_find ::
  "u64 \<Rightarrow> u64 \<Rightarrow> nat \<Rightarrow> nat option \<Rightarrow> nat option \<Rightarrow> ('z vstate_scheme, (nat option \<times> nat) option) kmon" where
  "munmap_find addr len 0 prev act = ret None"
| "munmap_find addr len (Suc k) prev act =
     bnd (deref act) (\<lambda>a.
     bnd (get_vma a (\<lambda>v. v)) (\<lambda>v.
     if addr + len \<ge> addri v \<and> addr + len \<le> addre v \<and> addr \<ge> addri v \<and> addr < addre v
     then ret (Some (prev, a))
     else munmap_find addr len k (Some a) (vnext v)))"

definition freeVma :: "nat \<Rightarrow> nat option \<Rightarrow> nat \<Rightarrow> ('z vstate_scheme, unit) kmon" where
  "freeVma p prev act = bnd (acquire vmaslock) (\<lambda>_.
     bnd (get_vma act (\<lambda>v. v)) (\<lambda>v.
     bnd (case prev of
         None \<Rightarrow> upd_proc p (\<lambda>q. q\<lparr>pvmas := vnext v\<rparr>)
       | Some q \<Rightarrow> upd_vma q (\<lambda>w. w\<lparr>vnext := vnext v\<rparr>)) (\<lambda>_.
     bnd (deref (vofile v)) (\<lambda>f.
     bnd (upd_file f (\<lambda>x. x\<lparr>fref := fref x - 1\<rparr>)) (\<lambda>_.
     bnd (upd_vma act (\<lambda>v. v\<lparr>vuse := False, vsize := 0, vofile := None, addrinit := 0, addri := 0, addre := 0,
       voffset := 0, vnext := None, prot := 0, flag := 0\<rparr>)) (\<lambda>_.
     bnd (upd_proc p (\<lambda>q. q\<lparr>nvma := nvma q - 1\<rparr>)) (\<lambda>_.
     release vmaslock)))))))"

text \<open>\<open>addr+i*PGSIZE\<close>, where \<open>i*PGSIZE\<close> is an \<open>int\<close> product of 32 bits.\<close>

definition page_at :: "u64 \<Rightarrow> nat \<Rightarrow> u64" where
  "page_at addr i = PGROUNDDOWN (addr + scast (of_nat i * 4096 :: u32))"

text \<open>The write-back of one dirty page of a shared area: \<open>Inl\<close> on failure, else the flag \<open>out\<close>.\<close>

definition write_back :: "nat \<Rightarrow> nat \<Rightarrow> u64 \<Rightarrow> nat \<Rightarrow> ('z vstate_scheme, unit + bool) kmon" where
  "write_back p act addr i =
     bnd (get_vma act (\<lambda>v. v)) (\<lambda>v.
     bnd (deref (vofile v)) (\<lambda>f.
     bnd (get_file f fip) (\<lambda>ip.
     bnd (ilock ip) (\<lambda>_.
     bnd (deref ip) (\<lambda>ino.
     bnd (get_inode ino isize) (\<lambda>sz.
     let sizeWritten = sint (of_nat (4096 * (i + 1)) - sz);
         out = sizeWritten > 0;
         n = (if out then sizeWritten else 4096)
     in bnd (writei ino (FromUser (page_at addr i)) (ucast (page_at addr i - addrinit v)) (word_of_int n)) (\<lambda>r.
       bnd (iunlock ip) (\<lambda>_.
       if r = - 1 then bnd (release (plock p)) (\<lambda>_. ret (Inl ()))
       else ret (Inr out)))))))))"

primrec munmap_pages :: "nat \<Rightarrow> nat \<Rightarrow> u64 \<Rightarrow> bool \<Rightarrow> nat list \<Rightarrow> ('z vstate_scheme, bool) kmon" where
  "munmap_pages p act addr out [] = ret True"
| "munmap_pages p act addr out (i # js) =
     bnd (get_proc p pagetable) (\<lambda>pt.
     bnd (walk pt (page_at addr i) False) (\<lambda>pte.
     bnd (kload64 pte) (\<lambda>e.
     if e AND PTE_V = 0 then munmap_pages p act addr out js
     else bnd (get_vma act flag) (\<lambda>fl.
       bnd (if e AND PTE_D \<noteq> 0 \<and> fl = uint MAP_SHARED
         then bnd (write_back p act addr i) (\<lambda>r. ret (case r of Inl _ \<Rightarrow> None | Inr o1 \<Rightarrow> Some (out \<or> o1)))
         else ret (Some out)) (\<lambda>r.
       case r of
         None \<Rightarrow> ret False
       | Some out' \<Rightarrow>
           bnd (uvmunmap pt (page_at addr i) 1 True) (\<lambda>_.
           if out' then ret True else munmap_pages p act addr out' js))))))"

definition munmap :: "u64 \<Rightarrow> u64 \<Rightarrow> ('z vstate_scheme, int) kmon" where
  "munmap addr len = bnd myproc (\<lambda>p.
     bnd (acquire (plock p)) (\<lambda>_.
     bnd (get_proc p (\<lambda>q. q)) (\<lambda>q.
     bnd (munmap_find addr len (nat (nvma q)) None (pvmas q)) (\<lambda>r.
     case r of
       None \<Rightarrow> bnd (release (plock p)) (\<lambda>_. ret (- 1))
     | Some (prev, act) \<Rightarrow>
         bnd (munmap_pages p act addr False [0..<unat (PGROUNDUP len div PGSIZE)]) (\<lambda>ok.
         if \<not> ok then ret (- 1)
         else bnd (get_vma act (\<lambda>v. v)) (\<lambda>v.
           bnd (if addri v + PGROUNDUP len = addre v then freeVma p prev act
             else if addri v = addr then upd_vma act (\<lambda>v. v\<lparr>addri := addri v + PGROUNDUP len\<rparr>)
             else upd_vma act (\<lambda>v. v\<lparr>addre := PGROUNDDOWN addr\<rparr>)) (\<lambda>_.
           bnd (release (plock p)) (\<lambda>_.
           ret 0))))))))"

end
