(* ===== verification/Process.thy ===== *)
theory Process
  imports Vma "HOL-Library.While_Combinator"
begin

unbundle bit_operations_syntax

text \<open>
  Creation and end of processes, the part of \<open>kernel/proc.c\<close> that uses files: \<open>userinit\<close>,
  \<open>fork\<close> with the copy of the mapped areas, \<open>exit\<close>.
\<close>

section \<open>The first process\<close>

definition initcode :: "u8 list" where
  "initcode =
    [0x17, 0x05, 0x00, 0x00, 0x13, 0x05, 0x45, 0x02,
     0x97, 0x05, 0x00, 0x00, 0x93, 0x85, 0x35, 0x02,
     0x93, 0x08, 0x70, 0x00, 0x73, 0x00, 0x00, 0x00,
     0x93, 0x08, 0x20, 0x00, 0x73, 0x00, 0x00, 0x00,
     0xef, 0xf0, 0x9f, 0xff, 0x2f, 0x69, 0x6e, 0x69,
     0x74, 0x00, 0x00, 0x24, 0x00, 0x00, 0x00, 0x00,
     0x00, 0x00, 0x00, 0x00]"

text \<open>\<open>safestrcpy(p->name, src, sizeof(p->name))\<close>.\<close>

definition set_name :: "u8 list \<Rightarrow> proc \<Rightarrow> proc" where
  "set_name src q = q\<lparr>pname := put_at (pname q) 0 (safestrcpy (cstr_of src) 16)\<rparr>"

text \<open>The word of the trapframe of \<open>p\<close> at a byte offset.\<close>

definition tf_get :: "nat \<Rightarrow> u64 \<Rightarrow> ('z ptable_scheme, u64) kmon" where
  "tf_get p off = bnd (get_proc p trapframe) (\<lambda>tf. kload64 (tf + off))"

definition tf_set :: "nat \<Rightarrow> u64 \<Rightarrow> u64 \<Rightarrow> ('z ptable_scheme, unit) kmon" where
  "tf_set p off v = bnd (get_proc p trapframe) (\<lambda>tf. kstore64 (tf + off) v)"

abbreviation tf_epc :: u64 where "tf_epc \<equiv> 24"

abbreviation tf_sp :: u64 where "tf_sp \<equiv> 48"

abbreviation tf_a :: "nat \<Rightarrow> u64" where "tf_a n \<equiv> 112 + 8 * of_nat n"

definition userinit :: "('z vstate_scheme, unit) kmon" where
  "userinit = bnd allocproc (\<lambda>r.
     bnd (modify (\<lambda>s. s\<lparr>initproc := r\<rparr>)) (\<lambda>_.
     bnd (deref r) (\<lambda>p.
     bnd (get_proc p pagetable) (\<lambda>pt.
     bnd (uvminit pt initcode) (\<lambda>_.
     bnd (upd_proc p (\<lambda>q. q\<lparr>psz := PGSIZE\<rparr>)) (\<lambda>_.
     bnd (tf_set p tf_epc 0) (\<lambda>_.
     bnd (tf_set p tf_sp PGSIZE) (\<lambda>_.
     bnd (upd_proc p (set_name (ascii ''initcode''))) (\<lambda>_.
     bnd (namei [slash]) (\<lambda>c.
     bnd (upd_proc p (\<lambda>q. q\<lparr>cwd := c\<rparr>)) (\<lambda>_.
     bnd (upd_proc p (\<lambda>q. q\<lparr>pvmas := None\<rparr>)) (\<lambda>_.
     bnd (upd_proc p (\<lambda>q. q\<lparr>state := RUNNABLE\<rparr>)) (\<lambda>_.
     release (plock p))))))))))))))"

section \<open>fork\<close>

text \<open>
  The inner search of the copy of the areas, from slot \<open>c\<close>: the free slot found; no free slot
  (the search ends at the last slot); or no search at all because \<open>c\<close> is past the array.
\<close>

datatype fork_slot = SlotFound nat | SlotsFull | SlotsPassed

definition fork_scan :: "nat \<Rightarrow> (nat \<Rightarrow> vma) \<Rightarrow> fork_slot" where
  "fork_scan c tab =
     (if c < VMAS_STORED
      then case find (\<lambda>d. \<not> vuse (tab d)) [c..<VMAS_STORED] of Some d \<Rightarrow> SlotFound d | None \<Rightarrow> SlotsFull
      else SlotsPassed)"

primrec fork_vmas ::
  "nat \<Rightarrow> nat \<Rightarrow> nat \<Rightarrow> nat option \<Rightarrow> nat option \<Rightarrow> nat \<Rightarrow> ('z vstate_scheme, bool) kmon" where
  "fork_vmas np i c pindex act 0 = ret True"
| "fork_vmas np i c pindex act (Suc n) =
     bnd (gets (\<lambda>s. fork_scan c (vmas s))) (\<lambda>r.
     case r of
       SlotsFull \<Rightarrow> bnd (release vmaslock) (\<lambda>_. bnd (release (plock np)) (\<lambda>_. ret False))
     | SlotsPassed \<Rightarrow>
         bnd (deref act) (\<lambda>a. bnd (get_vma a vnext) (\<lambda>nx. fork_vmas np (Suc i) (Suc c) pindex nx n))
     | SlotFound d \<Rightarrow>
         bnd (if i = 0 then upd_proc np (\<lambda>q. q\<lparr>pvmas := Some d\<rparr>)
           else bnd (deref pindex) (\<lambda>k. upd_vma k (\<lambda>v. v\<lparr>vnext := Some d\<rparr>))) (\<lambda>_.
         bnd (upd_vma d (\<lambda>v. v\<lparr>vuse := True\<rparr>)) (\<lambda>_.
         bnd (deref act) (\<lambda>a.
         bnd (get_vma a (\<lambda>v. v)) (\<lambda>va.
         bnd (upd_vma d (\<lambda>v. v\<lparr>vsize := vsize va, vofile := vofile va, addrinit := addrinit va,
           addri := addri va, addre := addre va, voffset := voffset va, vnext := None,
           prot := prot va, flag := flag va\<rparr>)) (\<lambda>_.
         bnd (deref (vofile va)) (\<lambda>f.
         bnd (upd_file f (\<lambda>x. x\<lparr>fref := fref x + 1\<rparr>)) (\<lambda>_.
         bnd (get_vma a vnext) (\<lambda>nx.
         fork_vmas np (Suc i) (Suc d) (Some d) nx n)))))))))"

definition dup_ofile :: "nat \<Rightarrow> nat \<Rightarrow> nat \<Rightarrow> ('z ftable_scheme, unit) kmon" where
  "dup_ofile p np i = bnd (get_proc p (\<lambda>q. ofile q ! i)) (\<lambda>o0.
     case o0 of None \<Rightarrow> ret ()
     | Some f \<Rightarrow> bnd (filedup f) (\<lambda>g. upd_proc np (\<lambda>q. q\<lparr>ofile := (ofile q)[i := Some g]\<rparr>)))"

definition fork :: "('z vstate_scheme, int) kmon" where
  "fork = bnd myproc (\<lambda>p.
     bnd allocproc (\<lambda>r.
     case r of None \<Rightarrow> ret (- 1)
     | Some np \<Rightarrow>
       bnd (get_proc p (\<lambda>q. q)) (\<lambda>q.
       bnd (get_proc np pagetable) (\<lambda>npt.
       bnd (uvmcopy (pagetable q) npt (psz q)) (\<lambda>e.
       if e < 0 then bnd (freeproc np) (\<lambda>_. bnd (release (plock np)) (\<lambda>_. ret (- 1)))
       else bnd (upd_proc np (\<lambda>n. n\<lparr>psz := psz q\<rparr>)) (\<lambda>_.
         bnd (get_proc np trapframe) (\<lambda>ntf.
         bnd (kmemmove ntf (trapframe q) 288) (\<lambda>_.
         bnd (tf_set np (tf_a 0) 0) (\<lambda>_.
         bnd (for_each (dup_ofile p np) [0..<NOFILE]) (\<lambda>_.
         bnd (get_proc p cwd) (\<lambda>c.
         bnd (idup c) (\<lambda>c.
         bnd (upd_proc np (\<lambda>n. n\<lparr>cwd := c\<rparr>)) (\<lambda>_.
         bnd (upd_proc np (set_name (pname q))) (\<lambda>_.
         bnd (get_proc np pid) (\<lambda>pd.
         bnd (get_proc p (\<lambda>q. (nvma q, pvmas q))) (\<lambda>(nv, act).
         bnd (upd_proc np (\<lambda>n. n\<lparr>nvma := nv\<rparr>)) (\<lambda>_.
         bnd (acquire vmaslock) (\<lambda>_.
         bnd (fork_vmas np 0 0 None act (nat nv)) (\<lambda>ok.
         if \<not> ok then ret (- 1)
         else bnd (release vmaslock) (\<lambda>_.
           bnd (release (plock np)) (\<lambda>_.
           bnd (acquire wait_lock) (\<lambda>_.
           bnd (upd_proc np (\<lambda>n. n\<lparr>parent := Some p\<rparr>)) (\<lambda>_.
           bnd (release wait_lock) (\<lambda>_.
           bnd (fork_start np) (\<lambda>_.
           ret pd)))))))))))))))))))))))))"

section \<open>exit\<close>

definition close_ofile :: "nat \<Rightarrow> nat \<Rightarrow> ('z ftable_scheme, unit) kmon" where
  "close_ofile p fd = bnd (get_proc p (\<lambda>q. ofile q ! fd)) (\<lambda>o0.
     case o0 of None \<Rightarrow> ret ()
     | Some f \<Rightarrow> bnd (fileclose f) (\<lambda>_. upd_proc p (\<lambda>q. q\<lparr>ofile := (ofile q)[fd := None]\<rparr>)))"

text \<open>
  The loop that unmaps every area, \<open>while(p->nvma > 0)\<close>. It need not end: a round of it that
  leaves the number of areas as it was may be repeated forever, which is \<open>Blocked\<close> here.
\<close>

definition unmap_first :: "nat \<Rightarrow> ('z vstate_scheme, unit) kmon" where
  "unmap_first p = bnd (get_proc p pvmas) (\<lambda>act.
     bnd (deref act) (\<lambda>a.
     bnd (get_vma a (\<lambda>v. v)) (\<lambda>v.
     bnd (munmap (addri v) (addre v - addri v)) (\<lambda>_.
     ret ()))))"

definition unmap_all :: "nat \<Rightarrow> ('z vstate_scheme, unit) kmon" where
  "unmap_all p s =
     (case while_option
        (\<lambda>r. case r of Ok _ t \<Rightarrow> nvma (proc t p) > 0 | Halt _ _ \<Rightarrow> False)
        (\<lambda>r. case r of Ok _ t \<Rightarrow> unmap_first p t | Halt h t \<Rightarrow> Halt h t) (Ok () s) of
      Some r \<Rightarrow> r
    | None \<Rightarrow> Halt (Blocked ''exit'') s)"

definition exit :: "int \<Rightarrow> ('z vstate_scheme, 'a) kmon" where
  "exit status = bnd myproc (\<lambda>p.
     bnd (gets initproc) (\<lambda>ip.
     if ip = Some p then panic ''init exiting''
     else bnd (for_each (close_ofile p) [0..<NOFILE]) (\<lambda>_.
       bnd (unmap_all p) (\<lambda>_.
       bnd begin_op (\<lambda>_.
       bnd (get_proc p cwd) (\<lambda>c.
       bnd (iput c) (\<lambda>_.
       bnd end_op (\<lambda>_.
       bnd (upd_proc p (\<lambda>q. q\<lparr>cwd := None\<rparr>)) (\<lambda>_.
       bnd (exit_zombie p status) (\<lambda>_.
       stop (Exited status)))))))))))"

end
