(* ===== verification/Exec.thy ===== *)
theory Exec
  imports Process
begin

unbundle bit_operations_syntax

text \<open>
  Loading a program, \<open>kernel/exec.c\<close>. The ELF structures are read from the bytes of the file
  at the offsets of \<open>kernel/elf.h\<close>. The argument strings are byte lists without the final NUL.
\<close>

definition ELF_MAGIC :: u32 where [simp]: "ELF_MAGIC = 0x464C457F"

definition ELF_PROG_LOAD :: u32 where [simp]: "ELF_PROG_LOAD = 1"

record elfhdr =
  magic :: u32
  entry :: u64
  phoff :: u64
  phnum :: u16

definition elfhdr_of :: "u8 list \<Rightarrow> elfhdr" where
  "elfhdr_of bs = \<lparr>magic = get32 bs 0, entry = get64 bs 24, phoff = get64 bs 32, phnum = get16 bs 56\<rparr>"

record proghdr =
  ptype :: u32
  poff :: u64
  vaddr :: u64
  filesz :: u64
  memsz :: u64

definition proghdr_of :: "u8 list \<Rightarrow> proghdr" where
  "proghdr_of bs = \<lparr>ptype = get32 bs 0, poff = get64 bs 8, vaddr = get64 bs 16,
     filesz = get64 bs 32, memsz = get64 bs 40\<rparr>"

section \<open>Segments\<close>

text \<open>
  The loop of \<open>loadseg\<close> over the page offsets. Its counter is a \<open>uint\<close>: for a size in the last
  page of the 32-bit range it wraps to 0 and the loop starts again, forever.
\<close>

primrec loadseg_from ::
  "u64 \<Rightarrow> u64 \<Rightarrow> nat \<Rightarrow> u32 \<Rightarrow> u32 \<Rightarrow> u32 list \<Rightarrow> ('z fs_scheme, int) kmon" where
  "loadseg_from pt va ip offset sz [] = (if sz > 0xfffff000 then stop (Blocked ''loadseg'') else ret 0)"
| "loadseg_from pt va ip offset sz (i # js) =
     bnd (walkaddr pt (va + ucast i)) (\<lambda>pa.
     if pa = 0 then panic ''loadseg: address should exist''
     else let n = (if sz - i < 4096 then sz - i else 4096) in
       bnd (readi ip (ToKernel pa) (offset + i) n) (\<lambda>(r, _).
       if r \<noteq> uint n then ret (- 1) else loadseg_from pt va ip offset sz js))"

definition loadseg :: "u64 \<Rightarrow> u64 \<Rightarrow> nat \<Rightarrow> u32 \<Rightarrow> u32 \<Rightarrow> ('z fs_scheme, int) kmon" where
  "loadseg pt va ip offset sz =
     loadseg_from pt va ip offset sz (map (\<lambda>k. of_nat (4096 * k)) [0..<(unat sz + 4095) div 4096])"

text \<open>The loop over the program headers: \<open>Inl sz\<close> jumps to \<open>bad\<close> with the size reached.\<close>

primrec exec_load ::
  "u64 \<Rightarrow> nat \<Rightarrow> u32 \<Rightarrow> u64 \<Rightarrow> nat \<Rightarrow> ('z fs_scheme, u64 + u64) kmon" where
  "exec_load pt ip off sz 0 = ret (Inr sz)"
| "exec_load pt ip off sz (Suc n) =
     bnd (readi ip ToLocal off 56) (\<lambda>(r, bs).
     let ph = proghdr_of bs in
     if r \<noteq> 56 then ret (Inl sz)
     else if ptype ph \<noteq> ELF_PROG_LOAD then exec_load pt ip (off + 56) sz n
     else if memsz ph < filesz ph then ret (Inl sz)
     else if vaddr ph + memsz ph < vaddr ph then ret (Inl sz)
     else bnd (uvmalloc pt sz (vaddr ph + memsz ph)) (\<lambda>sz1.
       if sz1 = 0 then ret (Inl sz)
       else if vaddr ph mod PGSIZE \<noteq> 0 then ret (Inl sz1)
       else bnd (loadseg pt (vaddr ph) ip (ucast (poff ph)) (ucast (filesz ph))) (\<lambda>e.
         if e < 0 then ret (Inl sz1) else exec_load pt ip (off + 56) sz1 n)))"

section \<open>The user stack\<close>

text \<open>\<open>sp -= n; sp -= sp % 16\<close>.\<close>

definition sp_down :: "u64 \<Rightarrow> nat \<Rightarrow> u64" where
  "sp_down sp n = (let sp1 = sp - of_nat n in sp1 - sp1 mod 16)"

text \<open>The argument strings: the stack pointer and \<open>ustack\<close>, \<open>None\<close> for \<open>goto bad\<close>.\<close>

primrec exec_push ::
  "u64 \<Rightarrow> u64 \<Rightarrow> u64 \<Rightarrow> u64 list \<Rightarrow> u8 list list \<Rightarrow> ('z kmem_scheme, (u64 \<times> u64 list) option) kmon" where
  "exec_push pt stackbase sp ustack [] =
     (if length ustack < MAXARG then ret (Some (sp, ustack @ [0])) else stop (Fault 0))"
| "exec_push pt stackbase sp ustack (a # as) =
     (if length ustack \<ge> MAXARG then ret None
      else let sp1 = sp_down sp (length a + 1) in
        if sp1 < stackbase then ret None
        else bnd (copyout pt sp1 (a @ [0])) (\<lambda>r.
          if r < 0 then ret None else exec_push pt stackbase sp1 (ustack @ [sp1]) as))"

definition exec_stack ::
  "u64 \<Rightarrow> u64 \<Rightarrow> u8 list list \<Rightarrow> ('z kmem_scheme, u64 option) kmon" where
  "exec_stack pt sz argv =
     bnd (exec_push pt (sz - PGSIZE) sz [] argv) (\<lambda>r.
     case r of None \<Rightarrow> ret None
     | Some (sp, ustack) \<Rightarrow>
       let sp1 = sp_down sp (length ustack * 8) in
       if sp1 < sz - PGSIZE then ret None
       else bnd (copyout pt sp1 (concat (map (le_bytes 8) ustack))) (\<lambda>r.
         if r < 0 then ret None else ret (Some sp1)))"

section \<open>exec\<close>

definition exec_bad :: "u64 \<Rightarrow> u64 \<Rightarrow> nat option \<Rightarrow> ('z fs_scheme, int) kmon" where
  "exec_bad pt sz ip =
     bnd (guarded (pt \<noteq> 0) (proc_freepagetable pt sz)) (\<lambda>_.
     bnd (case ip of None \<Rightarrow> ret () | Some _ \<Rightarrow> bnd (iunlockput ip) (\<lambda>_. end_op)) (\<lambda>_.
     ret (- 1)))"

text \<open>The part after the program is loaded, with \<open>ip\<close> released.\<close>

definition exec_commit :: "u8 list \<Rightarrow> u8 list list \<Rightarrow> u64 \<Rightarrow> u64 \<Rightarrow> u64 \<Rightarrow> ('z fs_scheme, int) kmon" where
  "exec_commit path argv entry0 pt sz0 = bnd myproc (\<lambda>p.
     bnd (get_proc p psz) (\<lambda>oldsz.
     let sz = PGROUNDUP sz0 in
     bnd (uvmalloc pt sz (sz + 2 * PGSIZE)) (\<lambda>sz1.
     if sz1 = 0 then exec_bad pt sz None
     else bnd (uvmclear pt (sz1 - 2 * PGSIZE)) (\<lambda>_.
       bnd (exec_stack pt sz1 argv) (\<lambda>r.
       case r of None \<Rightarrow> exec_bad pt sz1 None
       | Some sp \<Rightarrow>
         bnd (tf_set p (tf_a 1) sp) (\<lambda>_.
         bnd (upd_proc p (set_name (rev (takeWhile (\<lambda>c. c \<noteq> slash) (rev path))))) (\<lambda>_.
         bnd (get_proc p pagetable) (\<lambda>oldpt.
         bnd (upd_proc p (\<lambda>q. q\<lparr>pagetable := pt, psz := sz1\<rparr>)) (\<lambda>_.
         bnd (tf_set p tf_epc entry0) (\<lambda>_.
         bnd (tf_set p tf_sp sp) (\<lambda>_.
         bnd (proc_freepagetable oldpt oldsz) (\<lambda>_.
         ret (int (length argv))))))))))))))"

definition exec :: "u8 list \<Rightarrow> u8 list list \<Rightarrow> ('z fs_scheme, int) kmon" where
  "exec path argv = bnd myproc (\<lambda>p.
     bnd begin_op (\<lambda>_.
     bnd (namei path) (\<lambda>r.
     case r of None \<Rightarrow> bnd end_op (\<lambda>_. ret (- 1))
     | Some ip \<Rightarrow>
       bnd (ilock (Some ip)) (\<lambda>_.
       bnd (readi ip ToLocal 0 64) (\<lambda>(n, bs).
       let elf = elfhdr_of bs in
       if n \<noteq> 64 \<or> magic elf \<noteq> ELF_MAGIC then exec_bad 0 0 (Some ip)
       else bnd (get_proc p trapframe) (\<lambda>tf.
         bnd (proc_pagetable tf) (\<lambda>pt.
         if pt = 0 then exec_bad 0 0 (Some ip)
         else bnd (exec_load pt ip (ucast (phoff elf)) 0 (unat (phnum elf))) (\<lambda>l.
           case l of Inl sz \<Rightarrow> exec_bad pt sz (Some ip)
           | Inr sz \<Rightarrow>
             bnd (iunlockput (Some ip)) (\<lambda>_.
             bnd end_op (\<lambda>_.
             exec_commit path argv (entry elf) pt sz))))))))))"

end
