(* ===== verification/Syscall.thy ===== *)
theory Syscall
  imports Exec
begin

unbundle bit_operations_syntax

text \<open>
  Arguments of system calls (\<open>kernel/syscall.c\<close>) and the calls of \<open>kernel/sysproc.c\<close>. Arguments
  are the saved user registers in the trapframe. A result is the 64-bit value of \<open>a0\<close>.
\<close>

section \<open>Fetching arguments\<close>

definition MAXPATH :: nat where [simp]: "MAXPATH = 128"

text \<open>\<open>None\<close> is the error result.\<close>

definition fetchaddr :: "u64 \<Rightarrow> ('z ptable_scheme, u64 option) kmon" where
  "fetchaddr addr = bnd myproc (\<lambda>p.
     bnd (get_proc p (\<lambda>q. q)) (\<lambda>q.
     if addr \<ge> psz q \<or> addr + 8 > psz q then ret None
     else bnd (copyin (pagetable q) addr 8) (\<lambda>(r, bs).
       if r \<noteq> 0 then ret None else ret (Some (le_word bs)))))"

text \<open>The result and the bytes stored in the buffer.\<close>

definition fetchstr :: "u64 \<Rightarrow> nat \<Rightarrow> ('z ptable_scheme, int \<times> u8 list) kmon" where
  "fetchstr addr mx = bnd myproc (\<lambda>p.
     bnd (get_proc p pagetable) (\<lambda>pt.
     bnd (copyinstr pt addr mx) (\<lambda>(err, bs).
     if err < 0 then ret (err, bs)
     else ret (int (length (takeWhile (\<lambda>b. b \<noteq> 0) bs)), bs))))"

definition argraw :: "nat \<Rightarrow> ('z ptable_scheme, u64) kmon" where
  "argraw n = bnd myproc (\<lambda>p. if n < 6 then tf_get p (tf_a n) else panic ''argraw'')"

definition argint :: "nat \<Rightarrow> ('z ptable_scheme, int) kmon" where
  "argint n = bnd (argraw n) (\<lambda>v. ret (sint (ucast v :: u32)))"

definition argaddr :: "nat \<Rightarrow> ('z ptable_scheme, u64) kmon" where
  "argaddr n = argraw n"

text \<open>The string without its NUL, \<open>None\<close> for a negative result.\<close>

definition argstr :: "nat \<Rightarrow> nat \<Rightarrow> ('z ptable_scheme, u8 list option) kmon" where
  "argstr n mx = bnd (argaddr n) (\<lambda>addr.
     bnd (fetchstr addr mx) (\<lambda>(r, bs).
     ret (if r < 0 then None else Some (takeWhile (\<lambda>b. b \<noteq> 0) bs))))"

section \<open>The clock\<close>

abbreviation tickslock :: lock where
  "tickslock \<equiv> Lock ''time'' 0"

abbreviation ticks_chan :: channel where
  "ticks_chan \<equiv> Chan ''ticks'' 0"

definition clockintr :: "('z ptable_scheme, unit) kmon" where
  "clockintr = bnd (acquire tickslock) (\<lambda>_.
     bnd (modify (\<lambda>s. s\<lparr>ticks := ticks s + 1\<rparr>)) (\<lambda>_.
     bnd (wakeup ticks_chan) (\<lambda>_.
     release tickslock)))"

section \<open>sysproc.c\<close>

definition sys_exit :: "('z vstate_scheme, u64) kmon" where
  "sys_exit = bnd (argint 0) (\<lambda>n. exit n)"

definition sys_getpid :: "('z ptable_scheme, u64) kmon" where
  "sys_getpid = bnd myproc (\<lambda>p. bnd (get_proc p pid) (\<lambda>n. ret (word_of_int n)))"

definition sys_fork :: "('z vstate_scheme, u64) kmon" where
  "sys_fork = bnd fork (\<lambda>n. ret (word_of_int n))"

definition sys_wait :: "('z ptable_scheme, u64) kmon" where
  "sys_wait = bnd (argaddr 0) (\<lambda>p. bnd (wait p) (\<lambda>n. ret (word_of_int n)))"

text \<open>The old size goes through an \<open>int\<close>.\<close>

definition sys_sbrk :: "('z ptable_scheme, u64) kmon" where
  "sys_sbrk = bnd (argint 0) (\<lambda>n.
     bnd myproc (\<lambda>p.
     bnd (get_proc p psz) (\<lambda>addr.
     bnd (growproc n) (\<lambda>r.
     if r < 0 then ret (- 1) else ret (scast (ucast addr :: u32))))))"

text \<open>
  The loop of \<open>sys_sleep\<close>. The list \<open>away\<close> has, for each sleep of the call in turn, what the hart does
  until the scheduler chooses the process again: the clock interrupt that wakes the process and also
  whatever follows it, so a sleep may take any number of ticks. After the last one the process is
  never chosen again and its next sleep blocks. The comparison with the \<open>int\<close> argument is unsigned.
\<close>

fun sleep_ticks :: "('z ptable_scheme, unit) kmon list \<Rightarrow> u32 \<Rightarrow> u32 \<Rightarrow> ('z ptable_scheme, u64) kmon" where
  "sleep_ticks away ticks0 n =
     bnd (gets ticks) (\<lambda>now.
     if now - ticks0 < n
     then bnd (bnd myproc (\<lambda>p. get_proc p killed)) (\<lambda>k.
       if k then bnd (release tickslock) (\<lambda>_. ret (- 1))
       else case away of
           [] \<Rightarrow> sleep ticks_chan tickslock
         | ev # rest \<Rightarrow> bnd (sleep_until ticks_chan tickslock ev) (\<lambda>_. sleep_ticks rest ticks0 n))
     else bnd (release tickslock) (\<lambda>_. ret 0))"

declare sleep_ticks.simps [simp del]

definition sys_sleep :: "('z ptable_scheme, unit) kmon list \<Rightarrow> ('z ptable_scheme, u64) kmon" where
  "sys_sleep away = bnd (argint 0) (\<lambda>n.
     bnd (acquire tickslock) (\<lambda>_.
     bnd (gets ticks) (\<lambda>ticks0.
     sleep_ticks away ticks0 (word_of_int n))))"

definition sys_kill :: "('z ptable_scheme, u64) kmon" where
  "sys_kill = bnd (argint 0) (\<lambda>pd. bnd (kill pd) (\<lambda>r. ret (word_of_int r)))"

definition sys_uptime :: "('z ptable_scheme, u64) kmon" where
  "sys_uptime = bnd (acquire tickslock) (\<lambda>_.
     bnd (gets ticks) (\<lambda>xticks.
     bnd (release tickslock) (\<lambda>_.
     ret (ucast xticks))))"

end
