(* ===== verification/Sysfile.thy ===== *)
theory Sysfile
  imports Syscall
begin

unbundle bit_operations_syntax

text \<open>
  The system calls on files, \<open>kernel/sysfile.c\<close>: argument checks and calls into \<open>file.c\<close> and
  \<open>fs.c\<close>. A result is the 64-bit value that \<open>syscall\<close> stores in \<open>a0\<close>.
\<close>

definition O_RDONLY :: int where [simp]: "O_RDONLY = 0"

definition O_WRONLY :: int where [simp]: "O_WRONLY = 1"

definition O_RDWR :: int where [simp]: "O_RDWR = 2"

definition O_CREATE :: int where [simp]: "O_CREATE = 0x200"

definition O_TRUNC :: int where [simp]: "O_TRUNC = 0x400"

section \<open>Descriptors\<close>

definition argfd :: "nat \<Rightarrow> ('z ptable_scheme, (nat \<times> nat) option) kmon" where
  "argfd n = bnd (argint n) (\<lambda>fd.
     if fd < 0 \<or> fd \<ge> int NOFILE then ret None
     else bnd myproc (\<lambda>p. bnd (get_proc p (\<lambda>q. ofile q ! nat fd)) (\<lambda>o0.
       case o0 of None \<Rightarrow> ret None | Some f \<Rightarrow> ret (Some (nat fd, f)))))"

definition free_fd :: "nat option list \<Rightarrow> nat option" where
  "free_fd fs = find (\<lambda>fd. fs ! fd = None) [0..<NOFILE]"

definition fdalloc :: "nat \<Rightarrow> ('z ptable_scheme, int) kmon" where
  "fdalloc f = bnd myproc (\<lambda>p.
     bnd (get_proc p ofile) (\<lambda>fs.
     case free_fd fs of
       Some fd \<Rightarrow> bnd (upd_proc p (\<lambda>q. q\<lparr>ofile := (ofile q)[fd := Some f]\<rparr>)) (\<lambda>_. ret (int fd))
     | None \<Rightarrow> ret (- 1)))"

definition sys_dup :: "('z ftable_scheme, u64) kmon" where
  "sys_dup = bnd (argfd 0) (\<lambda>r.
     case r of None \<Rightarrow> ret (- 1)
     | Some (_, f) \<Rightarrow> bnd (fdalloc f) (\<lambda>fd.
         if fd < 0 then ret (- 1)
         else bnd (filedup f) (\<lambda>_. ret (word_of_int fd))))"

definition sys_read :: "('z ftable_scheme, u64) kmon" where
  "sys_read = bnd (argfd 0) (\<lambda>r.
     case r of None \<Rightarrow> ret (- 1)
     | Some (_, f) \<Rightarrow> bnd (argint 2) (\<lambda>n. bnd (argaddr 1) (\<lambda>p.
         bnd (fileread f p n) (\<lambda>k. ret (word_of_int k)))))"

definition sys_write :: "('z ftable_scheme, u64) kmon" where
  "sys_write = bnd (argfd 0) (\<lambda>r.
     case r of None \<Rightarrow> ret (- 1)
     | Some (_, f) \<Rightarrow> bnd (argint 2) (\<lambda>n. bnd (argaddr 1) (\<lambda>p.
         bnd (filewrite f p n) (\<lambda>k. ret (word_of_int k)))))"

definition set_ofile :: "nat \<Rightarrow> nat option \<Rightarrow> ('z ptable_scheme, unit) kmon" where
  "set_ofile fd o0 = bnd myproc (\<lambda>p. upd_proc p (\<lambda>q. q\<lparr>ofile := (ofile q)[fd := o0]\<rparr>))"

definition sys_close :: "('z ftable_scheme, u64) kmon" where
  "sys_close = bnd (argfd 0) (\<lambda>r.
     case r of None \<Rightarrow> ret (- 1)
     | Some (fd, f) \<Rightarrow> bnd (set_ofile fd None) (\<lambda>_. bnd (fileclose f) (\<lambda>_. ret 0)))"

definition sys_fstat :: "('z ftable_scheme, u64) kmon" where
  "sys_fstat = bnd (argfd 0) (\<lambda>r.
     case r of None \<Rightarrow> ret (- 1)
     | Some (_, f) \<Rightarrow> bnd (argaddr 1) (\<lambda>st. bnd (filestat f st) (\<lambda>k. ret (word_of_int k))))"

section \<open>Links\<close>

text \<open>\<open>end_op(); return -1\<close>.\<close>

abbreviation end_fail :: "('z log_scheme, u64) kmon" where
  "end_fail \<equiv> bnd end_op (\<lambda>_. ret (- 1))"

text \<open>The label \<open>bad\<close> of \<open>sys_link\<close>.\<close>

definition link_bad :: "nat \<Rightarrow> ('z fs_scheme, u64) kmon" where
  "link_bad ip = bnd (ilock (Some ip)) (\<lambda>_.
     bnd (upd_inode ip (\<lambda>i. i\<lparr>nlink := nlink i - 1\<rparr>)) (\<lambda>_.
     bnd (iupdate ip) (\<lambda>_.
     bnd (iunlockput (Some ip)) (\<lambda>_.
     end_fail))))"

definition link_entry :: "nat \<Rightarrow> u8 list \<Rightarrow> ('z fs_scheme, u64) kmon" where
  "link_entry ip new = bnd (nameiparent new) (\<lambda>(r, name).
     case r of None \<Rightarrow> link_bad ip
     | Some dp \<Rightarrow>
       bnd (ilock (Some dp)) (\<lambda>_.
       bnd (get_inode dp idev) (\<lambda>dd.
       bnd (get_inode ip (\<lambda>i. (idev i, inum i))) (\<lambda>(di, ino).
       bnd (if dd \<noteq> di then ret (- 1) else dirlink dp name ino) (\<lambda>e.
       bnd (iunlockput (Some dp)) (\<lambda>_.
       if e < 0 then link_bad ip
       else bnd (iput (Some ip)) (\<lambda>_. bnd end_op (\<lambda>_. ret 0))))))))"

definition sys_link :: "('z fs_scheme, u64) kmon" where
  "sys_link = bnd (argstr 0 MAXPATH) (\<lambda>old.
     case old of None \<Rightarrow> ret (- 1)
     | Some old \<Rightarrow> bnd (argstr 1 MAXPATH) (\<lambda>new.
       case new of None \<Rightarrow> ret (- 1)
       | Some new \<Rightarrow>
         bnd begin_op (\<lambda>_.
         bnd (namei old) (\<lambda>r.
         case r of None \<Rightarrow> end_fail
         | Some ip \<Rightarrow>
           bnd (ilock (Some ip)) (\<lambda>_.
           bnd (get_inode ip itype) (\<lambda>ty.
           if ty = T_DIR then bnd (iunlockput (Some ip)) (\<lambda>_. end_fail)
           else bnd (upd_inode ip (\<lambda>i. i\<lparr>nlink := nlink i + 1\<rparr>)) (\<lambda>_.
             bnd (iupdate ip) (\<lambda>_.
             bnd (iunlock (Some ip)) (\<lambda>_.
             link_entry ip new)))))))))"

primrec isdirempty_from :: "nat \<Rightarrow> u32 list \<Rightarrow> ('z fs_scheme, bool) kmon" where
  "isdirempty_from dp [] = ret True"
| "isdirempty_from dp (off # offs) =
     bnd (readi dp ToLocal off 16) (\<lambda>(r, de).
     if r \<noteq> 16 then panic ''isdirempty: readi''
     else if get16 de 0 \<noteq> 0 then ret False
     else isdirempty_from dp offs)"

definition isdirempty :: "nat \<Rightarrow> ('z fs_scheme, bool) kmon" where
  "isdirempty dp = bnd (get_inode dp isize) (\<lambda>sz. isdirempty_from dp (drop 2 (dirent_offs sz)))"

definition dot :: "u8 list" where "dot = [46]"

definition dotdot :: "u8 list" where "dotdot = [46, 46]"

definition unlink_bad :: "nat \<Rightarrow> ('z fs_scheme, u64) kmon" where
  "unlink_bad dp = bnd (iunlockput (Some dp)) (\<lambda>_. end_fail)"

text \<open>The part of \<open>sys_unlink\<close> after the checks: erase the entry, drop the link.\<close>

definition unlink_entry :: "nat \<Rightarrow> nat \<Rightarrow> u32 \<Rightarrow> ('z fs_scheme, u64) kmon" where
  "unlink_entry dp ip off = bnd (writei dp (FromLocal (replicate 16 0)) off 16) (\<lambda>w.
     if w \<noteq> 16 then panic ''unlink: writei''
     else bnd (get_inode ip itype) (\<lambda>ty.
       bnd (guarded (ty = T_DIR)
         (bnd (upd_inode dp (\<lambda>i. i\<lparr>nlink := nlink i - 1\<rparr>)) (\<lambda>_. iupdate dp))) (\<lambda>_.
       bnd (iunlockput (Some dp)) (\<lambda>_.
       bnd (upd_inode ip (\<lambda>i. i\<lparr>nlink := nlink i - 1\<rparr>)) (\<lambda>_.
       bnd (iupdate ip) (\<lambda>_.
       bnd (iunlockput (Some ip)) (\<lambda>_.
       bnd end_op (\<lambda>_.
       ret 0))))))))"

definition sys_unlink :: "('z fs_scheme, u64) kmon" where
  "sys_unlink = bnd (argstr 0 MAXPATH) (\<lambda>path.
     case path of None \<Rightarrow> ret (- 1)
     | Some path \<Rightarrow>
       bnd begin_op (\<lambda>_.
       bnd (nameiparent path) (\<lambda>(r, name).
       case r of None \<Rightarrow> end_fail
       | Some dp \<Rightarrow>
         bnd (ilock (Some dp)) (\<lambda>_.
         if namecmp name dot = 0 \<or> namecmp name dotdot = 0 then unlink_bad dp
         else bnd (dirlookup dp name) (\<lambda>e.
           case e of None \<Rightarrow> unlink_bad dp
           | Some (ip, off) \<Rightarrow>
             bnd (ilock (Some ip)) (\<lambda>_.
             bnd (get_inode ip (\<lambda>i. i)) (\<lambda>i.
             if sint (nlink i) < 1 then panic ''unlink: nlink < 1''
             else bnd (if itype i = T_DIR then isdirempty ip else ret True) (\<lambda>ok.
               if \<not> ok then bnd (iunlockput (Some ip)) (\<lambda>_. unlink_bad dp)
               else unlink_entry dp ip off))))))))"

section \<open>Creating and opening\<close>

definition create :: "u8 list \<Rightarrow> u16 \<Rightarrow> u16 \<Rightarrow> u16 \<Rightarrow> ('z fs_scheme, nat option) kmon" where
  "create path ty mj mn = bnd (nameiparent path) (\<lambda>(r, name).
     case r of None \<Rightarrow> ret None
     | Some dp \<Rightarrow>
       bnd (ilock (Some dp)) (\<lambda>_.
       bnd (dirlookup dp name) (\<lambda>e.
       case e of
         Some (ip, _) \<Rightarrow>
           bnd (iunlockput (Some dp)) (\<lambda>_.
           bnd (ilock (Some ip)) (\<lambda>_.
           bnd (get_inode ip itype) (\<lambda>it.
           if ty = T_FILE \<and> (it = T_FILE \<or> it = T_DEVICE) then ret (Some ip)
           else bnd (iunlockput (Some ip)) (\<lambda>_. ret None))))
       | None \<Rightarrow>
           bnd (get_inode dp idev) (\<lambda>d.
           bnd (ialloc d ty) (\<lambda>ip.
           bnd (ilock (Some ip)) (\<lambda>_.
           bnd (upd_inode ip (\<lambda>i. i\<lparr>major := mj, minor := mn, nlink := 1\<rparr>)) (\<lambda>_.
           bnd (iupdate ip) (\<lambda>_.
           bnd (get_inode ip inum) (\<lambda>ino.
           bnd (get_inode dp inum) (\<lambda>dino.
           bnd (guarded (ty = T_DIR)
             (bnd (upd_inode dp (\<lambda>i. i\<lparr>nlink := nlink i + 1\<rparr>)) (\<lambda>_.
              bnd (iupdate dp) (\<lambda>_.
              bnd (dirlink ip dot ino) (\<lambda>a.
              bnd (if a < 0 then ret a else dirlink ip dotdot dino) (\<lambda>b.
              if b < 0 then panic ''create dots'' else ret ()))))))
           (\<lambda>_.
           bnd (dirlink dp name ino) (\<lambda>c.
           if c < 0 then panic ''create: dirlink''
           else bnd (iunlockput (Some dp)) (\<lambda>_. ret (Some ip))))))))))))))"

text \<open>The first part of \<open>sys_open\<close>: the locked inode, \<open>None\<close> where it fails.\<close>

definition open_inode :: "u8 list \<Rightarrow> int \<Rightarrow> ('z fs_scheme, nat option) kmon" where
  "open_inode path omode =
     (if omode AND O_CREATE \<noteq> 0 then create path T_FILE 0 0
      else bnd (namei path) (\<lambda>r.
        case r of None \<Rightarrow> ret None
        | Some ip \<Rightarrow>
          bnd (ilock (Some ip)) (\<lambda>_.
          bnd (get_inode ip itype) (\<lambda>ty.
          if ty = T_DIR \<and> omode \<noteq> O_RDONLY
          then bnd (iunlockput (Some ip)) (\<lambda>_. ret None)
          else ret (Some ip)))))"

definition open_file :: "nat \<Rightarrow> int \<Rightarrow> inode \<Rightarrow> file_struct \<Rightarrow> file_struct" where
  "open_file ip omode i f =
     (if itype i = T_DEVICE then f\<lparr>ftype := FD_DEVICE, fmajor := major i\<rparr>
      else f\<lparr>ftype := FD_INODE, foff := 0\<rparr>)
     \<lparr>fip := Some ip,
      readable := (if omode AND O_WRONLY = 0 then 1 else 0),
      writable := (if omode AND O_WRONLY \<noteq> 0 \<or> omode AND O_RDWR \<noteq> 0 then 1 else 0)\<rparr>"

definition sys_open :: "('z ftable_scheme, u64) kmon" where
  "sys_open = bnd (argstr 0 MAXPATH) (\<lambda>path.
     case path of None \<Rightarrow> ret (- 1)
     | Some path \<Rightarrow>
       bnd (argint 1) (\<lambda>omode.
       bnd begin_op (\<lambda>_.
       bnd (open_inode path omode) (\<lambda>r.
       case r of None \<Rightarrow> end_fail
       | Some ip \<Rightarrow>
         bnd (get_inode ip (\<lambda>i. i)) (\<lambda>i.
         if itype i = T_DEVICE \<and> (sint (major i) < 0 \<or> sint (major i) \<ge> int NDEV)
         then bnd (iunlockput (Some ip)) (\<lambda>_. end_fail)
         else bnd filealloc (\<lambda>fo.
           case fo of None \<Rightarrow> bnd (iunlockput (Some ip)) (\<lambda>_. end_fail)
           | Some f \<Rightarrow>
             bnd (fdalloc f) (\<lambda>fd.
             if fd < 0
             then bnd (fileclose f) (\<lambda>_. bnd (iunlockput (Some ip)) (\<lambda>_. end_fail))
             else bnd (upd_file f (open_file ip omode i)) (\<lambda>_.
               bnd (guarded (omode AND O_TRUNC \<noteq> 0 \<and> itype i = T_FILE) (itrunc ip)) (\<lambda>_.
               bnd (iunlock (Some ip)) (\<lambda>_.
               bnd end_op (\<lambda>_.
               ret (word_of_int fd))))))))))))"

text \<open>\<open>mkdir\<close> and \<open>mknod\<close> enter the transaction before they fetch their arguments.\<close>

definition create_and_put :: "u8 list option \<Rightarrow> u16 \<Rightarrow> u16 \<Rightarrow> u16 \<Rightarrow> ('z fs_scheme, u64) kmon" where
  "create_and_put path ty mj mn =
     (case path of None \<Rightarrow> end_fail
      | Some path \<Rightarrow> bnd (create path ty mj mn) (\<lambda>r.
          case r of None \<Rightarrow> end_fail
          | Some ip \<Rightarrow> bnd (iunlockput (Some ip)) (\<lambda>_. bnd end_op (\<lambda>_. ret 0))))"

definition sys_mkdir :: "('z fs_scheme, u64) kmon" where
  "sys_mkdir = bnd begin_op (\<lambda>_.
     bnd (argstr 0 MAXPATH) (\<lambda>path. create_and_put path T_DIR 0 0))"

definition sys_mknod :: "('z fs_scheme, u64) kmon" where
  "sys_mknod = bnd begin_op (\<lambda>_.
     bnd (argstr 0 MAXPATH) (\<lambda>path.
     case path of None \<Rightarrow> end_fail
     | Some _ \<Rightarrow> bnd (argint 1) (\<lambda>mj. bnd (argint 2) (\<lambda>mn.
         create_and_put path T_DEVICE (word_of_int mj) (word_of_int mn)))))"

definition sys_chdir :: "('z fs_scheme, u64) kmon" where
  "sys_chdir = bnd myproc (\<lambda>p.
     bnd begin_op (\<lambda>_.
     bnd (argstr 0 MAXPATH) (\<lambda>path.
     case path of None \<Rightarrow> end_fail
     | Some path \<Rightarrow> bnd (namei path) (\<lambda>r.
       case r of None \<Rightarrow> end_fail
       | Some ip \<Rightarrow>
         bnd (ilock (Some ip)) (\<lambda>_.
         bnd (get_inode ip itype) (\<lambda>ty.
         if ty \<noteq> T_DIR then bnd (iunlockput (Some ip)) (\<lambda>_. end_fail)
         else bnd (iunlock (Some ip)) (\<lambda>_.
           bnd (get_proc p cwd) (\<lambda>c.
           bnd (iput c) (\<lambda>_.
           bnd end_op (\<lambda>_.
           bnd (upd_proc p (\<lambda>q. q\<lparr>cwd := Some ip\<rparr>)) (\<lambda>_.
           ret 0)))))))))))"

section \<open>exec and pipe\<close>

text \<open>
  The argument loop of \<open>sys_exec\<close>: the pages allocated so far with the strings in them, and
  whether the null pointer was found (\<open>False\<close> jumps to \<open>bad\<close>).
\<close>

primrec exec_args ::
  "u64 \<Rightarrow> (u64 \<times> u8 list) list \<Rightarrow> nat \<Rightarrow> ('z ptable_scheme, bool \<times> (u64 \<times> u8 list) list) kmon" where
  "exec_args uargv acc 0 = ret (False, acc)"
| "exec_args uargv acc (Suc n) =
     bnd (fetchaddr (uargv + 8 * of_nat (length acc))) (\<lambda>r.
     case r of None \<Rightarrow> ret (False, acc)
     | Some uarg \<Rightarrow>
       if uarg = 0 then ret (True, acc)
       else bnd kalloc (\<lambda>pg.
         if pg = 0 then ret (False, acc)
         else bnd (fetchstr uarg 4096) (\<lambda>(e, bs).
           bnd (kput pg bs) (\<lambda>_.
           let acc' = acc @ [(pg, takeWhile (\<lambda>b. b \<noteq> 0) bs)] in
           if e < 0 then ret (False, acc') else exec_args uargv acc' n))))"

definition sys_exec :: "('z fs_scheme, u64) kmon" where
  "sys_exec = bnd (argstr 0 MAXPATH) (\<lambda>path.
     case path of None \<Rightarrow> ret (- 1)
     | Some path \<Rightarrow>
       bnd (argaddr 1) (\<lambda>uargv.
       bnd (exec_args uargv [] MAXARG) (\<lambda>(ok, args).
       bnd (if ok then exec path (map snd args) else ret (- 1)) (\<lambda>r.
       bnd (for_each kfree (map fst args)) (\<lambda>_.
       ret (word_of_int r))))))"

definition pipe_undo :: "nat \<Rightarrow> nat \<Rightarrow> int \<Rightarrow> int \<Rightarrow> ('z ftable_scheme, u64) kmon" where
  "pipe_undo rf wfl fd0 fd1 =
     bnd (guarded (fd0 \<ge> 0) (set_ofile (nat fd0) None)) (\<lambda>_.
     bnd (guarded (fd1 \<ge> 0) (set_ofile (nat fd1) None)) (\<lambda>_.
     bnd (fileclose rf) (\<lambda>_.
     bnd (fileclose wfl) (\<lambda>_.
     ret (- 1)))))"

definition int_bytes :: "int \<Rightarrow> u8 list" where
  "int_bytes n = le_bytes 4 (word_of_int n :: u32)"

definition sys_pipe :: "('z ftable_scheme, u64) kmon" where
  "sys_pipe = bnd myproc (\<lambda>p.
     bnd (argaddr 0) (\<lambda>fdarray.
     bnd pipealloc (\<lambda>r.
     case r of None \<Rightarrow> ret (- 1)
     | Some (rf, wfl) \<Rightarrow>
       bnd (fdalloc rf) (\<lambda>fd0.
       if fd0 < 0 then pipe_undo rf wfl fd0 (- 1)
       else bnd (fdalloc wfl) (\<lambda>fd1.
         if fd1 < 0 then pipe_undo rf wfl fd0 fd1
         else bnd (get_proc p pagetable) (\<lambda>pt.
           bnd (copyout pt fdarray (int_bytes fd0)) (\<lambda>a.
           bnd (if a < 0 then ret a else copyout pt (fdarray + 4) (int_bytes fd1)) (\<lambda>b.
           if b < 0 then pipe_undo rf wfl fd0 fd1 else ret 0))))))))"

section \<open>mmap and munmap\<close>

definition sys_mmap :: "('z vstate_scheme, u64) kmon" where
  "sys_mmap = bnd (argaddr 1) (\<lambda>length0. bnd (argaddr 2) (\<lambda>prot0.
     bnd (argaddr 3) (\<lambda>flag0. bnd (argaddr 4) (\<lambda>fd.
     if prot0 \<noteq> PROT_READ \<and> prot0 \<noteq> PROT_WRITE \<and> prot0 \<noteq> PROT_READ_WRITE then ret (- 1)
     else if flag0 \<noteq> MAP_PRIVATE \<and> flag0 \<noteq> MAP_SHARED then ret (- 1)
     else if fd \<ge> of_nat NOFILE then ret (- 1)
     else mmap length0 (uint prot0) (uint flag0) (uint fd)))))"

definition sys_munmap :: "('z vstate_scheme, u64) kmon" where
  "sys_munmap = bnd (argaddr 0) (\<lambda>addr. bnd (argaddr 1) (\<lambda>length0.
     bnd begin_op (\<lambda>_.
     bnd (munmap addr length0) (\<lambda>e.
     bnd end_op (\<lambda>_.
     ret (word_of_int e))))))"

end
