(* ===== verification/Trap.thy ===== *)
theory Trap
  imports Sysfile
begin

unbundle bit_operations_syntax

text \<open>
  Traps, \<open>kernel/trap.c\<close>, with the system-call dispatch of \<open>kernel/syscall.c\<close> and the interrupt
  controller of \<open>kernel/plic.c\<close>. The control registers of the hart are the field \<open>csr\<close>. Devices
  are reached through their registers: \<open>mmio_read\<close> is what a read returns, a parameter,
  \<open>mmio_log\<close> the writes in order, \<open>plic_claims\<close> the interrupt numbers that the controller hands
  out.
\<close>

section \<open>State\<close>

datatype csr_name = Sstatus | Sepc | Scause | Stval | Stvec | Satp | Sip | Sie | Sscratch | Tp
  | Mstatus | Mepc | Medeleg | Mideleg | Pmpaddr0 | Pmpcfg0 | Mhartid | Mscratch | Mtvec | Mie

text \<open>
  \<open>first_run\<close> is the static variable \<open>first\<close> of \<open>forkret\<close>; the \<open>_addr\<close> fields are addresses of
  code and linker symbols.
\<close>

record trapst = vstate +
  csr :: "csr_name \<Rightarrow> u64"
  mmio_read :: "u64 \<Rightarrow> u64"
  mmio_log :: "(u64 \<times> u64) list"
  plic_claims :: "u32 list"
  first_run :: bool
  started :: bool
  kernelvec_addr :: u64
  usertrap_addr :: u64
  uservec_addr :: u64
  userret_addr :: u64
  timervec_addr :: u64
  main_addr :: u64
  timer_scratch :: u64
  disk_pages :: u64

definition r_csr :: "csr_name \<Rightarrow> ('z trapst_scheme, u64) kmon" where
  "r_csr c = gets (\<lambda>s. csr s c)"

definition w_csr :: "csr_name \<Rightarrow> u64 \<Rightarrow> ('z trapst_scheme, unit) kmon" where
  "w_csr c v = modify (\<lambda>s. s\<lparr>csr := (csr s)(c := v)\<rparr>)"

definition w_mmio :: "u64 \<Rightarrow> u64 \<Rightarrow> ('z trapst_scheme, unit) kmon" where
  "w_mmio a v = modify (\<lambda>s. s\<lparr>mmio_log := mmio_log s @ [(a, v)]\<rparr>)"

definition r_mmio :: "u64 \<Rightarrow> ('z trapst_scheme, u64) kmon" where
  "r_mmio a = gets (\<lambda>s. mmio_read s a)"

definition SSTATUS_SPP :: u64 where [simp]: "SSTATUS_SPP = 0x100"

definition SSTATUS_SPIE :: u64 where [simp]: "SSTATUS_SPIE = 0x20"

definition SSTATUS_SIE :: u64 where [simp]: "SSTATUS_SIE = 2"

definition MAKE_SATP :: "u64 \<Rightarrow> u64" where
  "MAKE_SATP pt = 0x8000000000000000 OR drop_bit 12 pt"

definition intr_on :: "('z trapst_scheme, unit) kmon" where
  "intr_on = bnd (r_csr Sstatus) (\<lambda>x. w_csr Sstatus (x OR SSTATUS_SIE))"

definition intr_off :: "('z trapst_scheme, unit) kmon" where
  "intr_off = bnd (r_csr Sstatus) (\<lambda>x. w_csr Sstatus (x AND NOT SSTATUS_SIE))"

definition intr_get :: "('z trapst_scheme, bool) kmon" where
  "intr_get = bnd (r_csr Sstatus) (\<lambda>x. ret (x AND SSTATUS_SIE \<noteq> 0))"

text \<open>\<open>cpuid()\<close> is the register \<open>tp\<close>, as an \<open>int\<close>.\<close>

definition cpuid :: "('z trapst_scheme, u64) kmon" where
  "cpuid = bnd (r_csr Tp) (\<lambda>x. ret (scast (ucast x :: u32)))"

definition trapinithart :: "('z trapst_scheme, unit) kmon" where
  "trapinithart = bnd (gets kernelvec_addr) (w_csr Stvec)"

section \<open>plic.c\<close>

definition PLIC :: u64 where [simp]: "PLIC = 0x0c000000"

definition UART0_IRQ :: u32 where [simp]: "UART0_IRQ = 10"

definition VIRTIO0_IRQ :: u32 where [simp]: "VIRTIO0_IRQ = 1"

definition PLIC_SENABLE :: "u64 \<Rightarrow> u64" where
  "PLIC_SENABLE hart = PLIC + 0x2080 + hart * 0x100"

definition PLIC_SPRIORITY :: "u64 \<Rightarrow> u64" where
  "PLIC_SPRIORITY hart = PLIC + 0x201000 + hart * 0x2000"

definition PLIC_SCLAIM :: "u64 \<Rightarrow> u64" where
  "PLIC_SCLAIM hart = PLIC + 0x201004 + hart * 0x2000"

definition plicinit :: "('z trapst_scheme, unit) kmon" where
  "plicinit = bnd (w_mmio (PLIC + ucast UART0_IRQ * 4) 1) (\<lambda>_.
     w_mmio (PLIC + ucast VIRTIO0_IRQ * 4) 1)"

definition plicinithart :: "('z trapst_scheme, unit) kmon" where
  "plicinithart = bnd cpuid (\<lambda>hart.
     bnd (w_mmio (PLIC_SENABLE hart) (push_bit (unat UART0_IRQ) 1 OR push_bit (unat VIRTIO0_IRQ) 1)) (\<lambda>_.
     w_mmio (PLIC_SPRIORITY hart) 0))"

definition plic_claim :: "('z trapst_scheme, u32) kmon" where
  "plic_claim = bnd cpuid (\<lambda>_. bnd (gets plic_claims) (\<lambda>q.
     case q of [] \<Rightarrow> ret 0
     | irq # rest \<Rightarrow> bnd (modify (\<lambda>s. s\<lparr>plic_claims := rest\<rparr>)) (\<lambda>_. ret irq)))"

definition plic_complete :: "u32 \<Rightarrow> ('z trapst_scheme, unit) kmon" where
  "plic_complete irq = bnd cpuid (\<lambda>hart. w_mmio (PLIC_SCLAIM hart) (ucast irq))"

section \<open>Device interrupts\<close>

definition devintr :: "('z trapst_scheme, nat) kmon" where
  "devintr = bnd (r_csr Scause) (\<lambda>scause.
     if scause AND 0x8000000000000000 \<noteq> 0 \<and> scause AND 0xff = 9
     then bnd plic_claim (\<lambda>irq.
       bnd (if irq = UART0_IRQ then uartintr
         else if irq = VIRTIO0_IRQ then virtio_disk_intr
         else guarded (irq \<noteq> 0) (printf (''unexpected interrupt irq=%d'' @ [CHR 0x0A]) [ArgInt irq])) (\<lambda>_.
       bnd (guarded (irq \<noteq> 0) (plic_complete irq)) (\<lambda>_.
       ret 1)))
     else if scause = 0x8000000000000001
     then bnd cpuid (\<lambda>hart.
       bnd (guarded (hart = 0) clockintr) (\<lambda>_.
       bnd (r_csr Sip) (\<lambda>sip.
       bnd (w_csr Sip (sip AND NOT 2)) (\<lambda>_.
       ret 2))))
     else ret 0)"

section \<open>System calls\<close>

text \<open>The parameter \<open>away\<close> is that of \<open>sys_sleep\<close>: what the hart does during the sleeps of that call.\<close>

definition syscalls ::
  "('z vstate_scheme, unit) kmon list \<Rightarrow> int \<Rightarrow> ('z vstate_scheme, u64) kmon option" where
  "syscalls away num =
     (if num = 1 then Some sys_fork
      else if num = 2 then Some sys_exit
      else if num = 3 then Some sys_wait
      else if num = 4 then Some sys_pipe
      else if num = 5 then Some sys_read
      else if num = 6 then Some sys_kill
      else if num = 7 then Some sys_exec
      else if num = 8 then Some sys_fstat
      else if num = 9 then Some sys_chdir
      else if num = 10 then Some sys_dup
      else if num = 11 then Some sys_getpid
      else if num = 12 then Some sys_sbrk
      else if num = 13 then Some (sys_sleep away)
      else if num = 14 then Some sys_uptime
      else if num = 15 then Some sys_open
      else if num = 16 then Some sys_write
      else if num = 17 then Some sys_mknod
      else if num = 18 then Some sys_unlink
      else if num = 19 then Some sys_link
      else if num = 20 then Some sys_mkdir
      else if num = 21 then Some sys_close
      else if num = 22 then Some sys_mmap
      else if num = 23 then Some sys_munmap
      else None)"

definition syscall :: "('z vstate_scheme, unit) kmon list \<Rightarrow> ('z vstate_scheme, unit) kmon" where
  "syscall away = bnd myproc (\<lambda>p.
     bnd (tf_get p (tf_a 7)) (\<lambda>a7.
     let num = sint (ucast a7 :: u32) in
     case syscalls away num of
       Some f \<Rightarrow> bnd f (\<lambda>r. tf_set p (tf_a 0) r)
     | None \<Rightarrow>
       bnd (get_proc p (\<lambda>q. (pid q, pname q))) (\<lambda>(pd, nm).
       bnd (printf (''%d %s: unknown sys call %d'' @ [CHR 0x0A])
         [ArgInt (word_of_int pd), ArgStr (Some nm), ArgInt (word_of_int num)]) (\<lambda>_.
       tf_set p (tf_a 0) (- 1)))))"

section \<open>Page faults on mapped areas\<close>

text \<open>The search for the area with the address; following a null pointer faults.\<close>

primrec fault_area :: "u64 \<Rightarrow> nat \<Rightarrow> nat option \<Rightarrow> ('z vstate_scheme, nat option) kmon" where
  "fault_area va 0 act = ret None"
| "fault_area va (Suc n) act =
     bnd (deref act) (\<lambda>a.
     bnd (get_vma a (\<lambda>v. v)) (\<lambda>v.
     if va \<ge> addri v \<and> va < addre v then ret (Some a)
     else fault_area va n (vnext v)))"

definition kill_self :: "nat \<Rightarrow> ('z vstate_scheme, unit) kmon" where
  "kill_self p = bnd (upd_proc p (\<lambda>q. q\<lparr>killed := True\<rparr>)) (\<lambda>_. exit (- 1))"

definition fault_load :: "nat \<Rightarrow> u64 \<Rightarrow> ('z vstate_scheme, unit) kmon" where
  "fault_load a va = bnd (get_vma a (\<lambda>v. v)) (\<lambda>v.
     bnd (deref (vofile v)) (\<lambda>f.
     bnd (get_file f fip) (\<lambda>ip.
     bnd (ilock ip) (\<lambda>_.
     bnd (deref ip) (\<lambda>i.
     bnd (readi i (ToUser (PGROUNDDOWN va)) (ucast (PGROUNDDOWN va - addri v)) 4096) (\<lambda>_.
     iunlock ip))))))"

definition page_fault :: "nat \<Rightarrow> u64 \<Rightarrow> ('z vstate_scheme, unit) kmon" where
  "page_fault p va = bnd (get_proc p (\<lambda>q. (nvma q, pvmas q))) (\<lambda>(nv, act).
     if nv = 0 then kill_self p
     else bnd (fault_area va (nat nv) act) (\<lambda>r.
       case r of None \<Rightarrow> kill_self p
       | Some a \<Rightarrow>
         bnd kalloc (\<lambda>paddr.
         bnd (guarded (paddr = 0) (upd_proc p (\<lambda>q. q\<lparr>killed := True\<rparr>))) (\<lambda>_.
         bnd (kmemset paddr 0 4096) (\<lambda>_.
         bnd (get_proc p pagetable) (\<lambda>pt.
         bnd (get_vma a prot) (\<lambda>pr.
         bnd (mappages pt va PGSIZE paddr (word_of_int pr OR PTE_U)) (\<lambda>m.
         if m \<noteq> 0 then bnd (kfree paddr) (\<lambda>_. kill_self p)
         else fault_load a va))))))))"

section \<open>Traps from and returns to user space\<close>

text \<open>The result is the jump of \<open>usertrapret\<close>: the address and its two arguments.\<close>

definition usertrapret :: "('z trapst_scheme, u64 \<times> u64 \<times> u64) kmon" where
  "usertrapret = bnd myproc (\<lambda>p.
     bnd intr_off (\<lambda>_.
     bnd (gets (\<lambda>s. (uservec_addr s, userret_addr s, trampoline s))) (\<lambda>(uv, ur, tr).
     bnd (w_csr Stvec (TRAMPOLINE + (uv - tr))) (\<lambda>_.
     bnd (r_csr Satp) (\<lambda>ksatp.
     bnd (tf_set p 0 ksatp) (\<lambda>_.
     bnd (get_proc p kstack) (\<lambda>ks.
     bnd (tf_set p 8 (ks + PGSIZE)) (\<lambda>_.
     bnd (gets usertrap_addr) (\<lambda>ut.
     bnd (tf_set p 16 ut) (\<lambda>_.
     bnd (r_csr Tp) (\<lambda>tp.
     bnd (tf_set p 32 tp) (\<lambda>_.
     bnd (r_csr Sstatus) (\<lambda>x.
     bnd (w_csr Sstatus ((x AND NOT SSTATUS_SPP) OR SSTATUS_SPIE)) (\<lambda>_.
     bnd (tf_get p tf_epc) (\<lambda>epc.
     bnd (w_csr Sepc epc) (\<lambda>_.
     bnd (get_proc p pagetable) (\<lambda>pt.
     ret (TRAMPOLINE + (ur - tr), TRAPFRAME, MAKE_SATP pt))))))))))))))))))"

text \<open>The branches on \<open>scause\<close>; the result is \<open>which_dev\<close>.\<close>

definition usertrap_cause ::
  "('z trapst_scheme, unit) kmon list \<Rightarrow> nat \<Rightarrow> u64 \<Rightarrow> ('z trapst_scheme, nat) kmon" where
  "usertrap_cause away p scause =
     (if scause = 8
      then bnd (get_proc p killed) (\<lambda>k.
        bnd (guarded k (exit (- 1))) (\<lambda>_.
        bnd (tf_get p tf_epc) (\<lambda>epc.
        bnd (tf_set p tf_epc (epc + 4)) (\<lambda>_.
        bnd intr_on (\<lambda>_.
        bnd (syscall away) (\<lambda>_.
        ret 0))))))
      else bnd devintr (\<lambda>which_dev.
        if which_dev \<noteq> 0 then ret which_dev
        else if scause = 12 \<or> scause = 13 \<or> scause = 15
        then bnd (r_csr Stval) (\<lambda>va. bnd (page_fault p va) (\<lambda>_. ret 0))
        else bnd (get_proc p pid) (\<lambda>pd.
          bnd (printf (''usertrap(): unexpected scause %p pid=%d'' @ [CHR 0x0A])
            [ArgPtr scause, ArgInt (word_of_int pd)]) (\<lambda>_.
          bnd (r_csr Sepc) (\<lambda>sepc. bnd (r_csr Stval) (\<lambda>stval.
          bnd (printf (''            sepc=%p stval=%p'' @ [CHR 0x0A]) [ArgPtr sepc, ArgPtr stval]) (\<lambda>_.
          bnd (upd_proc p (\<lambda>q. q\<lparr>killed := True\<rparr>)) (\<lambda>_.
          ret 0))))))))"

definition usertrap ::
  "('z trapst_scheme, unit) kmon list \<Rightarrow> ('z trapst_scheme, u64 \<times> u64 \<times> u64) kmon" where
  "usertrap away = bnd (r_csr Sstatus) (\<lambda>x.
     if x AND SSTATUS_SPP \<noteq> 0 then panic ''usertrap: not from user mode''
     else bnd trapinithart (\<lambda>_.
       bnd myproc (\<lambda>p.
       bnd (r_csr Sepc) (\<lambda>sepc.
       bnd (tf_set p tf_epc sepc) (\<lambda>_.
       bnd (r_csr Scause) (\<lambda>scause.
       bnd (usertrap_cause away p scause) (\<lambda>which_dev.
       bnd (get_proc p killed) (\<lambda>k.
       bnd (guarded k (exit (- 1))) (\<lambda>_.
       bnd (guarded (which_dev = 2) yield) (\<lambda>_.
       usertrapret))))))))))"

definition kerneltrap :: "('z trapst_scheme, unit) kmon" where
  "kerneltrap = bnd (r_csr Sepc) (\<lambda>sepc. bnd (r_csr Sstatus) (\<lambda>sstatus. bnd (r_csr Scause) (\<lambda>scause.
     if sstatus AND SSTATUS_SPP = 0 then panic ''kerneltrap: not from supervisor mode''
     else bnd intr_get (\<lambda>on.
       if on then panic ''kerneltrap: interrupts enabled''
       else bnd devintr (\<lambda>which_dev.
         if which_dev = 0
         then bnd (printf (''scause %p'' @ [CHR 0x0A]) [ArgPtr scause]) (\<lambda>_.
           bnd (r_csr Stval) (\<lambda>stval.
           bnd (printf (''sepc=%p stval=%p'' @ [CHR 0x0A]) [ArgPtr sepc, ArgPtr stval]) (\<lambda>_.
           panic ''kerneltrap'')))
         else bnd (gets (\<lambda>s. case cur s of None \<Rightarrow> False | Some p \<Rightarrow> state (proc s p) = RUNNING)) (\<lambda>run.
           bnd (guarded (which_dev = 2 \<and> run) yield) (\<lambda>_.
           bnd (w_csr Sepc sepc) (\<lambda>_.
           w_csr Sstatus sstatus))))))))"

text \<open>The first thing that a new process runs.\<close>

definition forkret :: "('z trapst_scheme, u64 \<times> u64 \<times> u64) kmon" where
  "forkret = bnd myproc (\<lambda>p.
     bnd (release (plock p)) (\<lambda>_.
     bnd (gets first_run) (\<lambda>first.
     bnd (guarded first (bnd (modify (\<lambda>s. s\<lparr>first_run := False\<rparr>)) (\<lambda>_. fsinit ROOTDEV))) (\<lambda>_.
     usertrapret))))"

end
