(* ===== verification/Boot.thy ===== *)
theory Boot
  imports Trap
begin

unbundle bit_operations_syntax

text \<open>
  Booting: \<open>kernel/start.c\<close>, \<open>kernel/main.c\<close> and the device initialisation functions
  \<open>uartinit\<close> and \<open>virtio_disk_init\<close>. The definitions run up to the call of \<open>scheduler\<close>.
\<close>

section \<open>Machine mode\<close>

definition CLINT_MTIMECMP :: "u64 \<Rightarrow> u64" where
  "CLINT_MTIMECMP hart = 0x2000000 + 0x4000 + 8 * hart"

definition CLINT_MTIME :: u64 where [simp]: "CLINT_MTIME = 0x2000000 + 0xBFF8"

definition timerinit :: "('z trapst_scheme, unit) kmon" where
  "timerinit = bnd (r_csr Mhartid) (\<lambda>h.
     let hid = scast (ucast h :: u32) in
     bnd (r_mmio CLINT_MTIME) (\<lambda>now.
     bnd (w_mmio (CLINT_MTIMECMP hid) (now + 1000000)) (\<lambda>_.
     bnd (gets timer_scratch) (\<lambda>base.
     let scratch = base + 40 * hid in
     bnd (kstore64 (scratch + 24) (CLINT_MTIMECMP hid)) (\<lambda>_.
     bnd (kstore64 (scratch + 32) 1000000) (\<lambda>_.
     bnd (w_csr Mscratch scratch) (\<lambda>_.
     bnd (bnd (gets timervec_addr) (w_csr Mtvec)) (\<lambda>_.
     bnd (bnd (r_csr Mstatus) (\<lambda>x. w_csr Mstatus (x OR 8))) (\<lambda>_.
     bnd (r_csr Mie) (\<lambda>x. w_csr Mie (x OR 0x80)))))))))))"

text \<open>\<open>start\<close> up to its \<open>mret\<close>.\<close>

definition start :: "('z trapst_scheme, unit) kmon" where
  "start = bnd (r_csr Mstatus) (\<lambda>x.
     bnd (w_csr Mstatus ((x AND NOT 0x1800) OR 0x800)) (\<lambda>_.
     bnd (bnd (gets main_addr) (w_csr Mepc)) (\<lambda>_.
     bnd (w_csr Satp 0) (\<lambda>_.
     bnd (w_csr Medeleg 0xffff) (\<lambda>_.
     bnd (w_csr Mideleg 0xffff) (\<lambda>_.
     bnd (r_csr Sie) (\<lambda>sie.
     bnd (w_csr Sie (sie OR 0x200 OR 0x20 OR 2)) (\<lambda>_.
     bnd (w_csr Pmpaddr0 0x3fffffffffffff) (\<lambda>_.
     bnd (w_csr Pmpcfg0 0xf) (\<lambda>_.
     bnd timerinit (\<lambda>_.
     bnd (r_csr Mhartid) (\<lambda>h.
     w_csr Tp (scast (ucast h :: u32))))))))))))))"

section \<open>Devices\<close>

definition UART0 :: u64 where [simp]: "UART0 = 0x10000000"

definition uartinit :: "('z trapst_scheme, unit) kmon" where
  "uartinit = for_each (\<lambda>(reg, v). w_mmio (UART0 + reg) v)
     [(1, 0), (3, 0x80), (0, 3), (1, 0), (3, 3), (2, 7), (1, 3)]"

definition VIRTIO0 :: u64 where [simp]: "VIRTIO0 = 0x10001000"

definition clear_features :: "u64 \<Rightarrow> u64" where
  "clear_features x = foldl (\<lambda>x b. x AND NOT (push_bit b 1)) x [5, 7, 11, 12, 27, 29, 28]"

definition virtio_rings_reset :: "'z vdisk_scheme \<Rightarrow> 'z vdisk_scheme" where
  "virtio_rings_reset s = s\<lparr>desc := (\<lambda>_. \<lparr>daddr = Null, dlen = 0, flags = 0, dnext = 0\<rparr>),
     avail_idx := 0, avail_ring := (\<lambda>_. 0), used_idx := 0, used_ring := (\<lambda>_. 0)\<rparr>"

definition virtio_disk_init :: "('z trapst_scheme, unit) kmon" where
  "virtio_disk_init =
     bnd (gets mmio_read) (\<lambda>rd.
     if rd VIRTIO0 \<noteq> 0x74726976 \<or> rd (VIRTIO0 + 4) \<noteq> 1 \<or> rd (VIRTIO0 + 8) \<noteq> 2 \<or>
        rd (VIRTIO0 + 0xc) \<noteq> 0x554d4551
     then panic ''could not find virtio disk''
     else bnd (w_mmio (VIRTIO0 + 0x70) 1) (\<lambda>_.
       bnd (w_mmio (VIRTIO0 + 0x70) 3) (\<lambda>_.
       bnd (w_mmio (VIRTIO0 + 0x20) (clear_features (rd (VIRTIO0 + 0x10)))) (\<lambda>_.
       bnd (w_mmio (VIRTIO0 + 0x70) 11) (\<lambda>_.
       bnd (w_mmio (VIRTIO0 + 0x70) 15) (\<lambda>_.
       bnd (w_mmio (VIRTIO0 + 0x28) PGSIZE) (\<lambda>_.
       bnd (w_mmio (VIRTIO0 + 0x30) 0) (\<lambda>_.
       bnd (r_mmio (VIRTIO0 + 0x34)) (\<lambda>mx.
       if mx = 0 then panic ''virtio disk has no queue 0''
       else if mx < of_nat NUM then panic ''virtio disk max queue too short''
       else bnd (w_mmio (VIRTIO0 + 0x38) (of_nat NUM)) (\<lambda>_.
         bnd (modify virtio_rings_reset) (\<lambda>_.
         bnd (gets disk_pages) (\<lambda>pg.
         bnd (w_mmio (VIRTIO0 + 0x40) (drop_bit 12 pg)) (\<lambda>_.
         modify (\<lambda>s. s\<lparr>vfree := (\<lambda>i. if i < NUM then True else vfree s i)\<rparr>))))))))))))))"

section \<open>main\<close>

definition kvminithart :: "('z trapst_scheme, unit) kmon" where
  "kvminithart = bnd (gets kernel_pagetable) (\<lambda>pt. w_csr Satp (MAKE_SATP pt))"

text \<open>The locks need no initialisation in the model; the calls that only initialise locks are left out.\<close>

definition main :: "('z trapst_scheme, unit) kmon" where
  "main = bnd cpuid (\<lambda>c.
     if c = 0
     then bnd uartinit (\<lambda>_.
       bnd consoleinit (\<lambda>_.
       bnd printfinit (\<lambda>_.
       bnd (printf [CHR 0x0A] []) (\<lambda>_.
       bnd (printf (''xv6 kernel is booting'' @ [CHR 0x0A]) []) (\<lambda>_.
       bnd (printf [CHR 0x0A] []) (\<lambda>_.
       bnd kinit (\<lambda>_.
       bnd kvminit (\<lambda>_.
       bnd kvminithart (\<lambda>_.
       bnd procinit (\<lambda>_.
       bnd trapinithart (\<lambda>_.
       bnd plicinit (\<lambda>_.
       bnd plicinithart (\<lambda>_.
       bnd binit (\<lambda>_.
       bnd iinit (\<lambda>_.
       bnd virtio_disk_init (\<lambda>_.
       bnd userinit (\<lambda>_.
       modify (\<lambda>s. s\<lparr>started := True\<rparr>))))))))))))))))))
     else bnd (gets started) (\<lambda>ok.
       if \<not> ok then stop (Blocked ''started'')
       else bnd (printf (''hart %d starting'' @ [CHR 0x0A]) [ArgInt (ucast c)]) (\<lambda>_.
         bnd kvminithart (\<lambda>_.
         bnd trapinithart (\<lambda>_.
         plicinithart)))))"

end
