(* ===== verification/Pagetable_Spec.thy ===== *)
theory Pagetable_Spec
  imports Pagetable
begin

unbundle bit_operations_syntax

text \<open>
  The properties of the page-table operations that the rest of the kernel relies on, and a concrete
  page table that satisfies their hypotheses.
\<close>

section \<open>The page-table interface\<close>

text \<open>
  C9. \<open>mappages\<close> on \<open>n\<close> unmapped pages, with enough free pages for new tables, returns 0; after it
  the pages of the range translate to consecutive physical pages with the permissions asked for,
  every other address translates as before, and only table pages have changed in memory.
\<close>

theorem mappages_translates:
  assumes inv: "pt_inv s r xs" and al: "page_aligned va" and n: "0 < n" "unat va + 4096 * n \<le> 2 ^ 38"
    and len: "2 * n \<le> length xs"
    and free: "\<And>vb. unat va \<le> unat vb \<Longrightarrow> unat vb < unat va + 4096 * n \<Longrightarrow> pte_of (mem s) r vb AND PTE_V = 0"
  shows "\<exists>t ys. mappages r va (of_nat (4096 * n)) pa perm s = Ok 0 t \<and> pt_inv t r ys \<and>
     (\<forall>vb < MAXVA. pte_of (mem t) r vb =
        (if unat va \<le> unat vb \<and> unat vb < unat va + 4096 * n
         then PA2PTE (pa + (PGROUNDDOWN vb - va)) OR perm OR PTE_V else pte_of (mem s) r vb)) \<and>
     (\<forall>x. (\<forall>u \<in> tables (mem t) r. \<not> in_page u x) \<longrightarrow> mem t x = mem s x)"
proof -
  obtain k where k: "n = Suc k" using n(1) by (cases n) auto
  have sz: "unat (of_nat (4096 * n) :: u64) = 4096 * n"
    using n(2) by (simp only: unat_of_nat) simp
  then have nz: "(of_nat (4096 * n) :: u64) \<noteq> 0" using n(1) by (metis mult_is_0 not_gr_zero unat_0 zero_neq_numeral)
  have lst: "PGROUNDDOWN (va + of_nat (4096 * n) - 1) = va + of_nat (4096 * k)"
  proof -
    have u: "unat (va + of_nat (4096 * k)) = unat va + 4096 * k"
      using n(2) k by (intro unat_add_of_nat) simp
    have e: "va + of_nat (4096 * n) - 1 = va + of_nat (4096 * k + 4095)" by (simp add: k)
    have v: "unat (va + of_nat (4096 * k + 4095)) = unat va + (4096 * k + 4095)"
      using n(2) k by (intro unat_add_of_nat) simp
    have al': "page_aligned (va + of_nat (4096 * k))"
      using al unfolding page_aligned_def u by simp
    show ?thesis unfolding e PGROUNDDOWN_eq_iff [OF al'] u v by simp
  qed
  have "\<exists>zs ys t. mappages_loop r va (va + of_nat (4096 * k)) pa perm s = Ok 0 t \<and> xs = zs @ ys \<and>
     length zs \<le> 2 * k + 2 \<and> pt_grow s r zs t ys \<and>
     (\<forall>vb < MAXVA. pte_of (mem t) r vb =
        (if unat va \<le> unat vb \<and> unat vb < unat va + 4096 * k + 4096
         then PA2PTE (pa + (PGROUNDDOWN vb - va)) OR perm OR PTE_V else pte_of (mem s) r vb))"
    by (rule mappages_pages [OF inv al]) (use n(2) len free k in auto)
  then obtain zs ys t where t: "mappages_loop r va (va + of_nat (4096 * k)) pa perm s = Ok 0 t" "pt_grow s r zs t ys"
    "\<forall>vb < MAXVA. pte_of (mem t) r vb =
        (if unat va \<le> unat vb \<and> unat vb < unat va + 4096 * k + 4096
         then PA2PTE (pa + (PGROUNDDOWN vb - va)) OR perm OR PTE_V else pte_of (mem s) r vb)" by blast
  have "mappages r va (of_nat (4096 * n)) pa perm s = Ok 0 t"
    unfolding mappages_def lst using nz t(1) by (simp only: PGROUNDDOWN_aligned [OF al] if_False)
  moreover have "4096 * n = 4096 * k + 4096" using k by simp
  ultimately show ?thesis using t(2,3) pt_growD(1) [OF t(2)] pt_growD(4) [OF t(2)]
    by (simp only: add.assoc) blast
qed

text \<open>
  C12. \<open>uvmunmap\<close> of one mapped page with \<open>do_free\<close> removes its translation, keeps every other one,
  and returns the page to the free list.
\<close>

theorem uvmunmap_frees_page:
  assumes "pt_inv s r xs" and "page_aligned va" and "va < MAXVA"
    and "pte_of (mem s) r va AND PTE_V \<noteq> 0" and "PTE_FLAGS (pte_of (mem s) r va) \<noteq> PTE_V"
    and "PTE2PA (pte_of (mem s) r va) = page_addr i" and "page_ix s i" and "run_ref (runs s i) = 1"
    and "i \<notin> set xs" and "page_addr i \<notin> tables (mem s) r"
  shows "\<exists>t. uvmunmap r va 1 True s = Ok () t \<and> pt_inv t r (i # xs) \<and>
     (\<forall>vb < MAXVA. pte_of (mem t) r vb = (if PGROUNDDOWN vb = va then 0 else pte_of (mem s) r vb))"
  using uvmunmap_free_page [OF assms] by blast

text \<open>
  C10. Bytes written to mapped user memory with \<open>copyout\<close> are read back by \<open>copyin\<close>, across page
  boundaries, and user code sees no other byte changed.
\<close>

theorem copyout_copyin_round_trip:
  assumes ok: "umem_ok (mem s) r" and len: "unat va + length bs \<le> 2 ^ 38"
    and mapped: "\<And>x. unat va \<le> unat x \<Longrightarrow> unat x < unat va + length bs \<Longrightarrow> user_page (mem s) r x \<noteq> None"
  shows "\<exists>t. copyout r va bs s = Ok 0 t \<and> copyin r va (length bs) t = Ok (0, bs) t \<and>
     (\<forall>x. \<not> (unat va \<le> unat x \<and> unat x < unat va + length bs) \<longrightarrow> ubyte (mem t) r x = ubyte (mem s) r x)"
proof -
  from copyout_user [OF assms] obtain m where
    m: "copyout r va bs s = Ok 0 (s\<lparr>mem := m\<rparr>)" "umem_ok m r" "\<forall>x. user_page m r x = user_page (mem s) r x"
      "\<forall>x. ubyte m r x = (if unat va \<le> unat x \<and> unat x < unat va + length bs
        then Some (bs ! (unat x - unat va)) else ubyte (mem s) r x)" by blast
  have "copyin r va (length bs) (s\<lparr>mem := m\<rparr>) =
      Ok (0, map (\<lambda>i. the (ubyte m r (va + of_nat i))) [0..<length bs]) (s\<lparr>mem := m\<rparr>)"
    using copyin_user [of "s\<lparr>mem := m\<rparr>" r va "length bs"] m(2,3) len mapped by simp
  also have "map (\<lambda>i. the (ubyte m r (va + of_nat i))) [0..<length bs] = bs"
  proof (rule nth_equalityI)
    fix i assume "i < length (map (\<lambda>i. the (ubyte m r (va + of_nat i))) [0..<length bs])"
    then have i: "i < length bs" by simp
    moreover have "unat (va + of_nat i) = unat va + i" using i len by (intro unat_add_of_nat) simp
    ultimately show "map (\<lambda>i. the (ubyte m r (va + of_nat i))) [0..<length bs] ! i = bs ! i"
      using m(4) by simp
  qed simp
  finally show ?thesis using m(1,4) by (intro exI [of _ "s\<lparr>mem := m\<rparr>"]) simp
qed

section \<open>A concrete page table\<close>

text \<open>The empty tree, rooted at page 530100, with five free pages.\<close>

lemma empty_tree:
  assumes "ram_page r"
  shows "pt_wf (\<lambda>_. 0) r" and "tables (\<lambda>_. 0) r = {r}" and "pte_of (\<lambda>_. 0) r va = 0"
proof -
  have "load64 (\<lambda>_. 0) x = 0" for x by (rule load64_zero) simp
  then have e: "ent (\<lambda>_. 0) x a = None" "l0 (\<lambda>_. 0) x a b = None" for x a b
    by (simp_all add: ent_def l0_def)
  then show t: "tables (\<lambda>_. 0) r = {r}" by (simp add: tables_def)
  from e assms show "pt_wf (\<lambda>_. 0) r" by (simp add: pt_wf_def t)
  from e show "pte_of (\<lambda>_. 0) r va = 0" by (simp add: pte_of_def)
qed

abbreviation demo_root :: u64 where
  "demo_root \<equiv> 0x816B4000"

lemma demo_root_ram: "ram_page demo_root"
  by (simp add: ram_page_def page_aligned_def KERNBASE_def PHYSTOP_def)

lemma demo_inv: "pt_inv (chain_kmem 530000 5) demo_root [530000..<530005]"
proof -
  have "page_addr i \<noteq> demo_root" if "i \<in> set [530000..<530005]" for i
  proof
    assume "page_addr i = demo_root"
    then have "unat (page_addr i) = unat demo_root" by simp
    moreover have "unat (page_addr i) = 4096 * i"
      using that by (intro unat_page_addr [of "chain_kmem 530000 5"]) (auto simp: page_ix_iff MAXPAGES_eq)
    ultimately show False using that by auto
  qed
  then show ?thesis
    using free_list_chain [of 530000 5]
    by (simp add: pt_inv_def empty_tree [OF demo_root_ram] MAXPAGES_eq)
qed

theorem mappages_translates_witness:
  "\<exists>t ys. mappages demo_root 0x1000 0x2000 0x81700000 (PTE_R OR PTE_W OR PTE_U) (chain_kmem 530000 5) = Ok 0 t \<and>
     pt_inv t demo_root ys \<and>
     pte_of (mem t) demo_root 0x2123 = PA2PTE 0x81701000 OR (PTE_R OR PTE_W OR PTE_U) OR PTE_V"
proof -
  have "2 * 2 \<le> length [530000..<530005]" by simp
  from mappages_translates [OF demo_inv _ _ _ this, of "0x1000" "0x81700000" "PTE_R OR PTE_W OR PTE_U"]
  obtain t ys where t: "mappages demo_root 0x1000 (of_nat (4096 * 2)) 0x81700000 (PTE_R OR PTE_W OR PTE_U) (chain_kmem 530000 5) = Ok 0 t"
      "pt_inv t demo_root ys"
      "\<forall>vb < MAXVA. pte_of (mem t) demo_root vb =
        (if unat (0x1000 :: u64) \<le> unat vb \<and> unat vb < unat (0x1000 :: u64) + 4096 * 2
         then PA2PTE (0x81700000 + (PGROUNDDOWN vb - 0x1000)) OR (PTE_R OR PTE_W OR PTE_U) OR PTE_V
         else pte_of (mem (chain_kmem 530000 5)) demo_root vb)"
    by (auto simp: page_aligned_def empty_tree [OF demo_root_ram])
  have "PGROUNDDOWN (0x2123 :: u64) = 0x2000" by (rule word_eqI_unat) (simp add: unat_PGROUNDDOWN_div)
  with t(3) have "pte_of (mem t) demo_root 0x2123 = PA2PTE 0x81701000 OR (PTE_R OR PTE_W OR PTE_U) OR PTE_V"
    by (simp add: MAXVA_def)
  with t(1,2) show ?thesis by auto
qed

text \<open>The same tree with one user page mapped to the allocated page 540000.\<close>

abbreviation demo_pte :: u64 where
  "demo_pte \<equiv> PA2PTE 0x83D60000 OR (PTE_R OR PTE_W OR PTE_U) OR PTE_V"

lemma demo_pte_bits:
  "demo_pte AND PTE_V \<noteq> 0" "demo_pte AND PTE_U \<noteq> 0" "PTE_FLAGS demo_pte \<noteq> PTE_V" "PTE2PA demo_pte = 0x83D60000"
  by (simp_all add: PA2PTE_def PTE_FLAGS_def PTE2PA_def)

lemma demo_mapped_at:
  assumes va: "va < MAXVA" and g: "PGROUNDDOWN va = va"
  obtains t ys where "pt_inv t demo_root ys" and "set ys \<subseteq> {530000..<530005}"
    and "\<And>vb. vb < MAXVA \<Longrightarrow> pte_of (mem t) demo_root vb = (if PGROUNDDOWN vb = va then demo_pte else 0)"
    and "0x83D60000 \<notin> tables (mem t) demo_root" and "run_ref (runs (t :: kmem) 540000) = 1" and "page_ix t 540000"
proof -
  note z = empty_tree [OF demo_root_ram]
  have "\<exists>zs ys u. [530000..<530005] = zs @ ys \<and> length zs \<le> 2 \<and> pt_grow (chain_kmem 530000 5) demo_root zs u ys \<and>
     (\<forall>vb < MAXVA. pte_of (mem u) demo_root vb =
       (if PGROUNDDOWN vb = PGROUNDDOWN va then demo_pte else pte_of (mem (chain_kmem 530000 5)) demo_root vb)) \<and>
     (\<exists>t p. walk demo_root va True (chain_kmem 530000 5) = Ok p t \<and> p \<noteq> 0 \<and>
       kload64 p t = Ok (pte_of (mem (chain_kmem 530000 5)) demo_root va) t \<and> kstore64 p demo_pte t = Ok () u)"
    by (rule map_one_page [OF demo_inv _ va]) (simp_all add: z)
  then obtain zs ys u where u: "[530000..<530005] = zs @ ys" "pt_grow (chain_kmem 530000 5) demo_root zs u ys"
     "\<forall>vb < MAXVA. pte_of (mem u) demo_root vb =
       (if PGROUNDDOWN vb = PGROUNDDOWN va then demo_pte else pte_of (mem (chain_kmem 530000 5)) demo_root vb)"
    by blast
  have "set (zs @ ys) = {530000..<530005}" unfolding u(1) [symmetric] by (rule set_upt)
  then have sub: "set zs \<subseteq> {530000..<530005}" "set ys \<subseteq> {530000..<530005}" by auto
  note d = pt_growD [OF u(2)]
  have ne: "page_addr i \<noteq> 0x83D60000" if "i \<in> set zs" for i
  proof
    assume a: "page_addr i = 0x83D60000"
    have i: "530000 \<le> i" "i < 530005" using that sub(1) by auto
    then have "unat (page_addr i) = 4096 * i"
      by (intro unat_page_addr [of "chain_kmem 530000 5"]) (auto simp: page_ix_iff MAXPAGES_eq)
    with a i show False by simp
  qed
  show thesis
  proof (rule that [OF d(1) sub(2)])
    show "0x83D60000 \<notin> tables (mem u) demo_root" using ne by (auto simp: d(3) z)
    show "run_ref (runs u 540000) = 1" using sub(1) by (subst d(5)) auto
    show "page_ix u 540000" using kmem_frameD(2) [OF d(2)] by (simp add: page_ix_iff MAXPAGES_eq)
  qed (use u(3) in \<open>simp add: g z\<close>)
qed

lemma demo_mapped:
  obtains t ys where "pt_inv t demo_root ys" and "set ys \<subseteq> {530000..<530005}"
    and "\<And>vb. vb < MAXVA \<Longrightarrow> pte_of (mem t) demo_root vb = (if PGROUNDDOWN vb = 0x1000 then demo_pte else 0)"
    and "0x83D60000 \<notin> tables (mem t) demo_root" and "run_ref (runs (t :: kmem) 540000) = 1" and "page_ix t 540000"
proof -
  have va: "(0x1000 :: u64) < MAXVA" by (simp add: MAXVA_def)
  have g: "PGROUNDDOWN (0x1000 :: u64) = 0x1000" by (rule word_eqI_unat) (simp add: unat_PGROUNDDOWN_div)
  show thesis by (rule demo_mapped_at [OF va g]) (rule that; assumption)
qed

theorem uvmunmap_frees_page_witness:
  "\<exists>s t ys. pte_of (mem s) demo_root 0x1000 = demo_pte \<and>
     uvmunmap demo_root 0x1000 1 True (s :: kmem) = Ok () t \<and> pt_inv t demo_root (540000 # ys) \<and>
     pte_of (mem t) demo_root 0x1000 = 0"
proof -
  obtain s ys where s: "pt_inv s demo_root ys" "set ys \<subseteq> {530000..<530005}"
    "\<And>vb. vb < MAXVA \<Longrightarrow> pte_of (mem s) demo_root vb = (if PGROUNDDOWN vb = 0x1000 then demo_pte else 0)"
    "0x83D60000 \<notin> tables (mem s) demo_root" "run_ref (runs (s :: kmem) 540000) = 1" "page_ix s 540000"
    by (rule demo_mapped) (rule that; assumption)
  have va: "(0x1000 :: u64) < MAXVA" by (simp add: MAXVA_def)
  have g: "PGROUNDDOWN (0x1000 :: u64) = 0x1000" by (rule word_eqI_unat) (simp add: unat_PGROUNDDOWN_div)
  have p: "pte_of (mem s) demo_root 0x1000 = demo_pte" using s(3) [OF va] g by simp
  have a: "page_addr 540000 = 0x83D60000" by simp
  have "540000 \<notin> set ys" using s(2) by auto
  with uvmunmap_frees_page [OF s(1) _ va, of 540000] s(4,5,6) p a demo_pte_bits
  obtain t where "uvmunmap demo_root 0x1000 1 True s = Ok () t" "pt_inv t demo_root (540000 # ys)"
     "\<forall>vb < MAXVA. pte_of (mem t) demo_root vb = (if PGROUNDDOWN vb = 0x1000 then 0 else pte_of (mem s) demo_root vb)"
    unfolding p a by (auto simp: page_aligned_def)
  with va g p show ?thesis by (intro exI [of _ s] exI [of _ t] exI [of _ ys]) simp
qed

text \<open>A user memory with the page at \<open>0x1000\<close>.\<close>

lemma demo_user:
  obtains s :: kmem where "umem_ok (mem s) demo_root"
    and "\<And>x. 0x1000 \<le> unat x \<Longrightarrow> unat x < 0x2000 \<Longrightarrow> user_page (mem s) demo_root x \<noteq> None"
proof -
  obtain s ys where s: "pt_inv s demo_root ys" "set ys \<subseteq> {530000..<530005}"
    "\<And>vb. vb < MAXVA \<Longrightarrow> pte_of (mem s) demo_root vb = (if PGROUNDDOWN vb = 0x1000 then demo_pte else 0)"
    "0x83D60000 \<notin> tables (mem s) demo_root" "run_ref (runs (s :: kmem) 540000) = 1" "page_ix s 540000"
    by (rule demo_mapped) (rule that; assumption)
  have up: "user_page (mem s) demo_root vb = (if vb < MAXVA \<and> PGROUNDDOWN vb = 0x1000 then Some 0x83D60000 else None)" for vb
  proof -
    define e where "e = demo_pte"
    have "e AND PTE_V \<noteq> 0" "e AND PTE_U \<noteq> 0" "PTE2PA e = 0x83D60000"
      unfolding e_def by (rule demo_pte_bits)+
    moreover have "vb < MAXVA \<Longrightarrow> pte_of (mem s) demo_root vb = (if PGROUNDDOWN vb = 0x1000 then e else 0)"
      unfolding e_def by (rule s(3))
    ultimately show ?thesis by (auto simp: user_page_def Let_def split: if_splits)
  qed
  have "umem_ok (mem s) demo_root"
    unfolding umem_ok_def up
  proof (intro conjI allI impI)
    show "pt_wf (mem s) demo_root" using s(1) by (simp add: pt_inv_def)
  qed (use s(4) in \<open>auto simp: ram_page_def page_aligned_def KERNBASE_def PHYSTOP_def split: if_splits\<close>)
  moreover have "user_page (mem s) demo_root x \<noteq> None" if "0x1000 \<le> unat x" "unat x < 0x2000" for x
  proof -
    have "page_aligned (0x1000 :: u64)" by (simp add: page_aligned_def)
    from PGROUNDDOWN_eq_iff [OF this, of x] that have "PGROUNDDOWN x = 0x1000" by simp
    moreover have "x < MAXVA" using that by (simp add: word_less_nat_alt MAXVA_def)
    ultimately show ?thesis by (simp add: up)
  qed
  ultimately show thesis by (rule that)
qed

theorem copyout_copyin_round_trip_witness:
  "\<exists>(s :: kmem) t. copyout demo_root 0x1FFC [1, 2, 3] s = Ok 0 t \<and>
     copyin demo_root 0x1FFC 3 t = Ok (0, [1, 2, 3]) t"
proof -
  obtain s :: kmem where s: "umem_ok (mem s) demo_root"
    "\<And>x. 0x1000 \<le> unat x \<Longrightarrow> unat x < 0x2000 \<Longrightarrow> user_page (mem s) demo_root x \<noteq> None"
    by (rule demo_user) (rule that; assumption)
  have "\<exists>t. copyout demo_root 0x1FFC [1, 2, 3] s = Ok 0 t \<and>
      copyin demo_root 0x1FFC (length [1, 2, 3 :: u8]) t = Ok (0, [1, 2, 3]) t \<and>
      (\<forall>x. \<not> (unat (0x1FFC :: u64) \<le> unat x \<and> unat x < unat (0x1FFC :: u64) + length [1, 2, 3 :: u8]) \<longrightarrow>
        ubyte (mem t) demo_root x = ubyte (mem s) demo_root x)"
    by (rule copyout_copyin_round_trip [OF s(1)]) (use s(2) in auto)
  then show ?thesis by (auto simp: numeral_3_eq_3)
qed

end
