(* ===== verification/Demo.thy ===== *)
theory Demo
  imports Vma
begin

text \<open>
  A concrete kernel state for the witnesses: process 0 runs with one open file, nothing is
  mapped, no lock is held. The memory and the page allocator are those of the argument.
\<close>

definition demo_proc :: proc where
  "demo_proc = \<lparr>state = RUNNING, chan = None, killed = False, xstate = 0, pid = 1, parent = None,
     kstack = 0, psz = 0, pagetable = 0, trapframe = 0, ctx = [], ofile = Some 0 # replicate 15 None,
     cwd = Some 0, pname = replicate 16 0, pvmas = None, nvma = 0\<rparr>"

definition free_proc :: proc where
  "free_proc = demo_proc\<lparr>state := UNUSED, pid := 0, ofile := replicate 16 None, cwd := None\<rparr>"

definition demo_inode :: inode where
  "demo_inode = \<lparr>idev = 1, inum = 1, iref = 0, ivalid = False, itype = 0, major = 0, minor = 0,
     nlink = 0, isize = 0, addrs = replicate 13 0\<rparr>"

definition demo_file :: file_struct where
  "demo_file = \<lparr>ftype = FD_NONE, fref = 0, readable = 0, writable = 0, fpipe = 0, fip = None,
     foff = 0, fmajor = 0\<rparr>"

definition free_vma :: vma where
  "free_vma = \<lparr>vuse = False, vsize = 0, vofile = None, addrinit = 0, addri = 0, addre = 0,
     voffset = 0, vnext = None, prot = 0, flag = 0\<rparr>"

definition demo_buf :: buf where
  "demo_buf = \<lparr>valid = False, bdisk = False, dev = 0, blockno = 0, refcnt = 0, bprev = 0, bnext = 0,
     data = replicate 1024 0\<rparr>"

text \<open>A disk that stores and returns blocks.\<close>

definition demo_serve ::
  "u32 \<Rightarrow> u64 \<Rightarrow> u8 list \<Rightarrow> (u64 \<Rightarrow> u8 list) \<Rightarrow> (u64 \<Rightarrow> u8 list) \<times> u8 list \<times> u8" where
  "demo_serve ty sec b pl = (if ty = VIRTIO_BLK_T_OUT then (pl(sec := b), b, 0) else (pl, pl sec, 0))"

lemma demo_serve_device: "blk_device demo_serve"
  by (simp add: blk_device_def demo_serve_def)

definition demo_on :: "kmem \<Rightarrow> vstate" where
  "demo_on k = \<lparr>mem = mem k, locks = [], freelist = freelist k, runs = runs k,
     kernel_end = kernel_end k, runs_base = runs_base k,
     kernel_pagetable = 0, etext = 0, trampoline = 0,
     proc = (\<lambda>i. if i = 0 then demo_proc else free_proc), initproc = None, nextpid = 2,
     cur = Some 0, ticks = 0, forkret_addr = 0,
     sleeplocks = (\<lambda>_. \<lparr>sl_locked = False, sl_pid = 0\<rparr>),
     bufs = (\<lambda>_. demo_buf), desc = (\<lambda>_. \<lparr>daddr = Null, dlen = 0, flags = 0, dnext = 0\<rparr>),
     avail_idx = 0, avail_ring = (\<lambda>_. 0), used_idx = 0, used_ring = (\<lambda>_. 0),
     vfree = (\<lambda>i. i < NUM), seen_idx = 0, info = (\<lambda>_. \<lparr>info_b = None, info_status = 0\<rparr>),
     ops = (\<lambda>_. \<lparr>rtype = 0, reserved = 0, sector = 0\<rparr>), dev_avail = 0,
     platter = (\<lambda>_. replicate 1024 0), written = [], serve = demo_serve,
     log_start = 2, log_size = 30, outstanding = 0, committing = False, log_dev = 1, log_n = 0,
     log_blocks = replicate 30 0,
     sb = \<lparr>magic = 0x10203040, fssize = 1000, nblocks = 954, ninodes = 200, nlog = 30, logstart = 2,
       inodestart = 32, bmapstart = 45\<rparr>,
     inode = (\<lambda>_. demo_inode),
     uart_tx_buf = replicate 32 0, uart_tx_w = 0, uart_tx_r = 0, tx_room = 1, uart_in = [],
     uart_out = [], panicked = False, pr_locking = True, cons_buf = replicate 128 0, cons_r = 0,
     cons_w = 0, cons_e = 0, devsw = (\<lambda>i. i = CONSOLE),
     pipes = (\<lambda>_. \<lparr>pdata = replicate 512 0, nread = 0, nwrite = 0, readopen = False, writeopen = False\<rparr>),
     files = (\<lambda>i. if i = 0 then demo_file\<lparr>ftype := FD_INODE, fref := 1, readable := 1, writable := 1,
       fip := Some 0\<rparr> else demo_file),
     vmas = (\<lambda>_. free_vma)\<rparr>"

lemma demo_on_simps [simp]:
  "mem (demo_on k) = mem k" "locks (demo_on k) = []" "freelist (demo_on k) = freelist k"
  "runs (demo_on k) = runs k" "kernel_end (demo_on k) = kernel_end k" "runs_base (demo_on k) = runs_base k"
  "cur (demo_on k) = Some 0" "proc (demo_on k) = (\<lambda>i. if i = 0 then demo_proc else free_proc)"
  "vmas (demo_on k) = (\<lambda>_. free_vma)" "ticks (demo_on k) = 0"
  by (simp_all add: demo_on_def)

lemma demo_proc_simps [simp]:
  "state demo_proc = RUNNING" "killed demo_proc = False" "pid demo_proc = 1" "pvmas demo_proc = None"
  "nvma demo_proc = 0" "ofile demo_proc = Some 0 # replicate 15 None" "pagetable demo_proc = 0"
  "state free_proc = UNUSED" "pid free_proc = 0" "pvmas free_proc = None" "nvma free_proc = 0"
  by (simp_all add: demo_proc_def free_proc_def)

lemma free_vma_simps [simp]: "vuse free_vma = False" "vnext free_vma = None"
  by (simp_all add: free_vma_def)

end
