(* ===== verification/Vma_Spec.thy ===== *)
theory Vma_Spec
  imports Process Demo
begin

text \<open>
  The areas of a process. \<open>vma_list tab q xs\<close> is the invariant of the list that \<open>pvmas\<close> and
  \<open>nvma\<close> describe: the slots \<open>xs\<close> are linked in this order, in use, page aligned, inside the
  address range for mappings, and sorted without overlap. \<open>mmap\<close> is proved to place a new area by
  first fit and to keep the invariant; the lemmas on \<open>munmap\<close> and on the copy that \<open>fork\<close> makes
  build on the same predicate.
\<close>

section \<open>The invariant\<close>

definition area_ok :: "vma \<Rightarrow> bool" where
  "area_ok v \<longleftrightarrow> vuse v \<and> page_aligned (addri v) \<and> page_aligned (addre v) \<and>
     START_ADDRESS \<le> addri v \<and> addri v < addre v \<and> addre v \<le> TOP_ADDRESS"

definition vma_list :: "(nat \<Rightarrow> vma) \<Rightarrow> proc \<Rightarrow> nat list \<Rightarrow> bool" where
  "vma_list tab q xs \<longleftrightarrow> linked (\<lambda>i. vnext (tab i)) (pvmas q) xs \<and> nvma q = int (length xs) \<and>
     set xs \<subseteq> {..<VMAS_STORED} \<and> (\<forall>i\<in>set xs. area_ok (tab i)) \<and>
     sorted_wrt (\<lambda>i j. addre (tab i) \<le> addri (tab j)) xs"

lemma vma_list_distinct: "vma_list tab q xs \<Longrightarrow> distinct xs"
  by (auto simp: vma_list_def dest: linked_distinct)

section \<open>First fit\<close>

definition area_base :: "(nat \<Rightarrow> vma) \<Rightarrow> nat list \<Rightarrow> u64" where
  "area_base tab ys = (if ys = [] then START_ADDRESS else addre (tab (last ys)))"

definition area_limit :: "(nat \<Rightarrow> vma) \<Rightarrow> nat list \<Rightarrow> u64" where
  "area_limit tab zs = (if zs = [] then TOP_ADDRESS else addri (tab (hd zs)))"

text \<open>
  A new area of \<open>psize\<close> bytes fits between \<open>ys\<close> and \<open>zs\<close>. There is no placement before the first
  area of a non-empty list: \<open>mmap\<close> never looks there.
\<close>

definition fits :: "(nat \<Rightarrow> vma) \<Rightarrow> u64 \<Rightarrow> nat list \<Rightarrow> nat list \<Rightarrow> bool" where
  "fits tab psize ys zs \<longleftrightarrow> (ys = [] \<longrightarrow> zs = []) \<and> area_base tab ys + psize \<le> area_limit tab zs"

primrec place :: "(nat \<Rightarrow> vma) \<Rightarrow> u64 \<Rightarrow> nat list \<Rightarrow> nat list \<Rightarrow> (nat list \<times> nat list) option" where
  "place tab psize ys [] = (if fits tab psize ys [] then Some (ys, []) else None)"
| "place tab psize ys (z # zs) =
     (if fits tab psize ys (z # zs) then Some (ys, z # zs) else place tab psize (ys @ [z]) zs)"

lemma place_Some:
  "place tab psize ys zs = Some (us, vs) \<Longrightarrow> us @ vs = ys @ zs \<and> fits tab psize us vs"
  by (induction zs arbitrary: ys) (auto split: if_splits)

lemma place_first:
  "place tab psize ys zs = Some (us, vs) \<Longrightarrow> \<exists>ws. us = ys @ ws \<and>
     (\<forall>k < length ws. \<not> fits tab psize (ys @ take k ws) (drop k ws @ vs))"
proof (induction zs arbitrary: ys)
  case Nil
  then show ?case by (auto split: if_splits)
next
  case (Cons z zs)
  show ?case
  proof (cases "fits tab psize ys (z # zs)")
    case True
    with Cons.prems show ?thesis by auto
  next
    case False
    with Cons.prems have p: "place tab psize (ys @ [z]) zs = Some (us, vs)" by simp
    from Cons.IH [OF this] obtain ws where us: "us = ys @ z # ws"
      and no: "\<And>k. k < length ws \<Longrightarrow> \<not> fits tab psize (ys @ z # take k ws) (drop k ws @ vs)"
      by auto
    from place_Some [OF p] us have zs: "zs = ws @ vs" by simp
    have "\<not> fits tab psize (ys @ take k (z # ws)) (drop k (z # ws) @ vs)" if "k < length (z # ws)" for k
      using that False no [of "k - 1"] zs by (cases k) auto
    with us show ?thesis by blast
  qed
qed

lemma all_le_Suc: "(\<forall>k \<le> Suc n. P k) \<longleftrightarrow> P 0 \<and> (\<forall>k \<le> n. P (Suc k))"
  by (metis Suc_le_mono bot_nat_0.extremum not0_implies_Suc)

lemma place_None:
  "place tab psize ys zs = None \<longleftrightarrow> (\<forall>k \<le> length zs. \<not> fits tab psize (ys @ take k zs) (drop k zs))"
  by (induction zs arbitrary: ys) (simp_all add: all_le_Suc)

section \<open>mmap\<close>

abbreviation last_area :: "nat list \<Rightarrow> nat option" where
  "last_area ys \<equiv> (if ys = [] then None else Some (last ys))"

abbreviation first_area :: "nat list \<Rightarrow> nat option" where
  "first_area zs \<equiv> (if zs = [] then None else Some (hd zs))"

text \<open>The array with slot \<open>n\<close> linked between \<open>us\<close> and \<open>vs\<close>.\<close>

definition put_area :: "(nat \<Rightarrow> vma) \<Rightarrow> nat \<Rightarrow> u64 \<Rightarrow> nat list \<Rightarrow> nat list \<Rightarrow> nat \<Rightarrow> vma" where
  "put_area tab n psize us vs =
     (if us = [] then tab else tab(last us := (tab (last us))\<lparr>vnext := Some n\<rparr>))
     (n := (tab n)\<lparr>vuse := True, vnext := first_area vs, addri := area_base tab us,
        addre := area_base tab us + psize\<rparr>)"

lemma findVma_run:
  assumes "vmaslock \<notin> set (locks s)" and "find_free_vma (vmas s) = Some n"
  shows "findVma s = Ok (Some n) (s\<lparr>vmas := (vmas s)(n := (vmas s n)\<lparr>vuse := True\<rparr>)\<rparr>)"
  using assms by (simp add: findVma_def lock_runs upd_vma_def)

lemma fun_upd_around: "n \<noteq> q \<Longrightarrow> f(n := a, q := b, n := c) = f(q := b, n := c)"
  by auto

lemma vma_upd_order:
  "v\<lparr>vuse := u, addri := a, addre := e, vnext := x\<rparr> = v\<lparr>vuse := u, vnext := x, addri := a, addre := e\<rparr>"
  by simp

lemma put_area_first:
  assumes "find_free_vma (vmas s) = Some n" and "vmaslock \<notin> set (locks s)"
  shows "bnd findVma (\<lambda>r. case r of None \<Rightarrow> g
      | Some n \<Rightarrow> bnd (upd_vma n (\<lambda>v. v\<lparr>addri := START_ADDRESS, addre := START_ADDRESS + psize\<rparr>)) (\<lambda>_.
          bnd (upd_vma n (\<lambda>v. v\<lparr>vnext := None\<rparr>)) (\<lambda>_. ret (Inr n)))) s =
    Ok (Inr n) (s\<lparr>vmas := put_area (vmas s) n psize [] []\<rparr>)"
  using assms by (simp add: findVma_run upd_vma_def put_area_def area_base_def vma_upd_order)

lemma put_area_last:
  assumes "find_free_vma (vmas s) = Some n" and "vmaslock \<notin> set (locks s)" and "n \<noteq> last ys" and "ys \<noteq> []"
  shows "bnd findVma (\<lambda>r. case r of None \<Rightarrow> g
      | Some n \<Rightarrow> bnd (bnd (upd_vma (last ys) (\<lambda>v. v\<lparr>vnext := Some n\<rparr>)) (\<lambda>_.
          bnd (get_vma (last ys) addre) (\<lambda>e.
          upd_vma n (\<lambda>v. v\<lparr>addri := e, addre := e + psize\<rparr>)))) (\<lambda>_.
          bnd (upd_vma n (\<lambda>v. v\<lparr>vnext := None\<rparr>)) (\<lambda>_. ret (Inr n)))) s =
    Ok (Inr n) (s\<lparr>vmas := put_area (vmas s) n psize ys []\<rparr>)"
  using assms by (simp add: findVma_run upd_vma_def get_vma_def put_area_def area_base_def fun_upd_around vma_upd_order)

lemma put_area_between:
  assumes "find_free_vma (vmas s) = Some n" and "vmaslock \<notin> set (locks s)" and "n \<noteq> last ys" and "ys \<noteq> []"
  shows "bnd findVma (\<lambda>r. case r of None \<Rightarrow> g
      | Some n \<Rightarrow> bnd (upd_vma (last ys) (\<lambda>v. v\<lparr>vnext := Some n\<rparr>)) (\<lambda>_.
          bnd (get_vma (last ys) addre) (\<lambda>e.
          bnd (upd_vma n (\<lambda>v. v\<lparr>vnext := Some z, addri := e, addre := e + psize\<rparr>)) (\<lambda>_.
          ret (Inr n))))) s =
    Ok (Inr n) (s\<lparr>vmas := put_area (vmas s) n psize ys (z # zs)\<rparr>)"
  using assms by (simp add: findVma_run upd_vma_def get_vma_def put_area_def area_base_def fun_upd_around vma_upd_order)

lemma mmap_loop_place:
  assumes "linked (\<lambda>i. vnext (vmas s i)) act zs" and "length zs < k"
    and "vmaslock \<notin> set (locks s)" and "find_free_vma (vmas s) = Some n" and "n \<notin> set (ys @ zs)"
  shows "mmap_loop p psize k (last_area ys) act s =
    (case place (vmas s) psize ys zs of
       None \<Rightarrow> Ok (Inl (- 1)) s
     | Some (us, vs) \<Rightarrow> Ok (Inr n) (s\<lparr>vmas := put_area (vmas s) n psize us vs\<rparr>))"
  using assms
proof (induction zs arbitrary: k ys act)
  case Nil
  then obtain j where k: "k = Suc j" by (cases k) auto
  from Nil have act: "act = None" by simp
  show ?case
  proof (cases "ys = []")
    case True
    have "fits (vmas s) psize [] [] \<longleftrightarrow> \<not> TOP_ADDRESS < START_ADDRESS + psize"
      by (simp add: fits_def area_base_def area_limit_def not_less)
    with True k act show ?thesis by (simp add: put_area_first [OF Nil.prems(4,3)])
  next
    case False
    with Nil have "n \<noteq> last ys" using last_in_set by fastforce
    note run = put_area_last [OF Nil.prems(4,3) this False]
    have "fits (vmas s) psize ys [] \<longleftrightarrow> \<not> TOP_ADDRESS < addre (vmas s (last ys)) + psize"
      using False by (simp add: fits_def area_base_def area_limit_def not_less)
    with False k act show ?thesis by (simp add: run)
  qed
next
  case (Cons z zs)
  then obtain j where k: "k = Suc j" by (cases k) auto
  from Cons.prems have act: "act = Some z" and rest: "linked (\<lambda>i. vnext (vmas s i)) (vnext (vmas s z)) zs"
    by auto
  have IH: "mmap_loop p psize j (Some z) (vnext (vmas s z)) s =
    (case place (vmas s) psize (ys @ [z]) zs of
       None \<Rightarrow> Ok (Inl (- 1)) s
     | Some (us, vs) \<Rightarrow> Ok (Inr n) (s\<lparr>vmas := put_area (vmas s) n psize us vs\<rparr>))"
    using Cons.IH [OF rest, of j "ys @ [z]"] Cons.prems k by simp
  show ?case
  proof (cases "ys = []")
    case True
    have "\<not> fits (vmas s) psize [] (z # zs)" by (simp add: fits_def)
    with True k act IH show ?thesis by simp
  next
    case False
    with Cons.prems have "n \<noteq> last ys" using last_in_set by fastforce
    note run = put_area_between [OF Cons.prems(4,3) this False]
    have "fits (vmas s) psize ys (z # zs) \<longleftrightarrow> addre (vmas s (last ys)) + psize \<le> addri (vmas s z)"
      using False by (simp add: fits_def area_base_def area_limit_def)
    with False k act IH show ?thesis by (simp add: run)
  qed
qed

text \<open>The invariant only looks at the link, the use flag and the bounds of the slots in the list.\<close>

lemma vma_list_cong:
  assumes "\<And>i. i \<in> set xs \<Longrightarrow> vnext (tab i) = vnext (tab' i) \<and> vuse (tab i) = vuse (tab' i) \<and>
      addri (tab i) = addri (tab' i) \<and> addre (tab i) = addre (tab' i)"
  shows "vma_list tab q xs = vma_list tab' q xs"
proof -
  have "linked (\<lambda>i. vnext (tab i)) (pvmas q) xs = linked (\<lambda>i. vnext (tab' i)) (pvmas q) xs"
    by (rule segment_cong) (use assms in simp)
  moreover have "sorted_wrt (\<lambda>i j. addre (tab i) \<le> addri (tab j)) xs =
      sorted_wrt (\<lambda>i j. addre (tab' i) \<le> addri (tab' j)) xs"
    using assms by (auto simp: sorted_wrt_iff_nth_less)
  ultimately show ?thesis using assms by (auto simp: vma_list_def area_ok_def)
qed

lemma START_TOP: "unat START_ADDRESS = 2 ^ 37" "unat TOP_ADDRESS < 2 ^ 38" "page_aligned START_ADDRESS"
  "START_ADDRESS \<le> TOP_ADDRESS"
  by (simp_all add: START_ADDRESS_def TOP_ADDRESS_def page_aligned_def)

lemma page_aligned_add:
  "page_aligned a \<Longrightarrow> page_aligned b \<Longrightarrow> unat a + unat b < 2 ^ 64 \<Longrightarrow> page_aligned (a + b)"
  by (simp add: page_aligned_def unat_plus_if')

lemma vma_list_base:
  assumes "vma_list tab q (us @ vs)"
  shows "START_ADDRESS \<le> area_base tab us" "area_base tab us \<le> TOP_ADDRESS" "page_aligned (area_base tab us)"
    and "\<And>i. i \<in> set us \<Longrightarrow> addre (tab i) \<le> area_base tab us"
    and "\<And>i. i \<in> set vs \<Longrightarrow> area_limit tab vs \<le> addri (tab i)"
proof -
  from assms have ok: "area_ok (tab i)" if "i \<in> set us \<union> set vs" for i
    using that by (auto simp: vma_list_def)
  from assms have sorted: "sorted_wrt (\<lambda>i j. addre (tab i) \<le> addri (tab j)) (us @ vs)"
    by (simp add: vma_list_def)
  have "START_ADDRESS \<le> area_base tab us \<and> area_base tab us \<le> TOP_ADDRESS \<and> page_aligned (area_base tab us)"
    using ok [of "last us"] START_TOP by (auto simp: area_base_def area_ok_def)
  then show "START_ADDRESS \<le> area_base tab us" "area_base tab us \<le> TOP_ADDRESS" "page_aligned (area_base tab us)"
    by simp_all
  show "addre (tab i) \<le> area_base tab us" if "i \<in> set us" for i
  proof (cases us rule: rev_cases)
    case Nil
    with that show ?thesis by simp
  next
    case (snoc ws l)
    with that sorted ok [of l] show ?thesis
      by (auto simp: area_base_def sorted_wrt_append area_ok_def intro: order_trans less_imp_le)
  qed
  show "area_limit tab vs \<le> addri (tab i)" if "i \<in> set vs" for i
  proof (cases vs)
    case Nil
    with that show ?thesis by simp
  next
    case (Cons v ws)
    with that sorted ok [of v] show ?thesis
      by (auto simp: area_limit_def sorted_wrt_append area_ok_def intro: order_trans less_imp_le)
  qed
qed

text \<open>The process with slot \<open>n\<close> added.\<close>

definition add_area :: "nat \<Rightarrow> proc \<Rightarrow> proc" where
  "add_area n q = q\<lparr>pvmas := (if nvma q = 0 then Some n else pvmas q), nvma := nvma q + 1\<rparr>"

lemma linked_put_area:
  assumes "linked (\<lambda>i. vnext (tab i)) p0 (us @ vs)" and "us \<noteq> []" and "n \<notin> set (us @ vs)"
  shows "linked (\<lambda>i. vnext (put_area tab n psize us vs i)) p0 (us @ n # vs)"
proof -
  obtain ws l where us: "us = ws @ [l]" using assms(2) by (cases us rule: rev_cases) auto
  from assms(1) have d: "distinct (us @ vs)" by (rule linked_distinct)
  let ?f = "\<lambda>i. vnext (tab i)" and ?g = "\<lambda>i. vnext (put_area tab n psize us vs i)"
  from assms(1) us have 1: "segment ?f p0 ws (Some l)" and 2: "linked ?f (vnext (tab l)) vs"
    by (auto simp: segment_append)
  have "segment ?g p0 ws (Some l)"
    using 1 by (subst segment_cong [of ws ?g ?f]) (use d us assms(3) in \<open>auto simp: put_area_def\<close>)
  moreover have "linked ?g (first_area vs) vs"
  proof -
    have "linked ?f (first_area vs) vs" using 2 by (cases vs) auto
    then show ?thesis
      by (subst segment_cong [of vs ?g ?f]) (use d us assms(3) in \<open>auto simp: put_area_def\<close>)
  qed
  moreover have "?g l = Some n" "?g n = first_area vs" using us assms(3) by (auto simp: put_area_def)
  ultimately show ?thesis using us by (auto simp: segment_append)
qed

lemma vma_list_put_area:
  assumes inv: "vma_list tab q (us @ vs)" and fit: "fits tab psize us vs" and n: "n \<notin> set (us @ vs)"
    and slot: "n < VMAS_STORED" and size: "page_aligned psize" "0 < psize" "unat psize \<le> 2 ^ 39"
  shows "vma_list (put_area tab n psize us vs) (add_area n q) (us @ n # vs)"
proof -
  note base = vma_list_base [OF inv]
  let ?a = "area_base tab us"
  from base(2) START_TOP have a: "unat ?a < 2 ^ 38" by (simp add: word_le_nat_alt)
  with size have sum: "unat (?a + psize) = unat ?a + unat psize" by (simp add: unat_plus_if')
  with size have grow: "?a < ?a + psize" by (simp add: word_less_nat_alt)
  have al: "page_aligned (?a + psize)" using a size base(3) by (intro page_aligned_add) auto
  from fit have lim: "?a + psize \<le> area_limit tab vs" by (simp add: fits_def)
  have "area_limit tab vs \<le> TOP_ADDRESS"
  proof (cases vs)
    case Nil
    then show ?thesis by (simp add: area_limit_def)
  next
    case (Cons v ws)
    with inv have "area_ok (tab v)" by (simp add: vma_list_def)
    with Cons show ?thesis by (auto simp: area_limit_def area_ok_def)
  qed
  with lim have top: "?a + psize \<le> TOP_ADDRESS" by (rule order_trans)
  have link: "linked (\<lambda>i. vnext (put_area tab n psize us vs i)) (pvmas (add_area n q)) (us @ n # vs)"
  proof (cases "us = []")
    case True
    with fit have "vs = []" by (simp add: fits_def)
    with True inv show ?thesis by (simp add: put_area_def add_area_def vma_list_def)
  next
    case False
    then have "nvma q \<noteq> 0" using inv by (cases us) (simp_all add: vma_list_def)
    with False inv n show ?thesis by (simp add: add_area_def linked_put_area vma_list_def)
  qed
  have other: "i \<noteq> n \<Longrightarrow> vuse (put_area tab n psize us vs i) = vuse (tab i) \<and>
      addri (put_area tab n psize us vs i) = addri (tab i) \<and>
      addre (put_area tab n psize us vs i) = addre (tab i)" for i
    by (auto simp: put_area_def)
  have new: "vuse (put_area tab n psize us vs n)" "addri (put_area tab n psize us vs n) = ?a"
    "addre (put_area tab n psize us vs n) = ?a + psize"
    by (auto simp: put_area_def)
  have "area_ok (put_area tab n psize us vs i)" if "i \<in> set (us @ n # vs)" for i
  proof (cases "i = n")
    case True
    with new base grow al top show ?thesis by (simp add: area_ok_def)
  next
    case False
    with that inv have "area_ok (tab i)" by (auto simp: vma_list_def)
    with other [OF False] show ?thesis by (simp add: area_ok_def)
  qed
  moreover have "sorted_wrt (\<lambda>i j. addre (put_area tab n psize us vs i) \<le>
      addri (put_area tab n psize us vs j)) (us @ n # vs)"
  proof -
    have ne: "i \<noteq> n" if "i \<in> set us \<union> set vs" for i using that n by auto
    have "sorted_wrt (\<lambda>i j. addre (tab i) \<le> addri (tab j)) (us @ vs)"
      using inv by (simp add: vma_list_def)
    then have "sorted_wrt (\<lambda>i j. addre (put_area tab n psize us vs i) \<le>
      addri (put_area tab n psize us vs j)) (us @ vs)"
      by (rule sorted_wrt_mono_rel [rotated]) (use other ne in \<open>metis Un_iff set_append\<close>)
    then show ?thesis
      using base(4,5) lim new other ne by (auto simp: sorted_wrt_append intro: order_trans)
  qed
  ultimately show ?thesis
    using link inv slot by (auto simp: vma_list_def add_area_def)
qed

text \<open>The state that a successful call leaves.\<close>

definition mmap_state ::
  "u64 \<Rightarrow> int \<Rightarrow> int \<Rightarrow> nat \<Rightarrow> nat \<Rightarrow> nat \<Rightarrow> nat list \<Rightarrow> nat list \<Rightarrow> 'z vstate_scheme \<Rightarrow> 'z vstate_scheme" where
  "mmap_state len pr fl p f n us vs s =
     (let base = area_base (vmas s) us in
      s\<lparr>vmas := (put_area (vmas s) n (PGROUNDUP len) us vs)(n := \<lparr>vuse = True, vsize = len,
          vofile = Some f, addrinit = base, addri = base, addre = base + PGROUNDUP len, voffset = 0,
          vnext = first_area vs, prot = pr, flag = fl\<rparr>),
        files := (files s)(f := (files s f)\<lparr>fref := fref (files s f) + 1\<rparr>),
        proc := (proc s)(p := add_area n (proc s p))\<rparr>)"

lemma vma_eqI:
  fixes v w :: vma
  assumes "vuse v = vuse w" "vsize v = vsize w" "vofile v = vofile w" "addrinit v = addrinit w"
    "addri v = addri w" "addre v = addre w" "voffset v = voffset w" "vnext v = vnext w"
    "prot v = prot w" "flag v = flag w"
  shows "v = w"
  using assms by (cases v; cases w) simp

lemma mmap_permitted:
  assumes "0 \<le> fd" "nat fd < length (ofile (proc s p))" "ofile (proc s p) ! nat fd = Some f"
    and "fl = uint MAP_SHARED \<Longrightarrow> readable (files s f) = 1 \<and> writable (files s f) = 1"
  shows "(if fl = uint MAP_SHARED
       then bnd (ofile_at p fd) (\<lambda>o0. bnd (deref o0) (\<lambda>f. get_file f (\<lambda>x. readable x \<noteq> 1 \<or> writable x \<noteq> 1)))
       else ret False) s = Ok False s"
  using assms by (auto simp: ofile_at_def get_proc_def deref_def get_file_def)

lemma mmap_run:
  assumes cur: "cur s = Some p" and free: "plock p \<notin> set (locks s)" "vmaslock \<notin> set (locks s)"
    and inv: "vma_list (vmas s) (proc s p) xs" and len: "length xs < MAX_VMAS"
    and fd: "0 \<le> fd" "nat fd < length (ofile (proc s p))" "ofile (proc s p) ! nat fd = Some f"
    and perm: "fl = uint MAP_SHARED \<Longrightarrow> readable (files s f) = 1 \<and> writable (files s f) = 1"
    and slot: "find_free_vma (vmas s) = Some n"
  shows "mmap ln pr fl fd s = (case place (vmas s) (PGROUNDUP ln) [] xs of
      None \<Rightarrow> Ok (- 1) (s\<lparr>locks := plock p # locks s\<rparr>)
    | Some (us, vs) \<Rightarrow> Ok (area_base (vmas s) us) (mmap_state ln pr fl p f n us vs s))"
proof -
  let ?s = "s\<lparr>locks := plock p # locks s\<rparr>"
  from slot have unused: "\<not> vuse (vmas s n)" and n30: "n < VMAS_STORED"
    by (auto simp: find_free_vma_def find_Some_iff)
  with inv have n: "n \<notin> set xs" by (auto simp: vma_list_def area_ok_def)
  from inv len have nv: "nvma (proc s p) \<noteq> int MAX_VMAS" "linked (\<lambda>i. vnext (vmas s i)) (pvmas (proc s p)) xs"
    by (auto simp: vma_list_def)
  have loop: "mmap_loop p (PGROUNDUP ln) (Suc MAX_VMAS) None (pvmas (proc s p)) ?s =
    (case place (vmas s) (PGROUNDUP ln) [] xs of
       None \<Rightarrow> Ok (Inl (- 1)) ?s
     | Some (us, vs) \<Rightarrow> Ok (Inr n) (?s\<lparr>vmas := put_area (vmas s) n (PGROUNDUP ln) us vs\<rparr>))"
    using mmap_loop_place [of ?s "pvmas (proc s p)" xs "Suc MAX_VMAS" n "[]" p "PGROUNDUP ln"]
      nv(2) len free(2) slot n by (simp split: option.splits prod.splits)
  note permitted = mmap_permitted [OF fd perm]
  show ?thesis
  proof (cases "place (vmas s) (PGROUNDUP ln) [] xs")
    case None
    with loop cur free nv(1) permitted show ?thesis
      by (simp add: mmap_def myproc_def get_proc_def lock_runs)
  next
    case (Some uv)
    obtain us vs where uv: "uv = (us, vs)" by (cases uv)
    have same: "(put_area (vmas s) n (PGROUNDUP ln) us vs n)\<lparr>vsize := ln, prot := pr, vofile := Some f,
        voffset := 0, flag := fl, addrinit := area_base (vmas s) us\<rparr> = \<lparr>vuse = True, vsize = ln,
          vofile = Some f, addrinit = area_base (vmas s) us, addri = area_base (vmas s) us,
          addre = area_base (vmas s) us + PGROUNDUP ln, voffset = 0,
          vnext = first_area vs, prot = pr, flag = fl\<rparr>"
      by (rule vma_eqI) (simp_all add: put_area_def)
    have base: "addri (put_area (vmas s) n (PGROUNDUP ln) us vs n) = area_base (vmas s) us"
      by (simp add: put_area_def)
    show ?thesis
      using Some uv loop cur free nv(1) permitted fd same
      by (simp add: mmap_def myproc_def get_proc_def lock_runs ofile_at_def deref_def get_file_def
          upd_file_def upd_vma_def get_vma_def upd_proc_def base add_area_def mmap_state_def Let_def)
  qed
qed

section \<open>Properties of mmap\<close>

lemma PGROUNDUP_bounds:
  assumes "0 < ln" and "ln \<le> MAXVA"
  shows "page_aligned (PGROUNDUP ln)" "0 < PGROUNDUP ln" "unat (PGROUNDUP ln) \<le> 2 ^ 39"
    "unat ln \<le> unat (PGROUNDUP ln)"
proof -
  from assms have l: "0 < unat ln" "unat ln \<le> 2 ^ 38"
    by (simp_all add: word_le_nat_alt word_less_nat_alt MAXVA_def)
  then have u: "unat (PGROUNDUP ln) = ((unat ln + 4095) div 4096) * 4096" by (simp add: unat_PGROUNDUP)
  from l show "0 < PGROUNDUP ln" by (simp add: word_less_nat_alt u div_greater_zero_iff)
  have "(unat ln + 4095) div 4096 * 4096 \<le> unat ln + 4095" by simp
  with u l show "unat (PGROUNDUP ln) \<le> 2 ^ 39" by simp
  show "unat ln \<le> unat (PGROUNDUP ln)" unfolding u
    using mult_div_mod_eq [of 4096 "unat ln + 4095"] mod_less_divisor [of 4096 "unat ln + 4095"]
    by simp
qed simp

text \<open>
  C1. mmap, from a state where the list of areas is well formed and some gap behind an area (or
  the whole range, for a process without areas) is large enough: it succeeds with the first such
  gap. The address returned is the end of the area before the gap, the new area has the rounded
  size, no area overlaps another, the list stays sorted and linked with one element more, the file
  gets one reference, all locks are released and nothing else changes.
\<close>

theorem mmap_first_fit:
  assumes "cur s = Some p" and "plock p \<notin> set (locks s)" and "vmaslock \<notin> set (locks s)"
    and "vma_list (vmas s) (proc s p) xs" and "length xs < MAX_VMAS"
    and "0 \<le> fd" and "nat fd < length (ofile (proc s p))" and "ofile (proc s p) ! nat fd = Some f"
    and "fl = uint MAP_SHARED \<longrightarrow> readable (files s f) = 1 \<and> writable (files s f) = 1"
    and "find_free_vma (vmas s) = Some n" and "0 < ln" and "ln \<le> MAXVA"
    and "\<exists>k \<le> length xs. fits (vmas s) (PGROUNDUP ln) (take k xs) (drop k xs)"
  shows "\<exists>us vs t. xs = us @ vs \<and> fits (vmas s) (PGROUNDUP ln) us vs \<and>
      (\<forall>k < length us. \<not> fits (vmas s) (PGROUNDUP ln) (take k us) (drop k us @ vs)) \<and>
      mmap ln pr fl fd s = Ok (area_base (vmas s) us) t \<and> t = mmap_state ln pr fl p f n us vs s \<and>
      vma_list (vmas t) (proc t p) (us @ n # vs)"
proof -
  let ?sz = "PGROUNDUP ln"
  from assms(13) have "place (vmas s) ?sz [] xs \<noteq> None" by (auto simp: place_None)
  then obtain us vs where pl: "place (vmas s) ?sz [] xs = Some (us, vs)" by auto
  from place_Some [OF pl] have xs: "xs = us @ vs" and fit: "fits (vmas s) ?sz us vs" by simp_all
  from place_first [OF pl] have first: "\<forall>k < length us. \<not> fits (vmas s) ?sz (take k us) (drop k us @ vs)"
    by auto
  let ?t = "mmap_state ln pr fl p f n us vs s"
  from assms pl have run: "mmap ln pr fl fd s = Ok (area_base (vmas s) us) ?t"
    by (subst mmap_run [where p = p and xs = xs and f = f and n = n]) auto
  from assms(10) have "\<not> vuse (vmas s n)" and n30: "n < VMAS_STORED"
    by (auto simp: find_free_vma_def find_Some_iff)
  with assms(4) have n: "n \<notin> set (us @ vs)" by (auto simp: vma_list_def area_ok_def xs)
  have "vma_list (put_area (vmas s) n ?sz us vs) (add_area n (proc s p)) (us @ n # vs)"
    using vma_list_put_area [OF _ fit n n30] assms(4) xs PGROUNDUP_bounds [OF assms(11,12)] by blast
  then have "vma_list (vmas ?t) (proc ?t p) (us @ n # vs)"
    by (subst vma_list_cong [where tab' = "put_area (vmas s) n ?sz us vs"])
      (auto simp: mmap_state_def Let_def put_area_def)
  with xs fit first run show ?thesis by blast
qed

theorem mmap_first_fit_witness:
  "\<exists>t. mmap 5000 2 1 0 (demo_on boot_kmem) = Ok 0x2000000000 t \<and>
     t = mmap_state 5000 2 1 0 0 0 [] [] (demo_on boot_kmem) \<and> vma_list (vmas t) (proc t 0) [0]"
proof -
  have "find_free_vma (\<lambda>_. free_vma) = Some 0"
    by (simp add: find_free_vma_def upt_rec)
  moreover have "fits (\<lambda>_. free_vma) (PGROUNDUP 5000) [] []"
    by (simp add: fits_def area_base_def area_limit_def PGROUNDUP_def START_ADDRESS_def TOP_ADDRESS_def)
  ultimately show ?thesis
    using mmap_first_fit [of "demo_on boot_kmem" 0 "[]" 0 0 1 0 5000 2]
    by (simp add: vma_list_def MAXVA_def area_base_def START_ADDRESS_def)
qed

text \<open>
  C36. When no gap is large enough, mmap returns -1 without releasing the lock of the process: the
  lock is still held, nothing else has changed, and the next mmap or munmap of the process panics.
\<close>

theorem mmap_no_room_keeps_lock:
  assumes "cur s = Some p" and "plock p \<notin> set (locks s)" and "vmaslock \<notin> set (locks s)"
    and "vma_list (vmas s) (proc s p) xs" and "length xs < MAX_VMAS"
    and "0 \<le> fd" and "nat fd < length (ofile (proc s p))" and "ofile (proc s p) ! nat fd = Some f"
    and "fl = uint MAP_SHARED \<longrightarrow> readable (files s f) = 1 \<and> writable (files s f) = 1"
    and "find_free_vma (vmas s) = Some n"
    and "\<forall>k \<le> length xs. \<not> fits (vmas s) (PGROUNDUP ln) (take k xs) (drop k xs)"
  shows "\<exists>t. mmap ln pr fl fd s = Ok (- 1) t \<and> t = s\<lparr>locks := plock p # locks s\<rparr> \<and>
      mmap ln' pr fl fd t = Halt (Panic ''acquire'') t \<and> munmap a ln' t = Halt (Panic ''acquire'') t"
proof -
  let ?t = "s\<lparr>locks := plock p # locks s\<rparr>"
  from assms(11) have pl: "place (vmas s) (PGROUNDUP ln) [] xs = None" by (simp add: place_None)
  from assms pl have "mmap ln pr fl fd s = Ok (- 1) ?t"
    by (subst mmap_run [where p = p and xs = xs and f = f and n = n]) auto
  moreover have "mmap ln' pr fl fd ?t = Halt (Panic ''acquire'') ?t"
    using assms mmap_permitted [of fd ?t p f fl]
    by (simp add: mmap_def myproc_def acquire_held)
  moreover have "munmap a ln' ?t = Halt (Panic ''acquire'') ?t"
    using assms by (simp add: munmap_def myproc_def acquire_held)
  ultimately show ?thesis by blast
qed

theorem mmap_no_room_keeps_lock_witness:
  "\<exists>t. mmap 0x2000000000 2 1 0 (demo_on boot_kmem) = Ok (- 1) t \<and> locks t = [plock 0] \<and>
     mmap 4096 2 1 0 t = Halt (Panic ''acquire'') t"
proof -
  have "find_free_vma (\<lambda>_. free_vma) = Some 0"
    by (simp add: find_free_vma_def upt_rec)
  moreover have "\<not> fits (\<lambda>_. free_vma) (PGROUNDUP 0x2000000000) [] []"
    by (simp add: fits_def area_base_def area_limit_def PGROUNDUP_def START_ADDRESS_def TOP_ADDRESS_def)
  ultimately show ?thesis
    using mmap_no_room_keeps_lock [where s = "demo_on boot_kmem" and p = 0 and xs = "[]" and fd = 0 and f = 0
        and fl = 1 and n = 0 and ln = "0x2000000000" and pr = 2 and ln' = 4096]
    by (auto simp: vma_list_def)
qed

end
