(* ===== verification/Munmap_Spec.thy ===== *)
theory Munmap_Spec
  imports Vma_Spec Pagetable_Spec
begin

unbundle bit_operations_syntax

text \<open>
  \<open>munmap\<close> of a whole area whose pages need no write-back: every resident page is unmapped and
  goes back to the free list, the area leaves the list of the process. The errors of \<open>munmap\<close>
  follow: an area that was never touched, and an area of size 0.
\<close>

section \<open>The pages of an area\<close>

lemma page_at_eq:
  assumes "page_aligned addr" and "unat addr + 4096 * i < 2 ^ 38" and "i < 2 ^ 19"
  shows "page_at addr i = addr + of_nat (4096 * i)" and "unat (page_at addr i) = unat addr + 4096 * i"
proof -
  have u: "unat (addr + of_nat (4096 * i)) = unat addr + 4096 * i"
    using assms(2) by (intro unat_add_of_nat) simp
  have "(scast (of_nat i * 4096 :: u32) :: u64) = of_nat (4096 * i)"
  proof -
    have "of_nat i * 4096 = (of_nat (4096 * i) :: u32)" by simp
    then have "(scast (of_nat i * 4096 :: u32) :: u64) = scast (of_nat (4096 * i) :: u32)" by (simp only:)
    also have "\<dots> = of_nat (4096 * i)"
    proof -
      have "signed_take_bit 31 (4096 * int i) = 4096 * int i"
        using assms(3) by (intro signed_take_bit_int_eq_self) auto
      then show ?thesis unfolding signed_of_nat by simp
    qed
    finally show ?thesis .
  qed
  then have p: "page_at addr i = PGROUNDDOWN (addr + of_nat (4096 * i))" by (simp add: page_at_def)
  also have "\<dots> = addr + of_nat (4096 * i)"
    using assms(1) u by (intro PGROUNDDOWN_aligned) (simp add: page_aligned_def)
  finally show "page_at addr i = addr + of_nat (4096 * i)" .
  with u show "unat (page_at addr i) = unat addr + 4096 * i" by simp
qed

text \<open>
  A page that \<open>munmap\<close> can handle: its leaf table exists, and when the page is resident its frame
  is an allocated page with one reference, not free and not a page table.
\<close>

definition page_ready :: "'z kmem_scheme \<Rightarrow> u64 \<Rightarrow> nat list \<Rightarrow> u64 \<Rightarrow> bool" where
  "page_ready s r xs va \<longleftrightarrow> l0 (mem s) r (PX 2 va) (PX 1 va) \<noteq> None \<and>
     (pte_of (mem s) r va AND PTE_V \<noteq> 0 \<longrightarrow> PTE_FLAGS (pte_of (mem s) r va) \<noteq> PTE_V \<and>
       (\<exists>i. PTE2PA (pte_of (mem s) r va) = page_addr i \<and> page_ix s i \<and> run_ref (runs s i) = 1 \<and>
         i \<notin> set xs \<and> page_addr i \<notin> tables (mem s) r))"

abbreviation resident :: "'z kmem_scheme \<Rightarrow> u64 \<Rightarrow> u64 \<Rightarrow> bool" where
  "resident s r va \<equiv> pte_of (mem s) r va AND PTE_V \<noteq> 0"

definition frames_distinct :: "'z kmem_scheme \<Rightarrow> u64 \<Rightarrow> u64 list \<Rightarrow> bool" where
  "frames_distinct s r vas \<longleftrightarrow>
     sorted_wrt (\<lambda>va vb. resident s r va \<longrightarrow> resident s r vb \<longrightarrow>
       PTE2PA (pte_of (mem s) r va) \<noteq> PTE2PA (pte_of (mem s) r vb)) vas"

lemma walk_ready:
  assumes wf: "pt_wf (mem s) r" and va: "va < MAXVA" and l: "l0 (mem s) r (PX 2 va) (PX 1 va) \<noteq> None"
  shows "\<exists>q. walk r va False s = Ok q s \<and> kload64 q s = Ok (pte_of (mem s) r va) s"
proof -
  from l obtain u where u: "l0 (mem s) r (PX 2 va) (PX 1 va) = Some u" by auto
  moreover from this have "ram_page u" using pt_wf_ram [OF wf tables_l0 [OF idx_PX idx_PX]] by blast
  ultimately show ?thesis
    using walk_lookup [OF wf va] by (simp add: slot_of_def pte_of_def kload64_entry)
qed

text \<open>Removing one page, for a caller that goes on with the pages \<open>vas\<close>.\<close>

lemma unmap_ready_page:
  assumes inv: "pt_inv s r xs" and al: "page_aligned va" and va: "va < MAXVA"
    and rdy: "page_ready s r xs va" and res: "resident s r va"
    and others: "\<forall>vb \<in> set vas. vb < MAXVA \<and> page_aligned vb \<and> vb \<noteq> va \<and> page_ready s r xs vb"
    and fd: "frames_distinct s r (va # vas)"
  obtains t i where "uvmunmap r va 1 True s = Ok () t" and "pt_inv t r (i # xs)" and "kmem_frame s t"
    and "\<And>vb. vb < MAXVA \<Longrightarrow> pte_of (mem t) r vb = (if PGROUNDDOWN vb = va then 0 else pte_of (mem s) r vb)"
    and "\<forall>vb \<in> set vas. page_ready t r (i # xs) vb" and "frames_distinct t r vas"
    and "PTE2PA (pte_of (mem s) r va) = page_addr i"
proof -
  from rdy res obtain i where i: "PTE2PA (pte_of (mem s) r va) = page_addr i" "page_ix s i"
      "run_ref (runs s i) = 1" "i \<notin> set xs" "page_addr i \<notin> tables (mem s) r"
    and fl: "PTE_FLAGS (pte_of (mem s) r va) \<noteq> PTE_V"
    by (auto simp: page_ready_def)
  obtain t where t: "uvmunmap r va 1 True s = Ok () t" "pt_inv t r (i # xs)" "kmem_frame s t"
    and tab: "tables (mem t) r = tables (mem s) r"
    and pte: "\<forall>vb < MAXVA. pte_of (mem t) r vb = (if PGROUNDDOWN vb = va then 0 else pte_of (mem s) r vb)"
    and ref: "\<forall>j. run_ref (runs t j) = run_ref (runs s j)"
    and l0: "\<forall>a b. pidx a \<longrightarrow> pidx b \<longrightarrow> l0 (mem t) r a b = l0 (mem s) r a b"
    using uvmunmap_free_page [OF inv al va res fl i] by auto
  have pix: "page_ix t j = page_ix s j" for j using kmem_frameD(2) [OF t(3)] by (simp add: page_ix_def)
  have same: "pte_of (mem t) r vb = pte_of (mem s) r vb" if "vb \<in> set vas" for vb
    using pte others that by (metis PGROUNDDOWN_aligned)
  have "page_ready t r (i # xs) vb" if vb: "vb \<in> set vas" for vb
  proof -
    have "PTE2PA (pte_of (mem s) r vb) \<noteq> PTE2PA (pte_of (mem s) r va)" if "resident s r vb"
      using fd res that vb by (auto simp: frames_distinct_def)
    moreover from others vb have "page_ready s r xs vb" by simp
    ultimately show ?thesis
      using same [OF vb] pix ref tab l0 i(1) unfolding page_ready_def by (auto simp: idx_PX)
  qed
  moreover have "frames_distinct t r vas"
  proof -
    from fd have "frames_distinct s r vas" by (simp add: frames_distinct_def)
    with same show ?thesis unfolding frames_distinct_def sorted_wrt_iff_nth_less by auto
  qed
  ultimately show thesis using that t pte i(1) by blast
qed

lemma kmem_frame_vstate:
  fixes s t :: "'z vstate_scheme"
  assumes "kmem_frame s t"
  shows "proc t = proc s" "vmas t = vmas s" "files t = files s" "cur t = cur s"
  by (subst assms [unfolded kmem_frame_def], simp)+

text \<open>The loop over the pages \<open>vas\<close> of an area, for a caller that goes on with the pages \<open>ws\<close>.\<close>

lemma munmap_pages_clean:
  assumes "pt_inv s r xs" and "pagetable (proc s p) = r"
    and "\<forall>va \<in> set (vas @ ws). va < MAXVA \<and> page_aligned va \<and> page_ready s r xs va" and "distinct (vas @ ws)"
    and "frames_distinct s r (vas @ ws)" and "vas = map (page_at addr) js"
    and "\<forall>va \<in> set vas. pte_of (mem s) r va AND PTE_D = 0 \<or> flag (vmas s a) \<noteq> uint MAP_SHARED"
  shows "\<exists>t zs. munmap_pages p a addr False js s = Ok True t \<and> pt_inv t r (zs @ xs) \<and> kmem_frame s t \<and>
     (\<forall>vb < MAXVA. pte_of (mem t) r vb =
        (if PGROUNDDOWN vb \<in> set vas \<and> resident s r vb then 0 else pte_of (mem s) r vb)) \<and>
     set (map page_addr zs) = {PTE2PA (pte_of (mem s) r va) | va. va \<in> set vas \<and> resident s r va} \<and>
     (\<forall>vb \<in> set ws. page_ready t r (zs @ xs) vb) \<and> frames_distinct t r ws"
  using assms
proof (induction vas arbitrary: s xs js)
  case Nil
  then show ?case by (auto intro!: exI [of _ "[]"] simp: kmem_frame_refl)
next
  case (Cons va vas)
  then obtain j ks where js: "js = j # ks" "va = page_at addr j" "vas = map (page_at addr) ks" by auto
  have wf: "pt_wf (mem s) r" using Cons.prems(1) by (simp add: pt_inv_def)
  have va: "va < MAXVA" "page_aligned va" "page_ready s r xs va" using Cons.prems(3) by auto
  then obtain q where q: "walk r va False s = Ok q s" "kload64 q s = Ok (pte_of (mem s) r va) s"
    using walk_ready [OF wf va(1)] by (auto simp: page_ready_def)
  show ?case
  proof (cases "resident s r va")
    case False
    have "\<exists>t zs. munmap_pages p a addr False ks s = Ok True t \<and> pt_inv t r (zs @ xs) \<and> kmem_frame s t \<and>
     (\<forall>vb < MAXVA. pte_of (mem t) r vb =
        (if PGROUNDDOWN vb \<in> set vas \<and> resident s r vb then 0 else pte_of (mem s) r vb)) \<and>
     set (map page_addr zs) = {PTE2PA (pte_of (mem s) r va) | va. va \<in> set vas \<and> resident s r va} \<and>
     (\<forall>vb \<in> set ws. page_ready t r (zs @ xs) vb) \<and> frames_distinct t r ws"
      by (rule Cons.IH) (use Cons.prems js in \<open>auto simp: frames_distinct_def\<close>)
    moreover have "munmap_pages p a addr False js s = munmap_pages p a addr False ks s"
      using q False Cons.prems(2) by (simp add: js(1) js(2) [symmetric] get_proc_def)
    moreover have "{PTE2PA (pte_of (mem s) r vb) | vb. vb \<in> set (va # vas) \<and> resident s r vb} =
        {PTE2PA (pte_of (mem s) r vb) | vb. vb \<in> set vas \<and> resident s r vb}"
      using False by auto
    moreover have "\<not> resident s r vb" if "PGROUNDDOWN vb = va" for vb
      using False that pte_of_PGROUNDDOWN [of "mem s" r vb] by simp
    ultimately show ?thesis by (smt (verit, best) set_ConsD list.set_intros(2))
  next
    case True
    have others: "\<forall>vb \<in> set (vas @ ws). vb < MAXVA \<and> page_aligned vb \<and> vb \<noteq> va \<and> page_ready s r xs vb"
      using Cons.prems(3,4) by auto
    obtain t i where t: "uvmunmap r va 1 True s = Ok () t" "pt_inv t r (i # xs)" "kmem_frame s t"
      and pte: "\<And>vb. vb < MAXVA \<Longrightarrow> pte_of (mem t) r vb = (if PGROUNDDOWN vb = va then 0 else pte_of (mem s) r vb)"
      and rest: "\<forall>vb \<in> set (vas @ ws). page_ready t r (i # xs) vb" "frames_distinct t r (vas @ ws)"
      and i: "PTE2PA (pte_of (mem s) r va) = page_addr i"
      by (rule unmap_ready_page [OF Cons.prems(1) va(2,1,3) True others Cons.prems(5) [unfolded append_Cons]]) (rule that; assumption)
    from t(3) have same: "proc t = proc s" "vmas t = vmas s"
      by (simp_all add: kmem_frame_vstate)
    have step: "munmap_pages p a addr False js s = munmap_pages p a addr False ks t"
      using q True t Cons.prems(2,7) by (auto simp: js(1) js(2) [symmetric] get_proc_def get_vma_def)
    have pv: "pte_of (mem t) r vb = pte_of (mem s) r vb" if "vb \<in> set vas" for vb
      using that Cons.prems(3,4) pte [of vb] by (auto simp: PGROUNDDOWN_aligned)
    obtain u zs where u: "munmap_pages p a addr False ks t = Ok True u" "pt_inv u r (zs @ i # xs)" "kmem_frame t u"
      "\<forall>vb < MAXVA. pte_of (mem u) r vb =
        (if PGROUNDDOWN vb \<in> set vas \<and> resident t r vb then 0 else pte_of (mem t) r vb)"
      "set (map page_addr zs) = {PTE2PA (pte_of (mem t) r va) | va. va \<in> set vas \<and> resident t r va}"
      "\<forall>vb \<in> set ws. page_ready u r (zs @ i # xs) vb" "frames_distinct u r ws"
      using Cons.IH [OF t(2), of ks] Cons.prems(2,3,4,7) js(3) rest same pv by auto
    have "pte_of (mem u) r vb = (if PGROUNDDOWN vb \<in> set (va # vas) \<and> resident s r vb then 0
        else pte_of (mem s) r vb)" if vb: "vb < MAXVA" for vb
    proof (cases "PGROUNDDOWN vb = va")
      case True
      moreover have "resident s r vb" using \<open>resident s r va\<close> True pte_of_PGROUNDDOWN [of "mem s" r vb] by simp
      ultimately show ?thesis using u(4) vb pte [OF vb] by simp
    next
      case False
      with u(4) vb pte [OF vb] show ?thesis by simp
    qed
    moreover have "set (map page_addr (zs @ [i])) =
        {PTE2PA (pte_of (mem s) r vb) | vb. vb \<in> set (va # vas) \<and> resident s r vb}"
    proof -
      have "{PTE2PA (pte_of (mem t) r va) | va. va \<in> set vas \<and> resident t r va} =
          {PTE2PA (pte_of (mem s) r va) | va. va \<in> set vas \<and> resident s r va}"
        using pv by (metis (no_types, opaque_lifting))
      with u(5) True show ?thesis by (auto simp flip: i)
    qed
    moreover have "kmem_frame s u" using kmem_frame_trans [OF t(3) u(3)] .
    moreover have "pt_inv u r ((zs @ [i]) @ xs)" using u(2) by simp
    ultimately show ?thesis
      using step u(1,6,7) by - (rule exI [of _ u], rule exI [of _ "zs @ [i]"], intro conjI allI impI; simp)
  qed
qed

section \<open>Finding and removing the area\<close>

lemma munmap_find_area:
  assumes "linked (\<lambda>i. vnext (vmas s i)) act (us @ a # vs)" and "length us < k"
    and "\<forall>i \<in> set us. addre (vmas s i) \<le> addri (vmas s a)" and "addri (vmas s a) < addre (vmas s a)"
    and "addri (vmas s a) \<le> addri (vmas s a) + len" and "addri (vmas s a) + len \<le> addre (vmas s a)"
  shows "munmap_find (addri (vmas s a)) len k (last_area ws) act s = Ok (Some (last_area (ws @ us), a)) s"
  using assms
proof (induction us arbitrary: k ws act)
  case Nil
  then obtain j where "k = Suc j" by (cases k) auto
  with Nil show ?case by (simp add: deref_def get_vma_def)
next
  case (Cons u us)
  then obtain j where k: "k = Suc j" by (cases k) auto
  have "munmap_find (addri (vmas s a)) len j (last_area (ws @ [u])) (vnext (vmas s u)) s =
      Ok (Some (last_area ((ws @ [u]) @ us), a)) s"
    by (rule Cons.IH) (use Cons.prems k in auto)
  with Cons.prems k show ?case by (auto simp: deref_def get_vma_def not_less)
qed

text \<open>The array and the process without slot \<open>a\<close>, which follows \<open>us\<close>.\<close>

definition drop_area :: "(nat \<Rightarrow> vma) \<Rightarrow> nat list \<Rightarrow> nat \<Rightarrow> nat \<Rightarrow> vma" where
  "drop_area tab us a =
     (if us = [] then tab else tab(last us := (tab (last us))\<lparr>vnext := vnext (tab a)\<rparr>))(a := free_vma)"

definition del_area :: "(nat \<Rightarrow> vma) \<Rightarrow> nat list \<Rightarrow> nat \<Rightarrow> proc \<Rightarrow> proc" where
  "del_area tab us a q = q\<lparr>pvmas := (if us = [] then vnext (tab a) else pvmas q), nvma := nvma q - 1\<rparr>"

lemma freeVma_run:
  assumes "vmaslock \<notin> set (locks s)" and "vofile (vmas s a) = Some f" and "us = [] \<or> last us \<noteq> a"
  shows "freeVma p (last_area us) a s = Ok () (s\<lparr>vmas := drop_area (vmas s) us a,
      files := (files s)(f := (files s f)\<lparr>fref := fref (files s f) - 1\<rparr>),
      proc := (proc s)(p := del_area (vmas s) us a (proc s p))\<rparr>)"
proof -
  have z: "v\<lparr>vuse := False, vsize := 0, vofile := None, addrinit := 0, addri := 0, addre := 0,
       voffset := 0, vnext := None, prot := 0, flag := 0\<rparr> = free_vma" for v :: vma
    by (simp add: free_vma_def)
  show ?thesis
    using assms
    by (cases "us = []") (auto simp: freeVma_def lock_runs get_vma_def upd_proc_def upd_vma_def upd_file_def
        deref_def drop_area_def del_area_def z)
qed

lemma vma_list_drop_area:
  assumes inv: "vma_list tab q (us @ a # vs)"
  shows "vma_list (drop_area tab us a) (del_area tab us a q) (us @ vs)"
proof -
  from inv have d: "distinct (us @ a # vs)" by (rule vma_list_distinct)
  let ?f = "\<lambda>i. vnext (tab i)" and ?g = "\<lambda>i. vnext (drop_area tab us a i)"
  have link: "linked ?g (pvmas (del_area tab us a q)) (us @ vs)"
  proof (cases us rule: rev_cases)
    case Nil
    have "linked ?f (vnext (tab a)) vs" using inv Nil by (simp add: vma_list_def)
    then have "linked ?g (vnext (tab a)) vs"
      by (subst segment_cong [of vs ?g ?f]) (use d Nil in \<open>auto simp: drop_area_def\<close>)
    with Nil show ?thesis by (simp add: del_area_def)
  next
    case (snoc ws l)
    with inv have 1: "segment ?f (pvmas q) ws (Some l)" and 2: "linked ?f (vnext (tab a)) vs"
      by (auto simp: vma_list_def segment_append)
    have "segment ?g (pvmas q) ws (Some l)"
      using 1 by (subst segment_cong [of ws ?g ?f]) (use d snoc in \<open>auto simp: drop_area_def\<close>)
    moreover have "linked ?g (vnext (tab a)) vs"
      using 2 by (subst segment_cong [of vs ?g ?f]) (use d snoc in \<open>auto simp: drop_area_def\<close>)
    moreover have "?g l = vnext (tab a)" using d snoc by (auto simp: drop_area_def)
    ultimately show ?thesis using snoc by (auto simp: segment_append del_area_def)
  qed
  have other: "vuse (drop_area tab us a i) = vuse (tab i) \<and> addri (drop_area tab us a i) = addri (tab i) \<and>
      addre (drop_area tab us a i) = addre (tab i)" if "i \<in> set (us @ vs)" for i
    using that d by (auto simp: drop_area_def)
  have "sorted_wrt (\<lambda>i j. addre (tab i) \<le> addri (tab j)) (us @ vs)"
    using inv by (simp add: vma_list_def sorted_wrt_append)
  then have "sorted_wrt (\<lambda>i j. addre (drop_area tab us a i) \<le> addri (drop_area tab us a j)) (us @ vs)"
    by (rule sorted_wrt_mono_rel [rotated]) (use other in metis)
  moreover have "area_ok (drop_area tab us a i)" if "i \<in> set (us @ vs)" for i
  proof -
    from inv that have "area_ok (tab i)" by (auto simp: vma_list_def)
    with other [OF that] show ?thesis by (simp add: area_ok_def)
  qed
  ultimately show ?thesis using link inv by (auto simp: vma_list_def del_area_def)
qed

section \<open>Properties\<close>

text \<open>The page addresses of the area \<open>v\<close>.\<close>

definition area_pages :: "vma \<Rightarrow> u64 list" where
  "area_pages v = map (page_at (addri v)) [0..<unat ((addre v - addri v) div PGSIZE)]"

lemma area_pages_props:
  assumes "area_ok v" and "unat (addre v - addri v) \<le> 2 ^ 30"
  shows "distinct (area_pages v)" and "\<And>va. va \<in> set (area_pages v) \<Longrightarrow> va < MAXVA \<and> page_aligned va"
    and "\<And>vb. PGROUNDDOWN vb \<in> set (area_pages v) \<longleftrightarrow> addri v \<le> vb \<and> vb < addre v"
    and "PGROUNDUP (addre v - addri v) = addre v - addri v"
proof -
  let ?n = "unat ((addre v - addri v) div PGSIZE)"
  from assms have al: "page_aligned (addri v)" "page_aligned (addre v)" and less: "unat (addri v) < unat (addre v)"
    and top: "unat (addre v) < 2 ^ 38"
    using START_TOP(2) by (auto simp: area_ok_def word_less_nat_alt word_le_nat_alt)
  then have len: "unat (addre v - addri v) = unat (addre v) - unat (addri v)"
    by (simp add: unat_sub word_le_nat_alt)
  have d: "4096 dvd unat (addre v - addri v)" using al len by (simp add: page_aligned_def)
  then show "PGROUNDUP (addre v - addri v) = addre v - addri v"
    by (intro PGROUNDUP_aligned) (simp add: page_aligned_def)
  have n: "4096 * ?n = unat (addre v) - unat (addri v)"
    using d len by (simp add: unat_div)
  with assms(2) len have n19: "?n < 2 ^ 19" by simp
  have pg: "page_at (addri v) i = addri v + of_nat (4096 * i)" "unat (page_at (addri v) i) = unat (addri v) + 4096 * i"
    if "i < ?n" for i
    using page_at_eq [OF al(1), of i] that n n19 top by simp_all
  show "distinct (area_pages v)"
    unfolding area_pages_def distinct_map
    by (auto intro!: inj_onI dest!: arg_cong [of _ _ unat] simp: pg(2))
  show "va < MAXVA \<and> page_aligned va" if "va \<in> set (area_pages v)" for va
  proof -
    from that obtain i where i: "i < ?n" "va = page_at (addri v) i" by (auto simp: area_pages_def)
    have "unat va < 2 ^ 38" using pg(2) [OF i(1)] i n top by simp
    with i show ?thesis by (simp add: word_less_nat_alt MAXVA_def page_at_def)
  qed
  show "PGROUNDDOWN vb \<in> set (area_pages v) \<longleftrightarrow> addri v \<le> vb \<and> vb < addre v" for vb
  proof
    assume "PGROUNDDOWN vb \<in> set (area_pages v)"
    then obtain i where i: "i < ?n" "PGROUNDDOWN vb = page_at (addri v) i" by (auto simp: area_pages_def)
    then have "unat (PGROUNDDOWN vb) = unat (addri v) + 4096 * i" using pg(2) by simp
    moreover have "unat (PGROUNDDOWN vb) \<le> unat vb" "unat vb < unat (PGROUNDDOWN vb) + 4096"
      unfolding unat_PGROUNDDOWN_div
      using mult_div_mod_eq [of 4096 "unat vb"] mod_less_divisor [of 4096 "unat vb"] by linarith+
    ultimately show "addri v \<le> vb \<and> vb < addre v"
      using i(1) n by (simp add: word_le_nat_alt word_less_nat_alt)
  next
    assume r: "addri v \<le> vb \<and> vb < addre v"
    define i where "i = (unat vb - unat (addri v)) div 4096"
    obtain k where k: "unat (addri v) = 4096 * k" using al(1) by (auto simp: page_aligned_def)
    from r have b: "unat (addri v) \<le> unat vb" "unat vb < unat (addre v)"
      by (simp_all add: word_le_nat_alt word_less_nat_alt)
    then have "i < ?n" using n by (simp add: i_def div_less_iff_less_mult)
    moreover have "unat (PGROUNDDOWN vb) = unat (addri v) + 4096 * i"
    proof -
      have "(unat vb - 4096 * k) div 4096 = unat vb div 4096 - k" by simp
      moreover have "k \<le> unat vb div 4096" using b(1) k by (simp add: less_eq_div_iff_mult_less_eq)
      ultimately show ?thesis by (simp add: unat_PGROUNDDOWN_div i_def k algebra_simps)
    qed
    ultimately have "PGROUNDDOWN vb = page_at (addri v) i" using pg(2) by (intro word_eqI_unat) simp
    with \<open>i < ?n\<close> show "PGROUNDDOWN vb \<in> set (area_pages v)" by (auto simp: area_pages_def)
  qed
qed

lemma pt_inv_same_kmem:
  assumes "pt_inv s r xs" and "mem t = mem s" "freelist t = freelist s" "runs t = runs s"
    "kernel_end t = kernel_end s" and "kmem_lock \<notin> set (locks t)"
  shows "pt_inv t r xs"
  using assms by (simp add: pt_inv_def free_list_def kernel_above_base_def page_ix_def)

text \<open>The whole call, for a caller that goes on with the pages \<open>ws\<close>.\<close>

lemma munmap_area_run:
  assumes cur: "cur s = Some p" and free: "plock p \<notin> set (locks s)" "vmaslock \<notin> set (locks s)"
    and inv: "vma_list (vmas s) (proc s p) (us @ a # vs)"
    and small: "unat (addre (vmas s a) - addri (vmas s a)) \<le> 2 ^ 30" and vf: "vofile (vmas s a) = Some f"
    and pt: "pagetable (proc s p) = r" "pt_inv s r xs"
    and rdy: "\<forall>va \<in> set (area_pages (vmas s a) @ ws). page_ready s r xs va"
    and rest: "distinct (area_pages (vmas s a) @ ws)" "\<forall>va \<in> set ws. va < MAXVA \<and> page_aligned va"
    and fd: "frames_distinct s r (area_pages (vmas s a) @ ws)"
    and clean: "\<forall>va \<in> set (area_pages (vmas s a)).
      pte_of (mem s) r va AND PTE_D = 0 \<or> flag (vmas s a) \<noteq> uint MAP_SHARED"
  shows "\<exists>t zs. munmap (addri (vmas s a)) (addre (vmas s a) - addri (vmas s a)) s = Ok 0 t \<and>
     vmas t = drop_area (vmas s) us a \<and> vma_list (vmas t) (proc t p) (us @ vs) \<and>
     files t = (files s)(f := (files s f)\<lparr>fref := fref (files s f) - 1\<rparr>) \<and> locks t = locks s \<and>
     pt_inv t r (zs @ xs) \<and>
     (\<forall>vb < MAXVA. pte_of (mem t) r vb =
        (if addri (vmas s a) \<le> vb \<and> vb < addre (vmas s a) \<and> resident s r vb then 0 else pte_of (mem s) r vb)) \<and>
     set (map page_addr zs) = {PTE2PA (pte_of (mem s) r va) | va. va \<in> set (area_pages (vmas s a)) \<and> resident s r va} \<and>
     cur t = cur s \<and> pagetable (proc t p) = r \<and> (\<forall>vb \<in> set ws. page_ready t r (zs @ xs) vb) \<and> frames_distinct t r ws"
proof -
  let ?v = "vmas s a" and ?s = "s\<lparr>locks := plock p # locks s\<rparr>"
  let ?len = "addre ?v - addri ?v"
  have ok: "area_ok ?v" using inv by (simp add: vma_list_def)
  note pages = area_pages_props [OF ok small]
  from ok have less: "addri ?v < addre ?v" by (simp add: area_ok_def)
  have before: "\<forall>i \<in> set us. addre (vmas s i) \<le> addri ?v"
    using inv by (simp add: vma_list_def sorted_wrt_append)
  have ne: "us = [] \<or> last us \<noteq> a" using vma_list_distinct [OF inv] by (cases us rule: rev_cases) auto
  have sum: "addri ?v + ?len = addre ?v" by simp
  have find: "munmap_find (addri ?v) ?len (nat (nvma (proc s p))) None (pvmas (proc s p)) ?s =
      Ok (Some (last_area us, a)) ?s"
    using munmap_find_area [of ?s "pvmas (proc s p)" us a vs "nat (nvma (proc s p))" ?len "[]"]
      inv before less sum by (simp add: vma_list_def)
  have invs: "pt_inv ?s r xs" by (rule pt_inv_same_kmem [OF pt(2)]) (use pt(2) in \<open>simp_all add: pt_inv_def\<close>)
  have "page_ready ?s r xs va = page_ready s r xs va" for va by (simp add: page_ready_def page_ix_def)
  then have all: "\<forall>va \<in> set (area_pages ?v @ ws). va < MAXVA \<and> page_aligned va \<and> page_ready ?s r xs va"
    using pages(2) rest(2) rdy by auto
  have fds: "frames_distinct ?s r (area_pages ?v @ ws)" using fd by (simp add: frames_distinct_def)
  have "\<exists>t zs. munmap_pages p a (addri ?v) False [0..<unat (?len div PGSIZE)] ?s = Ok True t \<and>
     pt_inv t r (zs @ xs) \<and> kmem_frame ?s t \<and>
     (\<forall>vb < MAXVA. pte_of (mem t) r vb =
        (if PGROUNDDOWN vb \<in> set (area_pages ?v) \<and> resident ?s r vb then 0 else pte_of (mem ?s) r vb)) \<and>
     set (map page_addr zs) = {PTE2PA (pte_of (mem ?s) r va) | va. va \<in> set (area_pages ?v) \<and> resident ?s r va} \<and>
     (\<forall>vb \<in> set ws. page_ready t r (zs @ xs) vb) \<and> frames_distinct t r ws"
    by (rule munmap_pages_clean [OF invs _ all rest(1) fds]) (use pt(1) clean in \<open>simp_all add: area_pages_def\<close>)
  then obtain t zs where t: "munmap_pages p a (addri ?v) False [0..<unat (?len div PGSIZE)] ?s = Ok True t"
     "pt_inv t r (zs @ xs)" "kmem_frame ?s t"
     "\<forall>vb < MAXVA. pte_of (mem t) r vb =
        (if addri ?v \<le> vb \<and> vb < addre ?v \<and> resident s r vb then 0 else pte_of (mem s) r vb)"
     "set (map page_addr zs) = {PTE2PA (pte_of (mem s) r va) | va. va \<in> set (area_pages ?v) \<and> resident s r va}"
     "\<forall>vb \<in> set ws. page_ready t r (zs @ xs) vb" "frames_distinct t r ws"
    using pages(3) by auto
  note same = kmem_frame_vstate [OF t(3)] kmem_frameD [OF t(3)]
  have tl: "locks t = plock p # locks s" and tv: "vmas t = vmas s" "proc t = proc s" "files t = files s"
    using same by simp_all
  let ?u = "t\<lparr>vmas := drop_area (vmas s) us a,
      files := (files s)(f := (files s f)\<lparr>fref := fref (files s f) - 1\<rparr>),
      proc := (proc s)(p := del_area (vmas s) us a (proc s p))\<rparr>"
  have frun: "freeVma p (last_area us) a t = Ok () ?u"
    using freeVma_run [of t a f us p] vf ne free tl tv by simp
  have run: "munmap (addri ?v) ?len s = Ok 0 (?u\<lparr>locks := locks s\<rparr>)"
    using cur free find t(1) frun pages(4) tl tv
    by (simp add: munmap_def myproc_def get_proc_def get_vma_def lock_runs sum)
  have "pt_inv (?u\<lparr>locks := locks s\<rparr>) r (zs @ xs)"
    by (rule pt_inv_same_kmem [OF t(2)]) (use pt(2) in \<open>simp_all add: pt_inv_def\<close>)
  moreover have "vma_list (drop_area (vmas s) us a) (del_area (vmas s) us a (proc s p)) (us @ vs)"
    by (rule vma_list_drop_area [OF inv])
  moreover have "\<forall>vb \<in> set ws. page_ready (?u\<lparr>locks := locks s\<rparr>) r (zs @ xs) vb" "frames_distinct (?u\<lparr>locks := locks s\<rparr>) r ws"
    using t(6,7) by (simp_all add: page_ready_def frames_distinct_def page_ix_def)
  ultimately show ?thesis
    using run t(4,5) pt(1) same(4) by - (rule exI [of _ "?u\<lparr>locks := locks s\<rparr>"], rule exI [of _ zs], simp add: del_area_def)
qed

text \<open>
  C2. munmap of a whole area whose resident pages need no write-back (a private area, or a shared
  one with no dirty page) and whose leaf page tables exist: it returns 0, every page of the area is
  unmapped and exactly the frames of its resident pages are added to the free list, every other
  translation is as before, the area leaves the list, which stays well formed, its slot is free
  again, the file loses one reference, and all locks are released.
\<close>

theorem munmap_whole_area:
  assumes cur: "cur s = Some p" and free: "plock p \<notin> set (locks s)" "vmaslock \<notin> set (locks s)"
    and inv: "vma_list (vmas s) (proc s p) (us @ a # vs)"
    and small: "unat (addre (vmas s a) - addri (vmas s a)) \<le> 2 ^ 30" and vf: "vofile (vmas s a) = Some f"
    and pt: "pagetable (proc s p) = r" "pt_inv s r xs"
    and rdy: "\<forall>va \<in> set (area_pages (vmas s a)). page_ready s r xs va"
    and fd: "frames_distinct s r (area_pages (vmas s a))"
    and clean: "\<forall>va \<in> set (area_pages (vmas s a)).
      pte_of (mem s) r va AND PTE_D = 0 \<or> flag (vmas s a) \<noteq> uint MAP_SHARED"
  shows "\<exists>t zs. munmap (addri (vmas s a)) (addre (vmas s a) - addri (vmas s a)) s = Ok 0 t \<and>
     vmas t = drop_area (vmas s) us a \<and> vma_list (vmas t) (proc t p) (us @ vs) \<and>
     files t = (files s)(f := (files s f)\<lparr>fref := fref (files s f) - 1\<rparr>) \<and> locks t = locks s \<and>
     pt_inv t r (zs @ xs) \<and>
     (\<forall>vb < MAXVA. pte_of (mem t) r vb =
        (if addri (vmas s a) \<le> vb \<and> vb < addre (vmas s a) \<and> resident s r vb then 0 else pte_of (mem s) r vb)) \<and>
     set (map page_addr zs) = {PTE2PA (pte_of (mem s) r va) | va. va \<in> set (area_pages (vmas s a)) \<and> resident s r va}"
proof -
  have ok: "area_ok (vmas s a)" using inv by (simp add: vma_list_def)
  show ?thesis
    using munmap_area_run [OF cur free inv small vf pt, of "[]"] rdy fd clean area_pages_props(1) [OF ok small] by auto
qed

text \<open>A process with one private area of one page, which is resident.\<close>

definition one_area :: "kmem \<Rightarrow> vstate" where
  "one_area k = (demo_on k)\<lparr>proc := (\<lambda>i. if i = 0 then demo_proc\<lparr>pagetable := demo_root, pvmas := Some 0, nvma := 1\<rparr>
       else free_proc),
     vmas := (\<lambda>_. free_vma)(0 := \<lparr>vuse = True, vsize = 4096, vofile = Some 0, addrinit = 0x2000000000,
       addri = 0x2000000000, addre = 0x2000001000, voffset = 0, vnext = None, prot = 2, flag = 1\<rparr>)\<rparr>"

lemma one_area_inv: "vma_list (vmas (one_area k)) (proc (one_area k) 0) [0]"
  by (simp add: vma_list_def one_area_def area_ok_def page_aligned_def START_ADDRESS_def TOP_ADDRESS_def)

lemma one_area_pages: "area_pages (vmas (one_area k) 0) = [0x2000000000]"
  by (simp add: area_pages_def one_area_def page_at_def PGROUNDDOWN_def)

lemma one_area_ready:
  obtains k ys where "pt_inv (one_area k) demo_root ys" "resident (one_area k) demo_root 0x2000000000"
    "page_ready (one_area k) demo_root ys 0x2000000000" "pte_of (mem (one_area k)) demo_root 0x2000000000 = demo_pte"
proof -
  have va: "(0x2000000000 :: u64) < MAXVA" by (simp add: MAXVA_def)
  have g: "PGROUNDDOWN (0x2000000000 :: u64) = 0x2000000000" by (simp add: PGROUNDDOWN_def)
  obtain k ys where k: "pt_inv k demo_root ys" "set ys \<subseteq> {530000..<530005}"
    "\<And>vb. vb < MAXVA \<Longrightarrow> pte_of (mem k) demo_root vb = (if PGROUNDDOWN vb = 0x2000000000 then demo_pte else 0)"
    "0x83D60000 \<notin> tables (mem k) demo_root" "run_ref (runs (k :: kmem) 540000) = 1" "page_ix k 540000"
    by (rule demo_mapped_at [OF va g]) (rule that; assumption)
  let ?s = "one_area k"
  have km: "mem ?s = mem k" "freelist ?s = freelist k" "runs ?s = runs k" "kernel_end ?s = kernel_end k"
    "locks ?s = []" "cur ?s = Some 0" "pagetable (proc ?s 0) = demo_root"
    by (simp_all add: one_area_def)
  have inv: "pt_inv ?s demo_root ys" by (rule pt_inv_same_kmem [OF k(1)]) (simp_all add: km)
  have p: "pte_of (mem ?s) demo_root 0x2000000000 = demo_pte" using k(3) [OF va] g km(1) by simp
  have res: "resident ?s demo_root 0x2000000000" unfolding p by (rule demo_pte_bits(1))
  have l0: "l0 (mem ?s) demo_root (PX 2 0x2000000000) (PX 1 0x2000000000) \<noteq> None"
    using res by (auto simp: pte_of_def split: option.splits)
  have "540000 \<notin> set ys" using k(2) by auto
  moreover have "page_addr 540000 = 0x83D60000" by simp
  ultimately have rdy: "page_ready ?s demo_root ys 0x2000000000"
    unfolding page_ready_def p using demo_pte_bits k(4,5,6) l0 km
    by (auto intro!: exI [of _ 540000] simp: page_ix_def)
  show thesis by (rule that [OF inv res rdy p])
qed

theorem munmap_whole_area_witness:
  "\<exists>k t xs zs. resident (one_area k) demo_root 0x2000000000 \<and>
     munmap 0x2000000000 0x1000 (one_area k) = Ok 0 t \<and> vma_list (vmas t) (proc t 0) [] \<and>
     pt_inv t demo_root (zs @ xs) \<and> set (map page_addr zs) = {0x83D60000}"
proof -
  obtain k ys where k: "pt_inv (one_area k) demo_root ys" "resident (one_area k) demo_root 0x2000000000"
    "page_ready (one_area k) demo_root ys 0x2000000000" and p: "pte_of (mem (one_area k)) demo_root 0x2000000000 = demo_pte"
    by (rule one_area_ready)
  let ?s = "one_area k"
  have km: "locks ?s = []" "cur ?s = Some 0" "pagetable (proc ?s 0) = demo_root" by (simp_all add: one_area_def)
  have "\<exists>t zs. munmap (addri (vmas ?s 0)) (addre (vmas ?s 0) - addri (vmas ?s 0)) ?s = Ok 0 t \<and>
     vmas t = drop_area (vmas ?s) [] 0 \<and> vma_list (vmas t) (proc t 0) ([] @ []) \<and>
     files t = (files ?s)(0 := (files ?s 0)\<lparr>fref := fref (files ?s 0) - 1\<rparr>) \<and> locks t = locks ?s \<and>
     pt_inv t demo_root (zs @ ys) \<and>
     (\<forall>vb < MAXVA. pte_of (mem t) demo_root vb =
        (if addri (vmas ?s 0) \<le> vb \<and> vb < addre (vmas ?s 0) \<and> resident ?s demo_root vb then 0
         else pte_of (mem ?s) demo_root vb)) \<and>
     set (map page_addr zs) = {PTE2PA (pte_of (mem ?s) demo_root va) | va.
       va \<in> set (area_pages (vmas ?s 0)) \<and> resident ?s demo_root va}"
  proof (rule munmap_whole_area)
    show "vma_list (vmas ?s) (proc ?s 0) ([] @ 0 # [])" using one_area_inv by simp
    show "frames_distinct ?s demo_root (area_pages (vmas ?s 0))"
      by (simp add: one_area_pages frames_distinct_def)
    show "\<forall>va \<in> set (area_pages (vmas ?s 0)). page_ready ?s demo_root ys va" using k(3) by (simp add: one_area_pages)
  qed (use km k(1) in \<open>simp_all add: one_area_pages\<close>, simp_all add: one_area_def)
  then obtain t zs where "munmap 0x2000000000 0x1000 ?s = Ok 0 t" "vma_list (vmas t) (proc t 0) []"
    "pt_inv t demo_root (zs @ ys)" "set (map page_addr zs) = {0x83D60000}"
    using k(2) demo_pte_bits(4) by (auto simp: one_area_pages p) (auto simp: one_area_def)
  with k(2) show ?thesis by blast
qed

section \<open>The areas of a process that exits\<close>

lemma unmap_all_done: "nvma (proc s p) \<le> 0 \<Longrightarrow> unmap_all p s = Ok () s"
  by (simp add: unmap_all_def while_option_unfold)

lemma unmap_all_step:
  assumes "nvma (proc s p) > 0" and "unmap_first p s = Ok () t" and "unmap_all p t = Ok () u"
  shows "unmap_all p s = Ok () u"
  using assms by (simp add: unmap_all_def while_option_unfold [of _ _ "Ok () s"] split: option.splits)

definition list_pages :: "(nat \<Rightarrow> vma) \<Rightarrow> nat list \<Rightarrow> u64 list" where
  "list_pages tab as = concat (map (\<lambda>a. area_pages (tab a)) as)"

text \<open>An area that \<open>exit\<close> can unmap: at most 1 GB, with a file, no page to write back.\<close>

definition area_clean :: "'z vstate_scheme \<Rightarrow> u64 \<Rightarrow> nat \<Rightarrow> bool" where
  "area_clean s r a \<longleftrightarrow> unat (addre (vmas s a) - addri (vmas s a)) \<le> 2 ^ 30 \<and> vofile (vmas s a) \<noteq> None \<and>
     (\<forall>va \<in> set (area_pages (vmas s a)). pte_of (mem s) r va AND PTE_D = 0 \<or> flag (vmas s a) \<noteq> uint MAP_SHARED)"

lemma list_pages_props:
  assumes "vma_list tab q as" and "\<forall>a \<in> set as. unat (addre (tab a) - addri (tab a)) \<le> 2 ^ 30"
  shows "distinct (list_pages tab as)" and "\<forall>va \<in> set (list_pages tab as). va < MAXVA \<and> page_aligned va"
    and "\<And>vb. PGROUNDDOWN vb \<in> set (list_pages tab as) \<longleftrightarrow> (\<exists>a \<in> set as. addri (tab a) \<le> vb \<and> vb < addre (tab a))"
proof -
  have ok: "area_ok (tab a)" if "a \<in> set as" for a using assms(1) that by (simp add: vma_list_def)
  note pg = area_pages_props [OF ok assms(2) [rule_format]]
  show al: "\<forall>va \<in> set (list_pages tab as). va < MAXVA \<and> page_aligned va" using pg(2) by (auto simp: list_pages_def)
  show "PGROUNDDOWN vb \<in> set (list_pages tab as) \<longleftrightarrow> (\<exists>a \<in> set as. addri (tab a) \<le> vb \<and> vb < addre (tab a))" for vb
    using pg(3) by (auto simp: list_pages_def)
  have "sorted_wrt (\<lambda>i j. addre (tab i) \<le> addri (tab j)) as" using assms(1) by (simp add: vma_list_def)
  then show "distinct (list_pages tab as)" using pg(1,2,3)
  proof (induction as)
    case (Cons a as)
    have "va \<notin> set (area_pages (tab b))" if va: "va \<in> set (area_pages (tab a))" and b: "b \<in> set as" for va b
    proof
      assume vb: "va \<in> set (area_pages (tab b))"
      have "PGROUNDDOWN va = va" using Cons.prems(3) [of a va] va by (simp add: PGROUNDDOWN_aligned)
      then have "va < addre (tab a)" "addri (tab b) \<le> va" using Cons.prems(4) [of a va] Cons.prems(4) [of b va] va vb b by auto
      moreover have "addre (tab a) \<le> addri (tab b)" using Cons.prems(1) b by simp
      ultimately show False by simp
    qed
    moreover have "distinct (list_pages tab as)" by (rule Cons.IH) (use Cons.prems in auto)
    ultimately show ?case using Cons.prems(2) by (auto simp: list_pages_def)
  qed (simp add: list_pages_def)
qed

text \<open>One round of the loop, for a process with the areas \<open>a # as\<close>.\<close>

lemma unmap_first_run:
  assumes cur: "cur s = Some p" "plock p \<notin> set (locks s)" "vmaslock \<notin> set (locks s)"
    and inv: "vma_list (vmas s) (proc s p) (a # as)" and clean: "\<forall>b \<in> set (a # as). area_clean s r b"
    and pt: "pagetable (proc s p) = r" "pt_inv s r xs"
    and rdy: "\<forall>va \<in> set (list_pages (vmas s) (a # as)). page_ready s r xs va"
    and fd: "frames_distinct s r (list_pages (vmas s) (a # as))"
  obtains t zs f where "unmap_first p s = Ok () t" "vofile (vmas s a) = Some f" "vmas t = (vmas s)(a := free_vma)"
    "vma_list (vmas t) (proc t p) as" "files t = (files s)(f := (files s f)\<lparr>fref := fref (files s f) - 1\<rparr>)" "locks t = locks s"
    "pt_inv t r (zs @ xs)" "cur t = Some p" "pagetable (proc t p) = r" "\<forall>b \<in> set as. area_clean t r b"
    "\<forall>vb < MAXVA. pte_of (mem t) r vb =
       (if addri (vmas s a) \<le> vb \<and> vb < addre (vmas s a) \<and> resident s r vb then 0 else pte_of (mem s) r vb)"
    "set (map page_addr zs) = {PTE2PA (pte_of (mem s) r va) | va. va \<in> set (area_pages (vmas s a)) \<and> resident s r va}"
    "\<forall>vb \<in> set (list_pages (vmas s) as). page_ready t r (zs @ xs) vb" "frames_distinct t r (list_pages (vmas s) as)"
    "\<forall>va \<in> set (list_pages (vmas s) as). pte_of (mem t) r va = pte_of (mem s) r va"
proof -
  let ?ws = "list_pages (vmas s) as"
  from clean obtain f where f: "vofile (vmas s a) = Some f" by (auto simp: area_clean_def)
  have small: "\<forall>b \<in> set (a # as). unat (addre (vmas s b) - addri (vmas s b)) \<le> 2 ^ 30"
    using clean by (auto simp: area_clean_def)
  note pages = list_pages_props [OF inv small]
  have split: "list_pages (vmas s) (a # as) = area_pages (vmas s a) @ ?ws" by (simp add: list_pages_def)
  obtain t zs where t: "munmap (addri (vmas s a)) (addre (vmas s a) - addri (vmas s a)) s = Ok 0 t"
     "vmas t = drop_area (vmas s) [] a" "vma_list (vmas t) (proc t p) as"
     "files t = (files s)(f := (files s f)\<lparr>fref := fref (files s f) - 1\<rparr>)" "locks t = locks s" "pt_inv t r (zs @ xs)"
     "\<forall>vb < MAXVA. pte_of (mem t) r vb =
        (if addri (vmas s a) \<le> vb \<and> vb < addre (vmas s a) \<and> resident s r vb then 0 else pte_of (mem s) r vb)"
     "set (map page_addr zs) = {PTE2PA (pte_of (mem s) r va) | va. va \<in> set (area_pages (vmas s a)) \<and> resident s r va}"
     "cur t = cur s" "pagetable (proc t p) = r" "\<forall>vb \<in> set ?ws. page_ready t r (zs @ xs) vb" "frames_distinct t r ?ws"
    using munmap_area_run [OF cur, of "[]" a as f r xs ?ws] inv clean pt rdy fd small f pages(1,2) split
    by (auto simp: area_clean_def)
  have other: "\<forall>b \<in> set as. vmas t b = vmas s b" "vmas t = (vmas s)(a := free_vma)"
    using vma_list_distinct [OF inv] by (auto simp: t(2) drop_area_def)
  have pte: "\<forall>va \<in> set ?ws. pte_of (mem t) r va = pte_of (mem s) r va"
  proof
    fix va assume "va \<in> set ?ws"
    then have "va < MAXVA" "PGROUNDDOWN va = va" "va \<notin> set (area_pages (vmas s a))"
      using pages(1,2) split by (auto simp: PGROUNDDOWN_aligned)
    moreover have "area_ok (vmas s a)" using inv by (simp add: vma_list_def)
    ultimately show "pte_of (mem t) r va = pte_of (mem s) r va" using area_pages_props(3) [of "vmas s a" va] small t(7) by auto
  qed
  have cl: "area_clean t r b" if b: "b \<in> set as" for b
  proof -
    have "\<forall>va \<in> set (area_pages (vmas s b)). pte_of (mem t) r va = pte_of (mem s) r va"
      using pte b by (auto simp: list_pages_def)
    moreover have "area_clean s r b" using clean b by simp
    ultimately show ?thesis using other(1) b by (simp add: area_clean_def)
  qed
  have "pvmas (proc s p) = Some a" using inv by (simp add: vma_list_def)
  then have "unmap_first p s = Ok () t" using t(1) by (simp add: unmap_first_def get_proc_def get_vma_def deref_def)
  then show ?thesis using that f other t(3-12) cl pte cur(1) by auto
qed

text \<open>
  C5. The loop of exit that unmaps areas ends, under these conditions: the list of areas is well formed,
  each area has a file and at most 1 GB and needs no write-back (it is private, or none of its pages
  is dirty); the leaf page table of every page of the areas exists, also where the page is not
  resident (where it is missing munmap faults); and the frames of the resident
  pages are allocated pages with one reference, all different and none of them a page table. Then
  one round per area leaves the process with no area, all its slots free, every file with one
  reference less per area, the pages of all areas unmapped, no other translation changed, and
  exactly the frames of the resident pages added to the free list.
\<close>

theorem exit_unmaps_all:
  assumes "cur s = Some p" and "plock p \<notin> set (locks s)" "vmaslock \<notin> set (locks s)"
    and "vma_list (vmas s) (proc s p) as" and "\<forall>a \<in> set as. area_clean s r a"
    and "pagetable (proc s p) = r" "pt_inv s r xs"
    and "\<forall>va \<in> set (list_pages (vmas s) as). page_ready s r xs va"
    and "frames_distinct s r (list_pages (vmas s) as)"
  shows "\<exists>t zs. unmap_all p s = Ok () t \<and> nvma (proc t p) = 0 \<and> pvmas (proc t p) = None \<and> (\<forall>a. vuse (vmas t a) \<longleftrightarrow> vuse (vmas s a) \<and> a \<notin> set as) \<and>
     locks t = locks s \<and> (\<forall>f. fref (files t f) = fref (files s f) - int (length (filter (\<lambda>a. vofile (vmas s a) = Some f) as))) \<and>
     pt_inv t r (zs @ xs) \<and>
     (\<forall>vb < MAXVA. pte_of (mem t) r vb =
        (if (\<exists>a \<in> set as. addri (vmas s a) \<le> vb \<and> vb < addre (vmas s a)) \<and> resident s r vb then 0 else pte_of (mem s) r vb)) \<and>
     set (map page_addr zs) = {PTE2PA (pte_of (mem s) r va) | va. va \<in> set (list_pages (vmas s) as) \<and> resident s r va}"
  using assms
proof (induction as arbitrary: s xs)
  case Nil
  then show ?case
    by (intro exI [of _ s] exI [of _ "[]"]) (simp add: unmap_all_done vma_list_def list_pages_def)
next
  case (Cons a as)
  let ?ws = "list_pages (vmas s) as"
  obtain t zs f where t: "unmap_first p s = Ok () t" "vofile (vmas s a) = Some f" "vmas t = (vmas s)(a := free_vma)"
    "vma_list (vmas t) (proc t p) as" "files t = (files s)(f := (files s f)\<lparr>fref := fref (files s f) - 1\<rparr>)" "locks t = locks s"
    "pt_inv t r (zs @ xs)" "cur t = Some p" "pagetable (proc t p) = r" "\<forall>b \<in> set as. area_clean t r b"
    "\<forall>vb < MAXVA. pte_of (mem t) r vb =
       (if addri (vmas s a) \<le> vb \<and> vb < addre (vmas s a) \<and> resident s r vb then 0 else pte_of (mem s) r vb)"
    "set (map page_addr zs) = {PTE2PA (pte_of (mem s) r va) | va. va \<in> set (area_pages (vmas s a)) \<and> resident s r va}"
    "\<forall>vb \<in> set ?ws. page_ready t r (zs @ xs) vb" "frames_distinct t r ?ws"
    "\<forall>va \<in> set ?ws. pte_of (mem t) r va = pte_of (mem s) r va"
    by (rule unmap_first_run [OF Cons.prems]) (rule that; assumption)
  have other: "\<forall>b \<in> set as. vmas t b = vmas s b" using vma_list_distinct [OF Cons.prems(4)] t(3) by auto
  have lp: "list_pages (vmas t) as = ?ws" unfolding list_pages_def using other by (metis (no_types, lifting) map_eq_conv)
  obtain u ys where u: "unmap_all p t = Ok () u" "nvma (proc u p) = 0" "pvmas (proc u p) = None" "\<forall>b. vuse (vmas u b) \<longleftrightarrow> vuse (vmas t b) \<and> b \<notin> set as"
     "locks u = locks t" "\<forall>f. fref (files u f) = fref (files t f) - int (length (filter (\<lambda>b. vofile (vmas t b) = Some f) as))"
     "pt_inv u r (ys @ zs @ xs)"
     "\<forall>vb < MAXVA. pte_of (mem u) r vb =
        (if (\<exists>b \<in> set as. addri (vmas t b) \<le> vb \<and> vb < addre (vmas t b)) \<and> resident t r vb then 0 else pte_of (mem t) r vb)"
     "set (map page_addr ys) = {PTE2PA (pte_of (mem t) r va) | va. va \<in> set ?ws \<and> resident t r va}"
    using Cons.IH [OF t(8) _ _ t(4,10,9,7)] Cons.prems(2,3) t(6,13,14) lp by auto
  have "nvma (proc s p) > 0" using Cons.prems(4) by (simp add: vma_list_def)
  then have run: "unmap_all p s = Ok () u" by (rule unmap_all_step [OF _ t(1) u(1)])
  have keep: "filter (\<lambda>b. vofile (vmas t b) = Some g) as = filter (\<lambda>b. vofile (vmas s b) = Some g) as" for g
    using other by (auto intro: filter_cong)
  have refs: "\<forall>g. fref (files u g) = fref (files s g) - int (length (filter (\<lambda>b. vofile (vmas s b) = Some g) (a # as)))"
    using u(6) t(2,5) by (auto simp: keep)
  have free: "\<forall>b. vuse (vmas u b) \<longleftrightarrow> vuse (vmas s b) \<and> b \<notin> set (a # as)" using u(4) t(3) by (auto simp: free_vma_def)
  have ptes: "\<forall>vb < MAXVA. pte_of (mem u) r vb = (if (\<exists>b \<in> set (a # as). addri (vmas s b) \<le> vb \<and> vb < addre (vmas s b)) \<and> resident s r vb then 0
      else pte_of (mem s) r vb)"
    using u(8) t(11) other by auto
  have frames: "set (map page_addr (ys @ zs)) = {PTE2PA (pte_of (mem s) r va) | va. va \<in> set (list_pages (vmas s) (a # as)) \<and> resident s r va}"
  proof -
    have "{PTE2PA (pte_of (mem t) r va) | va. va \<in> set ?ws \<and> resident t r va} = {PTE2PA (pte_of (mem s) r va) | va. va \<in> set ?ws \<and> resident s r va}"
      using t(15) by (metis (no_types, opaque_lifting))
    then show ?thesis using u(9) t(12) by (auto simp: list_pages_def)
  qed
  show ?case using run u(2,3,5,7) t(6) refs free ptes frames by (intro exI [of _ u] exI [of _ "ys @ zs"]) simp
qed

theorem exit_unmaps_all_witness:
  "\<exists>k t xs zs. resident (one_area k) demo_root 0x2000000000 \<and> unmap_all 0 (one_area k) = Ok () t \<and> nvma (proc t 0) = 0 \<and>
     \<not> vuse (vmas t 0) \<and> pt_inv t demo_root (zs @ xs) \<and> set (map page_addr zs) = {0x83D60000}"
proof -
  obtain k ys where k: "pt_inv (one_area k) demo_root ys" "resident (one_area k) demo_root 0x2000000000"
    "page_ready (one_area k) demo_root ys 0x2000000000" and p: "pte_of (mem (one_area k)) demo_root 0x2000000000 = demo_pte"
    by (rule one_area_ready)
  let ?s = "one_area k"
  have km: "locks ?s = []" "cur ?s = Some 0" "pagetable (proc ?s 0) = demo_root" by (simp_all add: one_area_def)
  have clean: "area_clean ?s demo_root 0" by (simp add: area_clean_def one_area_def)
  have lp: "list_pages (vmas ?s) [0] = [0x2000000000]" by (simp add: list_pages_def one_area_pages)
  have fd: "frames_distinct ?s demo_root (list_pages (vmas ?s) [0])" unfolding lp by (simp add: frames_distinct_def)
  have rdy: "\<forall>va \<in> set (list_pages (vmas ?s) [0]). page_ready ?s demo_root ys va" unfolding lp using k(3) by simp
  have held: "plock 0 \<notin> set (locks ?s)" "vmaslock \<notin> set (locks ?s)" and cl: "\<forall>a \<in> set [0]. area_clean ?s demo_root a"
    using km(1) clean by simp_all
  obtain t zs where t: "unmap_all 0 ?s = Ok () t" "nvma (proc t 0) = 0" "\<forall>a. vuse (vmas t a) \<longleftrightarrow> vuse (vmas ?s a) \<and> a \<notin> set [0]"
     "pt_inv t demo_root (zs @ ys)"
     "set (map page_addr zs) = {PTE2PA (pte_of (mem ?s) demo_root va) | va. va \<in> set (list_pages (vmas ?s) [0]) \<and> resident ?s demo_root va}"
    using exit_unmaps_all [OF km(2) held one_area_inv cl km(3) k(1) rdy fd] by blast
  have "set (map page_addr zs) = {0x83D60000}" using t(5) k(2) p demo_pte_bits(4) unfolding lp by simp
  then show ?thesis using k(2) t(1-4) by (intro exI [of _ k] exI [of _ t] exI [of _ ys] exI [of _ zs]) simp
qed

section \<open>Failures\<close>

lemma while_option_stuck:
  assumes "b s" and "c s = s"
  shows "while_option b c s = None"
proof (cases "while_option b c s")
  case (Some t)
  from while_option_stop2 [OF this] obtain k where k: "t = (c ^^ k) s" "\<not> b t" by blast
  have "(c ^^ k) s = s" by (induction k) (simp_all add: assms(2))
  with k assms(1) show ?thesis by simp
qed

text \<open>What a first mapping of a process with no areas needs, and the state it gives.\<close>

lemma first_mmap:
  assumes "cur s = Some p" and "plock p \<notin> set (locks s)" and "vmaslock \<notin> set (locks s)"
    and "vma_list (vmas s) (proc s p) []"
    and "0 \<le> fd" and "nat fd < length (ofile (proc s p))" and "ofile (proc s p) ! nat fd = Some f"
    and "fl = uint MAP_SHARED \<longrightarrow> readable (files s f) = 1 \<and> writable (files s f) = 1"
    and "find_free_vma (vmas s) = Some n" and "START_ADDRESS + PGROUNDUP ln \<le> TOP_ADDRESS"
  shows "mmap ln pr fl fd s = Ok START_ADDRESS (mmap_state ln pr fl p f n [] [] s)"
proof -
  have "place (vmas s) (PGROUNDUP ln) [] [] = Some ([], [])"
    using assms(10) by (simp add: fits_def area_base_def area_limit_def)
  then show ?thesis
    using assms mmap_run [where s = s and p = p and xs = "[]" and f = f and n = n and fl = fl and fd = fd
        and ln = ln and pr = pr] by (simp add: area_base_def)
qed

text \<open>
  C37. munmap reads the page-table entry that walk returns without checking it: unmapping an area of
  which no page was ever touched, while the process has no page table for that part of the address
  space, dereferences the null pointer in the kernel.
\<close>

theorem munmap_untouched_faults:
  assumes "cur s = Some p" and "plock p \<notin> set (locks s)" and "vmaslock \<notin> set (locks s)"
    and "vma_list (vmas s) (proc s p) []"
    and "0 \<le> fd" and "nat fd < length (ofile (proc s p))" and "ofile (proc s p) ! nat fd = Some f"
    and "fl = uint MAP_SHARED \<longrightarrow> readable (files s f) = 1 \<and> writable (files s f) = 1"
    and "find_free_vma (vmas s) = Some n" and "0 < ln" and "unat ln \<le> 2 ^ 36"
    and "pt_wf (mem s) (pagetable (proc s p))"
    and "ent (mem s) (pagetable (proc s p)) (PX 2 START_ADDRESS) = None"
  shows "\<exists>t u. mmap ln pr fl fd s = Ok START_ADDRESS t \<and> munmap START_ADDRESS ln t = Halt (Fault 0) u"
proof -
  let ?t = "mmap_state ln pr fl p f n [] [] s" and ?r = "pagetable (proc s p)"
  let ?u = "?t\<lparr>locks := plock p # locks s\<rparr>"
  from assms(11) have "ln \<le> MAXVA" by (simp add: word_le_nat_alt MAXVA_def)
  note b = PGROUNDUP_bounds [OF assms(10) this]
  have sz: "unat (PGROUNDUP ln) \<le> 2 ^ 36 + 4096"
  proof -
    have "unat (PGROUNDUP ln) = (unat ln + 4095) div 4096 * 4096" using assms(11) by (simp add: unat_PGROUNDUP)
    also have "\<dots> \<le> unat ln + 4095" by simp
    finally show ?thesis using assms(11) by simp
  qed
  have sum: "unat (START_ADDRESS + PGROUNDUP ln) = 2 ^ 37 + unat (PGROUNDUP ln)"
    using sz START_TOP(1) by (simp add: unat_plus_if')
  have suml: "unat (START_ADDRESS + ln) = 2 ^ 37 + unat ln"
    using assms(11) START_TOP(1) by (simp add: unat_plus_if')
  have fit: "START_ADDRESS + PGROUNDUP ln \<le> TOP_ADDRESS"
    using sum sz by (simp add: word_le_nat_alt TOP_ADDRESS_def)
  have run: "mmap ln pr fl fd s = Ok START_ADDRESS ?t"
    by (rule first_mmap) (use assms fit in auto)
  have t: "vmas ?t n = \<lparr>vuse = True, vsize = ln, vofile = Some f, addrinit = START_ADDRESS,
      addri = START_ADDRESS, addre = START_ADDRESS + PGROUNDUP ln, voffset = 0, vnext = None, prot = pr,
      flag = fl\<rparr>" "proc ?t p = (proc s p)\<lparr>pvmas := Some n, nvma := 1\<rparr>" "mem ?t = mem s" "cur ?t = Some p"
      "locks ?t = locks s"
    using assms(1,4) by (simp_all add: mmap_state_def Let_def area_base_def add_area_def vma_list_def)
  have "0 < unat (PGROUNDUP ln div PGSIZE)"
    using b(1,2) by (auto simp: unat_div page_aligned_def word_less_nat_alt div_greater_zero_iff dvd_imp_le)
  then obtain js where js: "[0..<unat (PGROUNDUP ln div PGSIZE)] = 0 # js" by (auto simp: upt_rec)
  have pg: "page_at START_ADDRESS 0 = START_ADDRESS"
    using START_TOP(3) by (simp add: page_at_def PGROUNDDOWN_aligned)
  have "START_ADDRESS < MAXVA" by (simp add: START_ADDRESS_def MAXVA_def)
  then have "walk ?r START_ADDRESS False ?u = Ok 0 ?u"
    using walk_lookup [of ?u ?r START_ADDRESS] assms(12,13) t(3) by (simp add: slot_of_def l0_def)
  moreover have "kload64 0 ?u = Halt (Fault 0) ?u"
    by (simp add: kload64_def kmapped_range_def kmapped_def KERNBASE_def)
  ultimately have pages: "munmap_pages p n START_ADDRESS False [0..<unat (PGROUNDUP ln div PGSIZE)] ?u =
      Halt (Fault 0) ?u"
    unfolding js using t(2) pg by (simp add: get_proc_def)
  have find: "munmap_find START_ADDRESS ln 1 None (Some n) ?u = Ok (Some (None, n)) ?u"
    using t(1) b(4) sum suml START_TOP(1) assms(10)
    by (simp add: deref_def get_vma_def word_le_nat_alt word_less_nat_alt)
  have "munmap START_ADDRESS ln ?t = Halt (Fault 0) ?u"
    using t find pages assms(2) by (simp add: munmap_def myproc_def get_proc_def lock_runs)
  with run show ?thesis by blast
qed

theorem munmap_untouched_faults_witness:
  "\<exists>t u. mmap 5000 2 1 0 ((demo_on boot_kmem)\<lparr>proc := (\<lambda>_. demo_proc\<lparr>pagetable := demo_root\<rparr>)\<rparr>) = Ok 0x2000000000 t \<and>
     munmap 0x2000000000 5000 t = Halt (Fault 0) u"
proof -
  let ?s = "(demo_on boot_kmem)\<lparr>proc := (\<lambda>_. demo_proc\<lparr>pagetable := demo_root\<rparr>)\<rparr>"
  have m: "mem ?s = (\<lambda>_. 0)" by (simp add: boot_kmem_def)
  have e: "ent (\<lambda>_. 0) demo_root i = None" for i
    using load64_zero [of "\<lambda>_. 0"] by (simp add: ent_def)
  have "find_free_vma (\<lambda>_. free_vma) = Some 0" by (simp add: find_free_vma_def upt_rec)
  then show ?thesis
    using munmap_untouched_faults [of ?s 0 0 0 1 0 5000 2] empty_tree(1) [OF demo_root_ram] e m
    by (simp add: vma_list_def START_ADDRESS_def)
qed

text \<open>
  C38. mmap accepts the length 0 (and lengths that round up to 0) and makes an area without any
  address. No call of munmap can remove it, and exit, which unmaps areas until none is left, never
  ends for this process.
\<close>

theorem empty_area_blocks_exit:
  assumes "cur s = Some p" and "plock p \<notin> set (locks s)" and "vmaslock \<notin> set (locks s)"
    and "vma_list (vmas s) (proc s p) []"
    and "0 \<le> fd" and "nat fd < length (ofile (proc s p))" and "ofile (proc s p) ! nat fd = Some f"
    and "fl = uint MAP_SHARED \<longrightarrow> readable (files s f) = 1 \<and> writable (files s f) = 1"
    and "find_free_vma (vmas s) = Some n" and "PGROUNDUP ln = 0"
  shows "\<exists>t. mmap ln pr fl fd s = Ok START_ADDRESS t \<and> nvma (proc t p) = 1 \<and>
     munmap a len t = Ok (- 1) t \<and> unmap_all p t = Halt (Blocked ''exit'') t"
proof -
  let ?t = "mmap_state ln pr fl p f n [] [] s"
  have run: "mmap ln pr fl fd s = Ok START_ADDRESS ?t"
    by (rule first_mmap) (use assms START_TOP(4) in auto)
  have t: "addri (vmas ?t n) = START_ADDRESS" "addre (vmas ?t n) = START_ADDRESS"
      "pvmas (proc ?t p) = Some n" "nvma (proc ?t p) = 1" "cur ?t = Some p" "locks ?t = locks s"
    using assms(1,4,10) by (simp_all add: mmap_state_def Let_def area_base_def add_area_def vma_list_def)
  let ?u = "?t\<lparr>locks := plock p # locks s\<rparr>"
  have "munmap_find a len 1 None (Some n) ?u = Ok None ?u" for a len
    using t(1,2) by (auto simp: deref_def get_vma_def)
  moreover have "?t\<lparr>locks := locks s\<rparr> = ?t" by (simp flip: t(6))
  ultimately have un: "munmap a len ?t = Ok (- 1) ?t" for a len
    using t assms(2) by (simp add: munmap_def myproc_def get_proc_def lock_runs)
  have "unmap_first p ?t = Ok () ?t"
    using t un by (simp add: unmap_first_def get_proc_def get_vma_def deref_def)
  then have "unmap_all p ?t = Halt (Blocked ''exit'') ?t"
    unfolding unmap_all_def using t(4) by (subst while_option_stuck) simp_all
  with run un t(4) show ?thesis by blast
qed

theorem empty_area_blocks_exit_witness:
  "\<exists>t. mmap 0 2 1 0 (demo_on boot_kmem) = Ok 0x2000000000 t \<and> munmap 0x2000000000 0 t = Ok (- 1) t \<and>
     unmap_all 0 t = Halt (Blocked ''exit'') t"
proof -
  have "find_free_vma (\<lambda>_. free_vma) = Some 0" by (simp add: find_free_vma_def upt_rec)
  then show ?thesis
    using empty_area_blocks_exit [of "demo_on boot_kmem" 0 0 0 1 0 0 2 "0x2000000000" 0]
    by (simp add: vma_list_def START_ADDRESS_def PGROUNDUP_def) blast
qed

end
