(* ===== verification/Fork_Spec.thy ===== *)
theory Fork_Spec
  imports Vma_Spec
begin

text \<open>
  The copy of the mapped areas that \<open>fork\<close> makes for the child: with enough free slots it is a
  list of the same length with the same bounds, files and permissions in fresh slots, and every
  file gets one reference per copied area.
\<close>

section \<open>Free slots in search order\<close>

definition free_slots :: "nat \<Rightarrow> (nat \<Rightarrow> vma) \<Rightarrow> nat list" where
  "free_slots c tab = filter (\<lambda>d. \<not> vuse (tab d)) [c..<VMAS_STORED]"

lemma free_slots_Cons:
  assumes "free_slots c tab = d # ds"
  shows "fork_scan c tab = SlotFound d" and "free_slots (Suc d) tab = ds" and "d < VMAS_STORED" and "\<not> vuse (tab d)"
proof -
  from assms obtain us vs where split: "[c..<VMAS_STORED] = us @ d # vs" "\<forall>u \<in> set us. vuse (tab u)"
      "\<not> vuse (tab d)" "ds = filter (\<lambda>d. \<not> vuse (tab d)) vs"
    by (auto simp: free_slots_def filter_eq_Cons_iff)
  have "d \<in> set [c..<VMAS_STORED]" unfolding split(1) by simp
  then have d: "c \<le> d" "d < VMAS_STORED" by simp_all
  have "find (\<lambda>d. \<not> vuse (tab d)) [c..<VMAS_STORED] = Some d"
    unfolding split(1) using split(2,3) by (induction us) auto
  with d show "fork_scan c tab = SlotFound d" by (simp add: fork_scan_def)
  from d have "[c..<VMAS_STORED] = [c..<d] @ d # [Suc d..<VMAS_STORED]"
    using upt_add_eq_append [of c d "VMAS_STORED - d"] upt_conv_Cons [of d VMAS_STORED] by simp
  then have "us @ d # vs = [c..<d] @ d # [Suc d..<VMAS_STORED]" using split(1) by simp
  then have "vs = [Suc d..<VMAS_STORED]"
    using append_Cons_eq_iff [of d "[c..<d]" "[Suc d..<VMAS_STORED]" us vs] by simp
  with split(4) show "free_slots (Suc d) tab = ds" by (simp add: free_slots_def)
  show "d < VMAS_STORED" "\<not> vuse (tab d)" using d split(3) by auto
qed

section \<open>The copy loop\<close>

definition copied :: "vma \<Rightarrow> nat option \<Rightarrow> vma" where
  "copied v nx = v\<lparr>vuse := True, vnext := nx\<rparr>"

definition add_refs :: "(nat \<Rightarrow> vma) \<Rightarrow> nat list \<Rightarrow> (nat \<Rightarrow> file_struct) \<Rightarrow> nat \<Rightarrow> file_struct" where
  "add_refs tab xs fs = (\<lambda>f. (fs f)\<lparr>fref := fref (fs f) + int (count_list (map (\<lambda>x. vofile (tab x)) xs) (Some f))\<rparr>)"

primrec copy_areas :: "(nat \<Rightarrow> vma) \<Rightarrow> nat list \<Rightarrow> nat list \<Rightarrow> nat option \<Rightarrow> (nat \<Rightarrow> vma) \<Rightarrow> (nat \<Rightarrow> vma)" where
  "copy_areas src [] ys pindex tab = tab"
| "copy_areas src (x # xs) ys pindex tab =
     copy_areas src xs (tl ys) (Some (hd ys))
       ((case pindex of None \<Rightarrow> tab | Some k \<Rightarrow> tab(k := (tab k)\<lparr>vnext := Some (hd ys)\<rparr>))
        (hd ys := copied (src x) None))"

lemma add_refs_Cons: "add_refs tab xs (add_refs tab [x] fs) = add_refs tab (x # xs) fs"
  by (auto simp: add_refs_def)

lemma add_refs_one: "vofile (tab x) = Some f \<Longrightarrow> add_refs tab [x] fs = fs(f := (fs f)\<lparr>fref := fref (fs f) + 1\<rparr>)"
  by (auto simp: add_refs_def fun_eq_iff)

lemma copied_eq:
  "vofile w = ofl \<Longrightarrow> v\<lparr>vuse := True, vsize := vsize w, vofile := ofl, addrinit := addrinit w, addri := addri w,
     addre := addre w, voffset := voffset w, vnext := nx, prot := prot w, flag := flag w\<rparr> = copied w nx"
  by (rule vma_eqI) (simp_all add: copied_def)

lemma fork_vmas_run:
  assumes "linked (\<lambda>i. vnext (vmas s i)) act xs" and "ys = take (length xs) (free_slots c (vmas s))"
    and "length ys = length xs" and "\<forall>x \<in> set xs. vuse (vmas s x) \<and> vofile (vmas s x) \<noteq> None"
    and "i = 0 \<longleftrightarrow> pindex = None" and "\<forall>k. pindex = Some k \<longrightarrow> vuse (vmas s k) \<and> k \<notin> set xs"
    and "\<forall>x \<in> set xs. vmas s x = src x"
  shows "fork_vmas np i c pindex act (length xs) s = Ok True
    (s\<lparr>vmas := copy_areas src xs ys pindex (vmas s), files := add_refs src xs (files s),
       proc := (if i = 0 \<and> xs \<noteq> [] then (proc s)(np := (proc s np)\<lparr>pvmas := Some (hd ys)\<rparr>) else proc s)\<rparr>)"
  using assms
proof (induction xs arbitrary: s i c pindex act ys)
  case Nil
  then show ?case by (simp add: add_refs_def)
next
  case (Cons x xs)
  then obtain d ds where fs: "free_slots c (vmas s) = d # ds" by (cases "free_slots c (vmas s)") auto
  note d = free_slots_Cons [OF fs]
  from Cons.prems(2) fs have ys: "ys = d # take (length xs) ds" by simp
  from Cons.prems(1) have act: "act = Some x" and rest: "linked (\<lambda>i. vnext (vmas s i)) (vnext (vmas s x)) xs"
    by simp_all
  from Cons.prems(4) obtain f where f: "vofile (vmas s x) = Some f" "vuse (vmas s x)" by auto
  have dx: "d \<noteq> x" "d \<notin> set xs" using d(4) Cons.prems(4) by auto
  have dk: "pindex \<noteq> Some d" using d(4) Cons.prems(6) by auto
  let ?tab = "(case pindex of None \<Rightarrow> vmas s | Some k \<Rightarrow> (vmas s)(k := (vmas s k)\<lparr>vnext := Some d\<rparr>))(d := copied (src x) None)"
  let ?s = "s\<lparr>vmas := ?tab, files := add_refs src [x] (files s),
      proc := (if i = 0 then (proc s)(np := (proc s np)\<lparr>pvmas := Some d\<rparr>) else proc s)\<rparr>"
  have x: "vmas ?s x = vmas s x" "\<And>z. z \<in> set xs \<Longrightarrow> vmas ?s z = vmas s z"
    using dx Cons.prems(6) by (auto split: option.splits)
  have order: "s\<lparr>proc := a, vmas := b, files := e\<rparr> = s\<lparr>vmas := b, files := e, proc := a\<rparr>" for a b e
    by simp
  have step: "fork_vmas np i c pindex act (length (x # xs)) s =
      fork_vmas np (Suc i) (Suc d) (Some d) (vnext (vmas s x)) (length xs) ?s"
  proof (cases pindex)
    case None
    with Cons.prems(5,7) act d(1) f dx show ?thesis
      by (simp add: upd_proc_def upd_vma_def get_vma_def deref_def upd_file_def copied_eq add_refs_one order)
  next
    case (Some k)
    with Cons.prems(5,6,7) act d(1) f dx dk show ?thesis
      by (simp add: upd_proc_def upd_vma_def get_vma_def deref_def upd_file_def copied_eq add_refs_one order)
  qed
  have "fork_vmas np (Suc i) (Suc d) (Some d) (vnext (vmas s x)) (length xs) ?s = Ok True
    (?s\<lparr>vmas := copy_areas src xs (take (length xs) ds) (Some d) (vmas ?s), files := add_refs src xs (files ?s),
       proc := (if Suc i = 0 \<and> xs \<noteq> [] then (proc ?s)(np := (proc ?s np)\<lparr>pvmas := Some (hd (take (length xs) ds))\<rparr>)
         else proc ?s)\<rparr>)"
  proof (rule Cons.IH)
    show "linked (\<lambda>i. vnext (vmas ?s i)) (vnext (vmas s x)) xs"
      using rest x(2) by (subst segment_cong [of xs _ "\<lambda>i. vnext (vmas s i)"]) auto
    have "vuse (vmas ?s z) = vuse (vmas s z)" if "Suc d \<le> z" for z
      using that by (auto split: option.splits)
    then have "free_slots (Suc d) (vmas ?s) = free_slots (Suc d) (vmas s)"
      unfolding free_slots_def by (intro filter_cong) auto
    then show "take (length xs) ds = take (length xs) (free_slots (Suc d) (vmas ?s))" using d(2) by simp
    show "length (take (length xs) ds) = length xs" using Cons.prems(3) ys by simp
  qed (use Cons.prems(4,7) x(2) dx in \<open>auto simp: copied_def\<close>)
  then show ?case unfolding step ys by (simp add: add_refs_Cons cong: option.case_cong)
qed

lemma copy_areas_other:
  "length ys = length xs \<Longrightarrow> d \<notin> set ys \<Longrightarrow> pindex \<noteq> Some d \<Longrightarrow> copy_areas src xs ys pindex tab d = tab d"
proof (induction xs arbitrary: ys pindex tab)
  case (Cons x xs)
  then obtain y zs where "ys = y # zs" by (cases ys) auto
  with Cons show ?case by (auto split: option.splits)
qed simp

lemma copy_areas_linked:
  "length ys = length xs \<Longrightarrow> k \<notin> set ys \<Longrightarrow>
     copy_areas src xs ys (Some k) tab k = (if xs = [] then tab k else (tab k)\<lparr>vnext := Some (hd ys)\<rparr>)"
proof (cases xs)
  case (Cons x zs)
  moreover assume "length ys = length xs" "k \<notin> set ys"
  ultimately obtain y ws where "ys = y # ws" "length ws = length zs" "k \<notin> set ws" "y \<noteq> k" by (cases ys) auto
  with Cons show ?thesis by (simp add: copy_areas_other)
qed simp

lemma copy_areas_nth:
  "length ys = length xs \<Longrightarrow> distinct ys \<Longrightarrow> j < length xs \<Longrightarrow>
     copy_areas src xs ys pindex tab (ys ! j) =
       copied (src (xs ! j)) (if Suc j < length xs then Some (ys ! Suc j) else None)"
proof (induction xs arbitrary: ys pindex tab j)
  case (Cons x xs)
  then obtain y zs where ys: "ys = y # zs" "length zs = length xs" "y \<notin> set zs" "distinct zs" by (cases ys) auto
  show ?case
  proof (cases j)
    case 0
    have "copy_areas src xs zs (Some y) tab' y = (if xs = [] then tab' y else (tab' y)\<lparr>vnext := Some (hd zs)\<rparr>)" for tab'
      using ys by (intro copy_areas_linked) auto
    note start = this
    have "zs ! 0 = hd zs" if "xs \<noteq> []" using that ys by (cases zs) auto
    with 0 ys show ?thesis by (simp add: start copied_def)
  next
    case (Suc i)
    with Cons.prems ys Cons.IH [of zs i "Some y"] show ?thesis by simp
  qed
qed simp

lemma linked_nthI:
  assumes "\<And>j. j < length ys \<Longrightarrow> nx (ys ! j) = (if Suc j < length ys then Some (ys ! Suc j) else None)"
  shows "linked nx (if ys = [] then None else Some (hd ys)) ys"
  using assms
proof (induction ys)
  case (Cons y ys)
  have "linked nx (if ys = [] then None else Some (hd ys)) ys"
    by (rule Cons.IH) (use Cons.prems [of "Suc _"] in auto)
  moreover have "nx y = (if ys = [] then None else Some (hd ys))"
    using Cons.prems [of 0] by (cases ys) auto
  ultimately show ?case by simp
qed simp

section \<open>Properties\<close>

text \<open>
  C3. fork, when the global array has as many free slots as the parent has areas: the child gets a
  well-formed list of the same length in the first free slots; the k-th area of the child has the
  bounds, file, protection and flag of the k-th area of the parent; the parent's areas and all
  other slots are unchanged, and every file has one more reference for each area that maps it.
\<close>

theorem fork_copies_areas:
  assumes inv: "vma_list (vmas s) (proc s p) xs" and nv: "nvma (proc s np) = int (length xs)"
    and files: "\<forall>x \<in> set xs. vofile (vmas s x) \<noteq> None" and free: "length xs \<le> length (free_slots 0 (vmas s))"
    and none: "xs = [] \<longrightarrow> pvmas (proc s np) = None"
  shows "\<exists>t ys. fork_vmas np 0 0 None (pvmas (proc s p)) (nat (nvma (proc s p))) s = Ok True t \<and>
     vma_list (vmas t) (proc t np) ys \<and> length ys = length xs \<and> set ys \<inter> set xs = {} \<and>
     (\<forall>k < length xs. vmas t (ys ! k) = (vmas s (xs ! k))\<lparr>vnext := vnext (vmas t (ys ! k))\<rparr>) \<and>
     (\<forall>d. d \<notin> set ys \<longrightarrow> vmas t d = vmas s d) \<and> files t = add_refs (vmas s) xs (files s) \<and> locks t = locks s"
proof -
  let ?tab = "vmas s"
  define ys where "ys = take (length xs) (free_slots 0 ?tab)"
  have len: "length ys = length xs" using free by (simp add: ys_def)
  have sub: "\<And>y. y \<in> set ys \<Longrightarrow> y < VMAS_STORED \<and> \<not> vuse (?tab y)"
    unfolding ys_def free_slots_def by (auto dest!: in_set_takeD)
  have dist: "distinct ys" by (simp add: ys_def free_slots_def)
  have used: "\<forall>x \<in> set xs. vuse (?tab x)" using inv by (auto simp: vma_list_def area_ok_def)
  have nat_nv: "nat (nvma (proc s p)) = length xs" using inv by (simp add: vma_list_def)
  let ?t = "s\<lparr>vmas := copy_areas ?tab xs ys None ?tab, files := add_refs ?tab xs (files s),
       proc := (if xs \<noteq> [] then (proc s)(np := (proc s np)\<lparr>pvmas := Some (hd ys)\<rparr>) else proc s)\<rparr>"
  have run: "fork_vmas np 0 0 None (pvmas (proc s p)) (length xs) s = Ok True ?t"
    using fork_vmas_run [of s "pvmas (proc s p)" xs ys 0 0 None ?tab np] inv len files used
    by (simp add: ys_def vma_list_def)
  have nth: "vmas ?t (ys ! k) = copied (?tab (xs ! k)) (if Suc k < length xs then Some (ys ! Suc k) else None)"
    if "k < length xs" for k
    using copy_areas_nth [OF len dist that] by simp
  have other: "vmas ?t d = ?tab d" if "d \<notin> set ys" for d
    using copy_areas_other [OF len that] by simp
  have bounds: "vuse (vmas ?t (ys ! k))" "addri (vmas ?t (ys ! k)) = addri (?tab (xs ! k))"
      "addre (vmas ?t (ys ! k)) = addre (?tab (xs ! k))" if "k < length xs" for k
    using nth [OF that] by (simp_all add: copied_def)
  have "linked (\<lambda>i. vnext (vmas ?t i)) (if ys = [] then None else Some (hd ys)) ys"
    by (rule linked_nthI) (use nth len in \<open>auto simp: copied_def\<close>)
  moreover have "pvmas (proc ?t np) = (if ys = [] then None else Some (hd ys))" using none len by auto
  moreover have "area_ok (vmas ?t y)" if "y \<in> set ys" for y
  proof -
    from that obtain k where k: "k < length xs" "y = ys ! k" using len by (metis in_set_conv_nth)
    have "area_ok (?tab (xs ! k))" using inv k(1) by (simp add: vma_list_def)
    with bounds [OF k(1)] k(2) show ?thesis by (simp add: area_ok_def)
  qed
  moreover have "sorted_wrt (\<lambda>i j. addre (vmas ?t i) \<le> addri (vmas ?t j)) ys"
    using inv bounds len by (simp add: vma_list_def sorted_wrt_iff_nth_less)
  ultimately have list: "vma_list (vmas ?t) (proc ?t np) ys"
    using nv len sub by (auto simp: vma_list_def)
  have "vmas ?t (ys ! k) = (?tab (xs ! k))\<lparr>vnext := vnext (vmas ?t (ys ! k))\<rparr>" if "k < length xs" for k
    unfolding nth [OF that] using used that by (intro vma_eqI) (simp_all add: copied_def)
  moreover have "set ys \<inter> set xs = {}" using sub used by auto
  ultimately show ?thesis
    unfolding nat_nv using run list len other
    by - (rule exI [of _ ?t], rule exI [of _ ys], intro conjI; simp)
qed

theorem fork_copies_areas_witness:
  "\<exists>s t ys. vma_list (vmas s) (proc s 0) [0] \<and>
     fork_vmas 1 0 0 None (pvmas (proc s 0)) (nat (nvma (proc s 0))) (s :: vstate) = Ok True t \<and>
     vma_list (vmas t) (proc t 1) ys \<and> length ys = 1 \<and> addri (vmas t (ys ! 0)) = START_ADDRESS \<and>
     vofile (vmas t (ys ! 0)) = Some 0 \<and> fref (files t 0) = 2"
proof -
  obtain k :: kmem where True by simp
  let ?a = "\<lparr>vuse = True, vsize = 4096, vofile = Some 0, addrinit = START_ADDRESS,
       addri = START_ADDRESS, addre = START_ADDRESS + PGSIZE, voffset = 0, vnext = None, prot = 2, flag = 1\<rparr>"
  let ?s = "(demo_on k)\<lparr>proc := (\<lambda>i. if i = 0 then demo_proc\<lparr>pvmas := Some 0, nvma := 1\<rparr> else free_proc\<lparr>nvma := 1\<rparr>),
     vmas := (\<lambda>_. free_vma)(0 := ?a)\<rparr>"
  have inv: "vma_list (vmas ?s) (proc ?s 0) [0]"
    by (simp add: vma_list_def area_ok_def page_aligned_def START_ADDRESS_def TOP_ADDRESS_def)
  have free: "length (free_slots 0 (vmas ?s)) = 29" by (simp add: free_slots_def upt_rec)
  have ref: "fref (files ?s 0) = 1" by (simp add: demo_on_def demo_file_def)
  from fork_copies_areas [where s = ?s and p = 0 and np = 1 and xs = "[0]"] inv free
  obtain t ys where run: "fork_vmas 1 0 0 None (pvmas (proc ?s 0)) (nat (nvma (proc ?s 0))) ?s = Ok True t"
    and rest: "vma_list (vmas t) (proc t 1) ys" "length ys = 1" "vmas t (ys ! 0) = ?a\<lparr>vnext := vnext (vmas t (ys ! 0))\<rparr>"
      "files t = add_refs (vmas ?s) [0] (files ?s)"
    by auto
  have "addri (vmas t (ys ! 0)) = START_ADDRESS" "vofile (vmas t (ys ! 0)) = Some 0"
    by (subst rest(3), simp)+
  moreover have "fref (files t 0) = 2" using ref by (simp add: rest(4) add_refs_def)
  ultimately show ?thesis using run rest(1,2) inv by blast
qed

lemma fork_vmas_passed:
  "linked (\<lambda>i. vnext (vmas s i)) act xs \<Longrightarrow> VMAS_STORED \<le> c \<Longrightarrow> set xs \<subseteq> {..<VMAS_STORED} \<Longrightarrow>
     fork_vmas np i c pindex act (length xs) s = Ok True s"
proof (induction xs arbitrary: i c act)
  case (Cons x xs)
  then show ?case by (auto simp: fork_scan_def deref_def get_vma_def)
qed simp

text \<open>
  C40. When the last slot of the global array is the only free one, a parent with two or more
  areas forks successfully, but the child's list holds only the first area while its count of
  areas is the parent's: the well-formedness of the child's list is lost.
\<close>

theorem fork_truncates_areas:
  assumes inv: "vma_list (vmas s) (proc s p) xs" and nv: "nvma (proc s np) = int (length xs)"
    and files: "vofile (vmas s (hd xs)) \<noteq> None" and free: "free_slots 0 (vmas s) = [VMAS_STORED - 1]"
    and two: "2 \<le> length xs"
  shows "\<exists>t. fork_vmas np 0 0 None (pvmas (proc s p)) (nat (nvma (proc s p))) s = Ok True t \<and>
     linked (\<lambda>i. vnext (vmas t i)) (pvmas (proc t np)) [VMAS_STORED - 1] \<and> nvma (proc t np) = int (length xs) \<and>
     (\<nexists>ys. vma_list (vmas t) (proc t np) ys)"
proof -
  obtain x zs where xs: "xs = x # zs" "zs \<noteq> []" using two by (cases xs; cases "tl xs") auto
  obtain f where f: "vofile (vmas s x) = Some f" using files xs by auto
  have ok: "linked (\<lambda>i. vnext (vmas s i)) (pvmas (proc s p)) (x # zs)" "distinct (x # zs)"
      "nat (nvma (proc s p)) = Suc (length zs)" "\<forall>y \<in> set (x # zs). y < VMAS_STORED \<and> vuse (vmas s y)"
    using inv xs linked_distinct [of _ "pvmas (proc s p)" xs] by (auto simp: vma_list_def area_ok_def)
  have scan: "fork_scan 0 (vmas s) = SlotFound 29" and un: "\<not> vuse (vmas s 29)"
    using free_slots_Cons [OF free] by simp_all
  have ne: "29 \<notin> set (x # zs)" using un ok(4) by auto
  let ?t = "s\<lparr>proc := (proc s)(np := (proc s np)\<lparr>pvmas := Some 29\<rparr>),
     vmas := (vmas s)(29 := copied (vmas s x) None),
     files := (files s)(f := (files s f)\<lparr>fref := fref (files s f) + 1\<rparr>)\<rparr>"
  have lk: "linked (\<lambda>i. vnext (vmas ?t i)) (vnext (vmas s x)) zs"
    using ok(1) ne by (subst segment_cong [where nxt' = "\<lambda>i. vnext (vmas s i)"]) auto
  have "fork_vmas np 1 30 (Some 29) (vnext (vmas s x)) (length zs) ?t = Ok True ?t"
    by (rule fork_vmas_passed [OF lk]) (use ok(4) in auto)
  then have "fork_vmas np 0 0 None (pvmas (proc s p)) (nat (nvma (proc s p))) s = Ok True ?t"
    using ok ne scan f by (simp add: deref_def get_vma_def upd_vma_def upd_proc_def upd_file_def copied_eq)
  moreover have "\<nexists>ys. vma_list (vmas ?t) (proc ?t np) ys"
  proof (rule notI, elim exE)
    fix ys
    assume "vma_list (vmas ?t) (proc ?t np) ys"
    then have "linked (\<lambda>i. vnext (vmas ?t i)) (Some 29) ys" "length ys = length xs"
      using nv by (auto simp: vma_list_def)
    with xs show False by (cases ys; cases "tl ys") (auto simp: copied_def)
  qed
  ultimately show ?thesis using nv by (intro exI [of _ ?t]) (auto simp: copied_def)
qed

theorem fork_truncates_areas_witness:
  "\<exists>s t. vma_list (vmas s) (proc s 0) [0, 1] \<and>
     fork_vmas 1 0 0 None (pvmas (proc s 0)) (nat (nvma (proc s 0))) (s :: vstate) = Ok True t \<and>
     linked (\<lambda>i. vnext (vmas t i)) (pvmas (proc t 1)) [29] \<and> nvma (proc t 1) = 2"
proof -
  obtain k :: kmem where True by simp
  let ?a = "\<lparr>vuse = True, vsize = 4096, vofile = Some 0, addrinit = START_ADDRESS,
       addri = START_ADDRESS, addre = START_ADDRESS + PGSIZE, voffset = 0, vnext = None, prot = 2, flag = 1\<rparr>"
  let ?s = "(demo_on k)\<lparr>proc := (\<lambda>i. if i = 0 then demo_proc\<lparr>pvmas := Some 0, nvma := 2\<rparr> else free_proc\<lparr>nvma := 2\<rparr>),
     vmas := (\<lambda>i. if i = 29 then free_vma else ?a)(0 := ?a\<lparr>vnext := Some 1\<rparr>,
       1 := ?a\<lparr>addri := START_ADDRESS + PGSIZE, addre := START_ADDRESS + 2 * PGSIZE\<rparr>)\<rparr>"
  have inv: "vma_list (vmas ?s) (proc ?s 0) [0, 1]"
    by (simp add: vma_list_def area_ok_def page_aligned_def START_ADDRESS_def TOP_ADDRESS_def)
  have free: "free_slots 0 (vmas ?s) = [29]" by (simp add: free_slots_def upt_rec)
  from fork_truncates_areas [where s = ?s and p = 0 and np = 1 and xs = "[0, 1]"] inv free
  obtain t where "fork_vmas 1 0 0 None (pvmas (proc ?s 0)) (nat (nvma (proc ?s 0))) ?s = Ok True t"
    "linked (\<lambda>i. vnext (vmas t i)) (pvmas (proc t 1)) [29]" "nvma (proc t 1) = 2"
    by auto
  with inv show ?thesis by blast
qed

end
