(* ===== verification/Frames.thy ===== *)
theory Frames
  imports Vm
begin

text \<open>
  What the page allocator and the page-table operations leave alone: the contract by which the
  components above use them. \<open>page_view\<close> is a view of the state that does not depend on memory and
  that allocating and freeing a page keep; every operation of \<open>vm.c\<close> then keeps it. \<open>kmem_view\<close> is
  the common case, a view of the fields of the later components.
\<close>

locale page_view =
  fixes v :: "'z kmem_scheme \<Rightarrow> 'v"
  assumes view_mem: "v (s\<lparr>mem := m\<rparr>) = v s"
    and keeps_kalloc: "keeps v kalloc"
    and keeps_kfree: "keeps v (kfree pa)"
begin

lemma keeps_memory_ops:
  "keeps v (kmemset a c n)" "keeps v (kmemmove a b n)" "keeps v (kload64 a)" "keeps v (kstore64 a w)"
  "keeps v (kput a bs)" "keeps v (kget a n)"
  by (auto simp: keeps_def kmemset_def kmemmove_def kload64_def kstore64_def kput_def kget_def view_mem
    split: if_splits)

lemma keeps_at_rets: "keeps_at v (ret x) s" "keeps_at v (case p of (a, b) \<Rightarrow> ret (f a b)) s"
  by (auto intro: keeps_at_keeps keeps_intros split: prod.split)

lemmas base = keeps_intros keeps_memory_ops keeps_kalloc keeps_kfree

lemma keeps_walk: "keeps v (walk pt va alloc)"
proof -
  have "keeps v (walk_step q va l alloc)" for q l
    unfolding walk_step_def Let_def by (intro base)
  then have "keeps v (walk_levels l q va alloc)" for l q
    by (induction l arbitrary: q) (auto intro!: base)
  then show ?thesis unfolding walk_def by (auto intro!: base)
qed

lemma keeps_walkaddr: "keeps v (walkaddr pt va)"
  unfolding walkaddr_def by (intro base keeps_walk)

lemmas pages = base keeps_walk keeps_walkaddr

lemma keeps_mappages_loop: "keeps_at v (mappages_loop pt a lst pa perm) s"
proof (induction pt a lst pa perm s rule: mappages_loop.induct)
  case (1 pt a lst pa perm s)
  show ?case
    by (rule keeps_at_step [OF mappages_loop.simps], (rule keeps_at_intros pages | (rule "1.IH", assumption+))+)
qed

lemma keeps_mappages: "keeps v (mappages pt va sz pa perm)"
  unfolding mappages_def by (intro base keeps_atI keeps_mappages_loop)

lemma keeps_uvmunmap_loop: "keeps_at v (uvmunmap_loop pt a lst fr) s"
proof (induction pt a lst fr s rule: uvmunmap_loop.induct)
  case (1 pt a lst fr s)
  show ?case
    by (rule keeps_at_step [OF uvmunmap_loop.simps], (rule keeps_at_intros pages | (rule "1.IH", assumption+))+)
qed

lemma keeps_uvmunmap: "keeps v (uvmunmap pt va n fr)"
  unfolding uvmunmap_def by (intro base keeps_atI keeps_uvmunmap_loop)

lemma keeps_uvmdealloc: "keeps v (uvmdealloc pt oldsz newsz)"
  unfolding uvmdealloc_def Let_def by (intro pages keeps_uvmunmap)

lemma keeps_uvmalloc_loop: "keeps_at v (uvmalloc_loop pt a oldsz newsz) s"
proof (induction pt a oldsz newsz s rule: uvmalloc_loop.induct)
  case (1 pt a oldsz newsz s)
  show ?case
    by (rule keeps_at_step [OF uvmalloc_loop.simps], (rule keeps_at_intros pages keeps_mappages keeps_uvmdealloc keeps_at_rets | (rule "1.IH", assumption+))+)
qed

lemma keeps_uvmalloc: "keeps v (uvmalloc pt oldsz newsz)"
  unfolding uvmalloc_def by (intro base keeps_atI keeps_uvmalloc_loop)

lemma keeps_freewalk: "keeps v (freewalk d pt)"
  by (induction d arbitrary: pt) (auto intro!: pages)

lemma keeps_uvmfree: "keeps v (uvmfree pt sz)"
  unfolding uvmfree_def by (intro pages keeps_uvmunmap keeps_freewalk)

lemma keeps_uvmcopy_loop: "keeps_at v (uvmcopy_loop old new i sz) s"
proof (induction old new i sz s rule: uvmcopy_loop.induct)
  case (1 old new i sz s)
  show ?case
    by (rule keeps_at_step [OF uvmcopy_loop.simps], (rule keeps_at_intros pages keeps_mappages keeps_uvmunmap keeps_at_rets | (rule "1.IH", assumption+))+)
qed

lemma keeps_uvmcopy: "keeps v (uvmcopy old new sz)"
  unfolding uvmcopy_def by (intro base keeps_atI keeps_uvmcopy_loop)

lemma keeps_uvmcreate: "keeps v uvmcreate"
  unfolding uvmcreate_def by (intro pages)

lemma keeps_copyout: "keeps v (copyout pt va bs)"
proof (induction bs arbitrary: va rule: length_induct)
  case (1 bs)
  have shorter: "keeps v (copyout pt vb (drop (min (page_rest va) (length bs)) bs))" if "bs \<noteq> []" for vb
    using 1 that page_rest_pos [of va] by simp
  show ?case
    by (rule keeps_atI, rule keeps_at_step [OF copyout.simps], unfold Let_def)
      ((rule keeps_at_intros keeps_at_keeps [OF shorter] pages | assumption)+)
qed

lemma keeps_copyin: "keeps v (copyin pt va n)"
proof (induction n arbitrary: va rule: less_induct)
  case (less n)
  have shorter: "keeps v (copyin pt vb (n - min (page_rest va) n))" if "0 < n" for vb
    using less.IH [of "n - min (page_rest va) n"] that page_rest_pos [of va] by simp
  show ?case
    by (rule keeps_atI, rule keeps_at_step [OF copyin.simps], unfold Let_def)
      ((rule keeps_at_intros shorter keeps_at_rets pages | assumption)+)
qed

lemmas operations = pages keeps_mappages keeps_uvmunmap keeps_uvmdealloc keeps_uvmalloc keeps_freewalk
  keeps_uvmfree keeps_uvmcopy keeps_uvmcreate keeps_copyout keeps_copyin

end

locale kmem_view =
  fixes v :: "'z kmem_scheme \<Rightarrow> 'v"
  assumes later_mem: "v (s\<lparr>mem := m\<rparr>) = v s"
    and later_locks: "v (s\<lparr>locks := l\<rparr>) = v s"
    and later_runs: "v (s\<lparr>runs := r\<rparr>) = v s"
    and later_freelist: "v (s\<lparr>freelist := f\<rparr>) = v s"
begin

lemma keeps_lock_ops: "keeps v (acquire lk)" "keeps v (release lk)"
  by (auto simp: keeps_def acquire_eq_Ok release_eq_Ok later_locks)

lemma keeps_allocator: "keeps v kalloc" "keeps v (kfree pa)"
proof -
  have set_runs: "keeps v (modify (\<lambda>s. s\<lparr>runs := F s, freelist := G s\<rparr>))" "keeps v (kmemset a c n)" for F G a c n
    by (auto simp: keeps_def kmemset_def later_mem later_runs later_freelist split: if_splits)
  show "keeps v kalloc" unfolding kalloc_def by (intro keeps_intros keeps_lock_ops set_runs)
  show "keeps v (kfree pa)" unfolding kfree_def push_run_def Let_def by (intro keeps_intros keeps_lock_ops set_runs)
qed

end

sublocale kmem_view \<subseteq> page_view v
  by unfold_locales (rule later_mem keeps_allocator)+

text \<open>The allocator releases its own lock, so the locks held are such a view too.\<close>

interpretation held: page_view locks
proof unfold_locales
  show "keeps locks (kalloc :: ('z kmem_scheme, u64) kmon)"
    by (auto simp: keeps_def kalloc_def bnd_eq_Ok acquire_eq_Ok release_eq_Ok kmemset_def split: option.splits if_splits)
  show "keeps locks (kfree pa :: ('z kmem_scheme, unit) kmon)" for pa
    by (auto simp: keeps_def kfree_def push_run_def Let_def bnd_eq_Ok acquire_eq_Ok release_eq_Ok kmemset_def
      split: option.splits if_splits)
qed simp

interpretation link: kmem_view kernel_end
  by unfold_locales simp_all

end
