(* ===== verification/Proc_Spec.thy ===== *)
theory Proc_Spec
  imports Frames Syscall Demo
begin

text \<open>
  The life of a process: what wakeup, kill, yield and the clock do, and the state machine of the
  process table under all the operations that change the state of a process.
\<close>

interpretation procs: kmem_view "\<lambda>s :: 'z ptable_scheme. (proc s, cur s, nextpid s)"
  by unfold_locales simp_all

interpretation table: page_view "\<lambda>s :: 'z ptable_scheme. ((proc s, cur s, nextpid s), locks s)"
  by unfold_locales
    (simp, intro keeps_Pair procs.keeps_kalloc held.keeps_kalloc, intro keeps_Pair procs.keeps_kfree held.keeps_kfree)

section \<open>wakeup and kill\<close>

definition woken :: "channel \<Rightarrow> 'z ptable_scheme \<Rightarrow> nat list \<Rightarrow> nat \<Rightarrow> proc" where
  "woken ch s ps = (\<lambda>q. if q \<in> set ps \<and> cur s \<noteq> Some q then wakeup1 ch (proc s q) else proc s q)"

lemma woken_cong: "proc t = proc s \<Longrightarrow> cur t = cur s \<Longrightarrow> woken ch t ps = woken ch s ps"
  by (auto simp: woken_def fun_eq_iff)

abbreviation wake_one :: "channel \<Rightarrow> nat \<Rightarrow> ('z ptable_scheme, unit) kmon" where
  "wake_one ch p \<equiv> bnd (gets cur) (\<lambda>c. guarded (c \<noteq> Some p)
     (bnd (acquire (plock p)) (\<lambda>_. bnd (upd_proc p (wakeup1 ch)) (\<lambda>_. release (plock p)))))"

lemma wakeup_list:
  assumes "distinct ps" and "\<And>q. q \<in> set ps \<Longrightarrow> cur s \<noteq> Some q \<Longrightarrow> plock q \<notin> set (locks s)"
  shows "for_each (wake_one ch) ps s = Ok () (s\<lparr>proc := woken ch s ps\<rparr>)"
  using assms
proof (induction ps arbitrary: s)
  case Nil
  then show ?case by (simp add: woken_def)
next
  case (Cons p ps)
  let ?s' = "if cur s = Some p then s else s\<lparr>proc := (proc s)(p := wakeup1 ch (proc s p))\<rparr>"
  have one: "wake_one ch p s = Ok () ?s'"
    using Cons.prems(2) [of p] by (auto simp: lock_runs upd_proc_def)
  have rest: "for_each (wake_one ch) ps ?s' = Ok () (?s'\<lparr>proc := woken ch ?s' ps\<rparr>)"
    using Cons.prems by (intro Cons.IH) (auto split: if_splits)
  have "?s'\<lparr>proc := woken ch ?s' ps\<rparr> = s\<lparr>proc := woken ch s (p # ps)\<rparr>"
    using Cons.prems(1) by (auto simp: woken_def fun_eq_iff)
  then show ?case by (simp only: for_each.simps bnd_Ok [where f = "wake_one ch p", OF one] rest)
qed

lemma wakeup_run:
  assumes "\<And>q. q < NPROC \<Longrightarrow> cur s \<noteq> Some q \<Longrightarrow> plock q \<notin> set (locks s)"
  shows "wakeup ch s = Ok () (s\<lparr>proc := woken ch s [0..<NPROC]\<rparr>)"
  unfolding wakeup_def using assms by (intro wakeup_list) auto

lemma kill_list:
  assumes "\<And>q. q \<in> set ps \<Longrightarrow> plock q \<notin> set (locks s)"
  shows "kill_from pd ps s =
    (case find (\<lambda>q. pid (proc s q) = pd) ps of
       None \<Rightarrow> Ok (- 1) s
     | Some q \<Rightarrow> Ok 0 (s\<lparr>proc := (proc s)(q := (proc s q)\<lparr>killed := True,
         state := (if state (proc s q) = SLEEPING then RUNNABLE else state (proc s q))\<rparr>)\<rparr>))"
  using assms by (induction ps) (auto simp: lock_runs upd_proc_def get_proc_def)

section \<open>Properties of wakeup, kill, yield and sleep\<close>

text \<open>
  \<open>wakeup ch\<close> makes every process that sleeps on \<open>ch\<close> runnable, other than the caller, and
  changes nothing else: no other process, no lock.
\<close>

lemma wakeup_wakes_sleepers:
  assumes "locks s = []" and "p < NPROC" and "cur s \<noteq> Some p"
  shows "\<exists>t. wakeup ch s = Ok () t \<and> t = s\<lparr>proc := proc t\<rparr> \<and>
    proc t p = (if state (proc s p) = SLEEPING \<and> chan (proc s p) = Some ch
      then (proc s p)\<lparr>state := RUNNABLE\<rparr> else proc s p) \<and>
    (\<forall>q. cur s = Some q \<longrightarrow> proc t q = proc s q)"
  using assms wakeup_run [of s ch] by (auto simp: woken_def wakeup1_def)

text \<open>
  \<open>yield\<close> gives up the processor and comes back: with the process runnable again the whole
  call leaves the state as it was.
\<close>

lemma yield_returns:
  assumes "cur s = Some p" and "state (proc s p) = RUNNING" and "locks s = []"
  shows "yield s = Ok () s"
proof -
  have "(proc s p)\<lparr>state := RUNNING\<rparr> = proc s p" using assms(2) by (cases "proc s p") simp
  then have same: "s\<lparr>proc := (proc s)(p := (proc s p)\<lparr>state := RUNNING\<rparr>), cur := Some p, locks := []\<rparr> = s"
    using assms(1,3) by (cases s) auto
  show ?thesis
    using assms same by (simp add: yield_def yield_enter_def myproc_def lock_runs upd_proc_def sched_def
      holding_def get_proc_def switch_out_def switch_in_def resume_def)
qed

section \<open>The process table as a state machine\<close>

text \<open>A run in which processes are at most woken up.\<close>

definition advances :: "'z ptable_scheme \<Rightarrow> 'z ptable_scheme \<Rightarrow> bool" where
  "advances s t \<longleftrightarrow> cur t = cur s \<and> nextpid t = nextpid s \<and> locks t = locks s \<and>
     (\<forall>p. pid (proc t p) = pid (proc s p) \<and> chan (proc t p) = chan (proc s p) \<and>
        (state (proc t p) = state (proc s p) \<or> state (proc s p) = SLEEPING \<and> state (proc t p) = RUNNABLE))"

lemma advances_refl: "advances s s"
  by (simp add: advances_def)

lemma advances_trans: "advances s t \<Longrightarrow> advances t u \<Longrightarrow> advances s u"
  unfolding advances_def by (metis procstate.distinct)

lemma for_each_advances:
  assumes "\<And>x s t. f x s = Ok () t \<Longrightarrow> advances s t"
  shows "for_each f xs s = Ok () t \<Longrightarrow> advances s t"
proof (induction xs arbitrary: s)
  case Nil
  then show ?case by (simp add: advances_refl)
next
  case (Cons x xs)
  then obtain u where "f x s = Ok () u" "for_each f xs u = Ok () t" by (auto simp: bnd_eq_Ok)
  with Cons.IH assms show ?case by (blast intro: advances_trans)
qed

lemma wakeup_advances: "wakeup ch s = Ok () t \<Longrightarrow> advances s t"
  unfolding wakeup_def
proof (erule for_each_advances [rotated])
  show "wake_one ch p s = Ok () t \<Longrightarrow> advances s t" for p and s t :: "'z ptable_scheme"
    by (auto simp: bnd_eq_Ok acquire_eq_Ok release_eq_Ok upd_proc_def wakeup1_def advances_def split: if_splits)
qed

lemma kill_advances: "kill_from pd ps s = Ok r t \<Longrightarrow> advances s t"
proof (induction ps arbitrary: s)
  case Nil
  then show ?case by (simp add: advances_refl)
next
  case (Cons p ps)
  then show ?case
    by (auto simp: bnd_eq_Ok acquire_eq_Ok release_eq_Ok upd_proc_def get_proc_def advances_def split: if_splits)
qed

lemma reparent_advances: "reparent p s = Ok () t \<Longrightarrow> advances s t"
  unfolding reparent_def
proof (erule for_each_advances [rotated])
  fix q and s t :: "'z ptable_scheme"
  assume run: "bnd (get_proc q parent) (\<lambda>par. guarded (par = Some p)
     (bnd (gets initproc) (\<lambda>ip. bnd (upd_proc q (\<lambda>q. q\<lparr>parent := ip\<rparr>)) (\<lambda>_. wakeup (proc_chan ip))))) s = Ok () t"
  have "advances s (s\<lparr>proc := (proc s)(q := (proc s q)\<lparr>parent := initproc s\<rparr>)\<rparr>)"
    by (simp add: advances_def)
  then show "advances s t"
    using run by (auto simp: get_proc_def upd_proc_def advances_refl split: if_splits
      intro: advances_trans dest: wakeup_advances)
qed

text \<open>A run that changes one entry of the table and takes and releases no lock.\<close>

definition replaces :: "nat \<Rightarrow> (proc \<Rightarrow> bool) \<Rightarrow> 'z ptable_scheme \<Rightarrow> 'z ptable_scheme \<Rightarrow> bool" where
  "replaces p Q s t \<longleftrightarrow> cur t = cur s \<and> locks t = locks s \<and> (\<forall>r. r \<noteq> p \<longrightarrow> proc t r = proc s r) \<and> Q (proc t p)"

lemma keeps_table_pages:
  "keeps (\<lambda>s :: 'z ptable_scheme. ((proc s, cur s, nextpid s), locks s)) (proc_freepagetable pt sz)"
  "keeps (\<lambda>s :: 'z ptable_scheme. ((proc s, cur s, nextpid s), locks s)) (proc_pagetable tf)"
  unfolding proc_freepagetable_def proc_pagetable_def by (intro table.operations)+

lemma freeproc_effect:
  assumes "freeproc p s = Ok () t"
  shows "replaces p (\<lambda>q. state q = UNUSED \<and> pid q = 0) s t \<and> nextpid t = nextpid s"
  using assms
  by (auto simp: freeproc_def bnd_eq_Ok get_proc_def upd_proc_def replaces_def split: if_splits
    dest!: keepsD [OF table.keeps_kfree] keepsD [OF keeps_table_pages(1)])

lemma find_unused_effect:
  "find_unused ps s = Ok (Some p) t \<Longrightarrow>
     t = s\<lparr>locks := plock p # locks s\<rparr> \<and> state (proc s p) = UNUSED \<and> p \<in> set ps \<and> plock p \<notin> set (locks s)"
  "find_unused ps s = Ok None t \<Longrightarrow> t = s"
  by (induction ps arbitrary: s)
    (auto simp: bnd_eq_Ok acquire_eq_Ok release_eq_Ok get_proc_def split: if_splits)

lemma int_add_one: "0 \<le> a \<Longrightarrow> a < 2 ^ 31 - 1 \<Longrightarrow> int_add a 1 = a + 1"
proof -
  assume "0 \<le> a" "a < 2 ^ 31 - 1"
  then have "signed_take_bit 31 (a + 1) = a + 1" by (intro signed_take_bit_int_eq_self) auto
  then show ?thesis unfolding int_add_def signed_of_int by simp
qed

lemma allocpid_effect:
  "allocpid s = Ok pd t \<longleftrightarrow> pid_lock \<notin> set (locks s) \<and> pd = nextpid s \<and> t = s\<lparr>nextpid := int_add (nextpid s) 1\<rparr>"
  by (auto simp: allocpid_def bnd_eq_Ok acquire_eq_Ok release_eq_Ok)

text \<open>\<open>allocproc\<close> with the lock of the new process released again.\<close>

definition create :: "('z ptable_scheme, unit) kmon" where
  "create = bnd allocproc (\<lambda>r. case r of None \<Rightarrow> ret () | Some np \<Rightarrow> release (plock np))"

lemma allocproc_found_effect:
  assumes "allocproc_found p s = Ok r t" and "plock p \<in> set (locks s)" and "distinct (locks s)"
  shows "nextpid t = int_add (nextpid s) 1 \<and> (r = None \<or> r = Some p) \<and>
     replaces p (\<lambda>q. if r = None then state q = UNUSED else state q = USED \<and> pid q = nextpid s \<and> killed q = killed (proc s p))
       (s\<lparr>locks := (if r = None then remove1 (plock p) (locks s) else locks s)\<rparr>) t"
proof -
  from assms(1) obtain u v tf where u: "u = s\<lparr>nextpid := int_add (nextpid s) 1,
      proc := (proc s)(p := (proc s p)\<lparr>pid := nextpid s, state := USED\<rparr>)\<rparr>"
    and tf: "kalloc u = Ok tf v"
    and rest: "bnd (upd_proc p (\<lambda>q. q\<lparr>trapframe := tf\<rparr>)) (\<lambda>_.
      if tf = 0 then bnd (freeproc p) (\<lambda>_. bnd (release (plock p)) (\<lambda>_. ret None))
      else bnd (proc_pagetable tf) (\<lambda>pt.
        bnd (upd_proc p (\<lambda>q. q\<lparr>pagetable := pt\<rparr>)) (\<lambda>_.
        if pt = 0 then bnd (freeproc p) (\<lambda>_. bnd (release (plock p)) (\<lambda>_. ret None))
        else bnd (gets forkret_addr) (\<lambda>fr.
          bnd (upd_proc p (\<lambda>q. q\<lparr>ctx := (replicate 14 0)[0 := fr, 1 := kstack q + PGSIZE]\<rparr>)) (\<lambda>_.
          ret (Some p)))))) v = Ok r t"
    by (auto simp: allocproc_found_def bnd_eq_Ok allocpid_effect upd_proc_def)
  have v: "proc v = proc u" "cur v = cur u" "nextpid v = nextpid u" "locks v = locks u"
    using keepsD [OF table.keeps_kalloc tf] by simp_all
  from rest show ?thesis
    by (auto simp: bnd_eq_Ok upd_proc_def replaces_def release_eq_Ok u v split: if_splits
      dest!: keepsD [OF keeps_table_pages(2)] freeproc_effect)
qed

lemma create_effect:
  assumes "create s = Ok () t" and dist: "distinct (locks s)"
  shows "t = s \<or> (\<exists>p < NPROC. state (proc s p) = UNUSED \<and> nextpid t = int_add (nextpid s) 1 \<and>
     replaces p (\<lambda>q. state q = UNUSED \<or> state q = USED \<and> pid q = nextpid s \<and> killed q = killed (proc s p)) s t)"
proof -
  from assms(1) obtain r u where a: "allocproc s = Ok r u" "(case r of None \<Rightarrow> ret () | Some np \<Rightarrow> release (plock np)) u = Ok () t"
    by (auto simp: create_def bnd_eq_Ok)
  then obtain r' v where f: "find_unused [0..<NPROC] s = Ok r' v" by (auto simp: allocproc_def bnd_eq_Ok)
  show ?thesis
  proof (cases r')
    case None
    with f find_unused_effect(2) [of "[0..<NPROC]" s v] a show ?thesis by (simp add: allocproc_def)
  next
    case (Some p)
    note v = find_unused_effect(1) [OF f [unfolded Some]]
    from a(1) f Some have "allocproc_found p v = Ok r u" by (simp add: allocproc_def)
    then have "nextpid u = int_add (nextpid s) 1 \<and> (r = None \<or> r = Some p) \<and>
       replaces p (\<lambda>q. if r = None then state q = UNUSED
          else state q = USED \<and> pid q = nextpid s \<and> killed q = killed (proc s p))
         (s\<lparr>locks := (if r = None then locks s else plock p # locks s)\<rparr>) u"
      using allocproc_found_effect [of p v r u] v dist by auto
    with a(2) v show ?thesis by (auto simp: replaces_def release_eq_Ok)
  qed
qed

text \<open>The scan of \<open>wait\<close> changes at most one entry: a zombie child is freed.\<close>

lemma wait_scan_effect:
  assumes "wait_scan p addr nps hk s = Ok r t" and "wait_lock \<in> set (locks s)"
  shows "nextpid t = nextpid s \<and> cur t = cur s \<and>
     locks t = (case r of Inl _ \<Rightarrow> remove1 wait_lock (locks s) | Inr _ \<Rightarrow> locks s) \<and>
     (proc t = proc s \<or> (\<exists>np \<in> set nps. state (proc s np) = ZOMBIE \<and> state (proc t np) = UNUSED \<and>
        (\<forall>q. q \<noteq> np \<longrightarrow> proc t q = proc s q)))"
  using assms
proof (induction nps arbitrary: hk)
  case Nil
  then show ?case by auto
next
  case (Cons np nps)
  show ?case
  proof (cases "parent (proc s np) = Some p \<and> state (proc s np) = ZOMBIE")
    case False
    with Cons.prems Cons.IH show ?thesis
      by (auto simp: get_proc_def bnd_eq_Ok acquire_eq_Ok release_eq_Ok split: if_splits)
  next
    case True
    let ?l = "plock np # locks s"
    have ne: "wait_lock \<noteq> plock np" by simp
    from True Cons.prems(1) obtain x u where
      u: "(if addr \<noteq> 0 then copyout (pagetable (proc s p)) addr (le_bytes 4 (word_of_int (xstate (proc s np)) :: u32)) else ret 0)
         (s\<lparr>locks := ?l\<rparr>) = Ok x u" and
      rest: "(if x < 0
         then bnd (release (plock np)) (\<lambda>_. bnd (release wait_lock) (\<lambda>_. ret (Inl (- 1))))
         else bnd (freeproc np) (\<lambda>_. bnd (release (plock np)) (\<lambda>_. bnd (release wait_lock) (\<lambda>_.
           ret (Inl (pid (proc s np))))))) u = Ok r t"
      by (auto simp: get_proc_def bnd_eq_Ok acquire_eq_Ok)
    have "proc u = proc s" "cur u = cur s" "nextpid u = nextpid s" "locks u = ?l"
      using u keepsD [OF table.keeps_copyout, of _ _ _ "s\<lparr>locks := ?l\<rparr>" x u] by (auto split: if_splits)
    with rest True ne show ?thesis
      by (auto simp: bnd_eq_Ok release_eq_Ok replaces_def split: if_splits dest!: freeproc_effect)
  qed
qed

lemma wait_effect:
  assumes "wait addr s = Ok r t"
  shows "nextpid t = nextpid s \<and> cur t = cur s \<and> locks t = locks s \<and>
     (proc t = proc s \<or> (\<exists>np < NPROC. state (proc s np) = ZOMBIE \<and> state (proc t np) = UNUSED \<and>
        (\<forall>q. q \<noteq> np \<longrightarrow> proc t q = proc s q)))"
proof -
  have no_sleep: "sleep ch lk u \<noteq> Ok r t" for ch lk and u :: "'a ptable_scheme"
    by (simp add: sleep_def bnd_eq_Ok)
  from assms obtain p where p: "cur s = Some p" "wait_lock \<notin> set (locks s)"
    by (auto simp: wait_def myproc_def bnd_eq_Ok acquire_eq_Ok split: option.splits)
  let ?s = "s\<lparr>locks := wait_lock # locks s\<rparr>"
  show ?thesis
  proof (cases "wait_scan p addr [0..<NPROC] False ?s")
    case (Ok v u)
    then have "(\<exists>x. v = Inl x) \<and> t = u \<or> (\<exists>k. v = Inr k) \<and> release wait_lock u = Ok () t"
      using assms p by (cases v) (auto simp: wait_def myproc_def lock_runs get_proc_def no_sleep bnd_eq_Ok split: if_splits)
    with wait_scan_effect [OF Ok] show ?thesis by (auto simp: release_eq_Ok)
  next
    case (Halt h u)
    with assms p show ?thesis by (simp add: wait_def myproc_def lock_runs)
  qed
qed

text \<open>
  One hart between two points where it holds no lock: the scheduler picks a process; the running
  process yields, sleeps on a channel, exits, creates a process, starts the one it created or gives
  it up, waits for a child; somebody wakes up or kills.
\<close>

inductive hart_step :: "'z ptable_scheme \<Rightarrow> 'z ptable_scheme \<Rightarrow> bool" where
  Run: "cur s = None \<Longrightarrow> p < NPROC \<Longrightarrow> bnd (switch_in p) (\<lambda>_. release (plock p)) s = Ok () t \<Longrightarrow> hart_step s t"
| Yield: "cur s = Some p \<Longrightarrow> bnd (yield_enter p) (\<lambda>_. switch_out p) s = Ok () t \<Longrightarrow> hart_step s t"
| Sleep: "cur s = Some p \<Longrightarrow> bnd (acquire lk) (\<lambda>_. bnd (sleep_enter ch lk) (\<lambda>_. switch_out p)) s = Ok () t \<Longrightarrow> hart_step s t"
| Exit: "cur s = Some p \<Longrightarrow> bnd (exit_zombie p status) (\<lambda>_. switch_out p) s = Ok () t \<Longrightarrow> hart_step s t"
| Create: "nextpid s < 2 ^ 31 - 1 \<Longrightarrow> create s = Ok () t \<Longrightarrow> hart_step s t"
| Start: "np < NPROC \<Longrightarrow> state (proc s np) = USED \<Longrightarrow> fork_start np s = Ok () t \<Longrightarrow> hart_step s t"
| Discard: "np < NPROC \<Longrightarrow> state (proc s np) = USED \<Longrightarrow> freeproc np s = Ok () t \<Longrightarrow> hart_step s t"
| Wait: "wait addr s = Ok r t \<Longrightarrow> hart_step s t"
| Wakeup: "wakeup ch s = Ok () t \<Longrightarrow> hart_step s t"
| Kill: "kill pd s = Ok r t \<Longrightarrow> hart_step s t"

definition proc_ok :: "'z ptable_scheme \<Rightarrow> bool" where
  "proc_ok s \<longleftrightarrow> locks s = [] \<and> 0 < nextpid s \<and> nextpid s < 2 ^ 31 \<and>
     (\<forall>p. cur s = Some p \<longleftrightarrow> p < NPROC \<and> state (proc s p) = RUNNING) \<and>
     (\<forall>p < NPROC. state (proc s p) = SLEEPING \<longrightarrow> chan (proc s p) \<noteq> None) \<and>
     (\<forall>p < NPROC. state (proc s p) \<noteq> UNUSED \<longrightarrow> 0 < pid (proc s p) \<and> pid (proc s p) < nextpid s) \<and>
     (\<forall>p < NPROC. \<forall>q < NPROC. state (proc s p) \<noteq> UNUSED \<longrightarrow> state (proc s q) \<noteq> UNUSED \<longrightarrow>
        pid (proc s p) = pid (proc s q) \<longrightarrow> p = q)"

text \<open>The life of a process: the changes of state the kernel makes.\<close>

definition lifecycle :: "(procstate \<times> procstate) set" where
  "lifecycle = {(UNUSED, USED), (USED, RUNNABLE), (USED, UNUSED), (RUNNABLE, RUNNING), (RUNNING, RUNNABLE),
     (RUNNING, SLEEPING), (RUNNING, ZOMBIE), (SLEEPING, RUNNABLE), (ZOMBIE, UNUSED)}"

definition lives :: "'z ptable_scheme \<Rightarrow> 'z ptable_scheme \<Rightarrow> bool" where
  "lives s t \<longleftrightarrow> (\<forall>p < NPROC. (state (proc s p), state (proc t p)) \<in> lifecycle\<^sup>=)"

lemma proc_okD:
  assumes "proc_ok s"
  shows "cur s = Some p \<longleftrightarrow> p < NPROC \<and> state (proc s p) = RUNNING"
    and "p < NPROC \<Longrightarrow> state (proc s p) = SLEEPING \<Longrightarrow> chan (proc s p) \<noteq> None"
    and "p < NPROC \<Longrightarrow> state (proc s p) \<noteq> UNUSED \<Longrightarrow> 0 < pid (proc s p) \<and> pid (proc s p) < nextpid s"
    and "p < NPROC \<Longrightarrow> q < NPROC \<Longrightarrow> state (proc s p) \<noteq> UNUSED \<Longrightarrow> state (proc s q) \<noteq> UNUSED \<Longrightarrow>
       pid (proc s p) = pid (proc s q) \<Longrightarrow> p = q"
    and "locks s = []" "0 < nextpid s" "nextpid s < 2 ^ 31"
  using assms unfolding proc_ok_def by blast+

lemma proc_okI:
  assumes "locks s = []" "0 < nextpid s" "nextpid s < 2 ^ 31"
    and "\<And>p. cur s = Some p \<longleftrightarrow> p < NPROC \<and> state (proc s p) = RUNNING"
    and "\<And>p. p < NPROC \<Longrightarrow> state (proc s p) = SLEEPING \<Longrightarrow> chan (proc s p) \<noteq> None"
    and "\<And>p. p < NPROC \<Longrightarrow> state (proc s p) \<noteq> UNUSED \<Longrightarrow> 0 < pid (proc s p) \<and> pid (proc s p) < nextpid s"
    and "\<And>p q. p < NPROC \<Longrightarrow> q < NPROC \<Longrightarrow> state (proc s p) \<noteq> UNUSED \<Longrightarrow> state (proc s q) \<noteq> UNUSED \<Longrightarrow>
       pid (proc s p) = pid (proc s q) \<Longrightarrow> p = q"
  shows "proc_ok s"
  using assms unfolding proc_ok_def by blast

lemma advances_ok:
  assumes adv: "advances s t" and ok: "proc_ok s"
  shows "proc_ok t \<and> lives s t"
proof
  have st: "pid (proc t p) = pid (proc s p)" "chan (proc t p) = chan (proc s p)"
     "state (proc t p) = state (proc s p) \<or> state (proc s p) = SLEEPING \<and> state (proc t p) = RUNNABLE"
     "cur t = cur s" "nextpid t = nextpid s" "locks t = locks s" for p
    using adv by (auto simp: advances_def)
  show "lives s t" unfolding lives_def lifecycle_def
  proof (intro allI impI)
    fix p
    show "(state (proc s p), state (proc t p)) \<in> {(UNUSED, USED), (USED, RUNNABLE), (USED, UNUSED),
      (RUNNABLE, RUNNING), (RUNNING, RUNNABLE), (RUNNING, SLEEPING), (RUNNING, ZOMBIE), (SLEEPING, RUNNABLE),
      (ZOMBIE, UNUSED)}\<^sup>=" using st(3) [of p] by auto
  qed
  show "proc_ok t"
  proof (rule proc_okI)
    show "cur t = Some p \<longleftrightarrow> p < NPROC \<and> state (proc t p) = RUNNING" for p
      using proc_okD(1) [OF ok, of p] st(3) [of p] st(4) by auto
    show "chan (proc t p) \<noteq> None" if "p < NPROC" "state (proc t p) = SLEEPING" for p
      using proc_okD(2) [OF ok, of p] st(2,3) [of p] that by auto
    show "0 < pid (proc t p) \<and> pid (proc t p) < nextpid t" if "p < NPROC" "state (proc t p) \<noteq> UNUSED" for p
      using proc_okD(3) [OF ok, of p] st(1,3) [of p] st(5) that by auto
    show "p = q" if "p < NPROC" "q < NPROC" "state (proc t p) \<noteq> UNUSED" "state (proc t q) \<noteq> UNUSED"
      "pid (proc t p) = pid (proc t q)" for p q
    proof -
      have "state (proc s p) \<noteq> UNUSED" "state (proc s q) \<noteq> UNUSED" using st(3) [of p] st(3) [of q] that(3,4) by auto
      then show ?thesis using that(5) by (intro proc_okD(4) [OF ok that(1,2)]) (simp_all add: st(1))
    qed
  qed (use proc_okD(5-7) [OF ok] st(5,6) in auto)
qed

lemma advances_cur: "advances s t \<Longrightarrow> state (proc s p) \<noteq> SLEEPING \<Longrightarrow> state (proc t p) = state (proc s p)"
  by (auto simp: advances_def)

text \<open>One entry changes: what the invariant asks of the new entry.\<close>

lemma replaced_ok:
  assumes ok: "proc_ok s" and p: "p < NPROC" and other: "\<And>q. q \<noteq> p \<Longrightarrow> proc t q = proc s q"
    and st: "(state (proc s p), state (proc t p)) \<in> lifecycle\<^sup>="
    and cur: "cur t = (if state (proc t p) = RUNNING then Some p else if cur s = Some p then None else cur s)"
    and run: "state (proc t p) = RUNNING \<Longrightarrow> cur s = None \<or> cur s = Some p"
    and ch: "state (proc t p) = SLEEPING \<Longrightarrow> chan (proc t p) \<noteq> None"
    and pd: "state (proc t p) = UNUSED \<or> pid (proc t p) = nextpid s \<and> nextpid s < nextpid t \<or>
       state (proc s p) \<noteq> UNUSED \<and> pid (proc t p) = pid (proc s p)"
    and rest: "locks t = []" "nextpid s \<le> nextpid t" "nextpid t < 2 ^ 31"
  shows "proc_ok t \<and> lives s t"
proof
  show "lives s t" unfolding lives_def
  proof (intro allI impI)
    fix q assume "q < NPROC"
    show "(state (proc s q), state (proc t q)) \<in> lifecycle\<^sup>=" using st other [of q] by (cases "q = p") auto
  qed
  note d = proc_okD [OF ok]
  show "proc_ok t"
  proof (rule proc_okI)
    show "cur t = Some q \<longleftrightarrow> q < NPROC \<and> state (proc t q) = RUNNING" for q
      using d(1) [of p] d(1) [of q] p cur run other [of q] by (cases "q = p") auto
    show "chan (proc t q) \<noteq> None" if "q < NPROC" "state (proc t q) = SLEEPING" for q
      using d(2) [of q] ch other [of q] that by (cases "q = p") auto
    show "0 < pid (proc t q) \<and> pid (proc t q) < nextpid t" if "q < NPROC" "state (proc t q) \<noteq> UNUSED" for q
      using d(3) [of q] d(6) pd other [of q] rest(2) that by (cases "q = p") auto
    show "q = q'" if "q < NPROC" "q' < NPROC" "state (proc t q) \<noteq> UNUSED" "state (proc t q') \<noteq> UNUSED"
      "pid (proc t q) = pid (proc t q')" for q q'
      using d(4) [of q q'] d(3) [of q] d(3) [of q'] pd other [of q] other [of q'] that
      by (cases "q = p"; cases "q' = p") auto
  qed (use d rest in auto)
qed

lemmas switch_simps = switch_in_def switch_out_def yield_enter_def sleep_enter_def sched_def resume_def fork_start_def
  myproc_def get_proc_def upd_proc_def holding_def bnd_eq_Ok acquire_eq_Ok release_eq_Ok

lemma exit_zombie_ok:
  assumes ok: "proc_ok s" and p: "cur s = Some p"
    and run: "bnd (exit_zombie p status) (\<lambda>_. switch_out p) s = Ok () t"
  shows "proc_ok t \<and> lives s t"
proof -
  let ?s = "s\<lparr>locks := [wait_lock]\<rparr>"
  note d = proc_okD [OF ok]
  have st: "p < NPROC" "state (proc s p) = RUNNING" using d(1) [of p] p by simp_all
  from run d(5) obtain u v where u: "reparent p ?s = Ok () u" and v: "wakeup (proc_chan (parent (proc u p))) u = Ok () v"
    and t: "bnd (acquire (plock p)) (\<lambda>_. bnd (upd_proc p (\<lambda>q. q\<lparr>xstate := status, state := ZOMBIE\<rparr>)) (\<lambda>_.
      bnd (release wait_lock) (\<lambda>_. bnd sched (\<lambda>_. switch_out p)))) v = Ok () t"
    by (auto simp: exit_zombie_def bnd_assoc bnd_eq_Ok acquire_eq_Ok get_proc_def)
  let ?v = "v\<lparr>locks := []\<rparr>"
  have adv: "advances ?s v" using reparent_advances [OF u] wakeup_advances [OF v] by (rule advances_trans)
  then have lv: "locks v = [wait_lock]" "cur v = Some p" "nextpid v = nextpid s" using p by (auto simp: advances_def)
  from adv have adv': "advances s ?v" using d(5) by (simp add: advances_def)
  then have v_ok: "proc_ok ?v" "lives s ?v" using advances_ok [OF _ ok] by auto
  have vp: "state (proc ?v p) = RUNNING" using advances_cur [OF adv', of p] st(2) by simp
  have t: "t = ?v\<lparr>proc := (proc v)(p := (proc v p)\<lparr>xstate := status, state := ZOMBIE\<rparr>), cur := None\<rparr>"
    using t lv by (auto simp: switch_simps)
  have "proc_ok t \<and> lives ?v t"
    by (rule replaced_ok [OF v_ok(1) st(1)])
      (use vp lv t d(7) proc_okD(1) [OF v_ok(1), of p] st(1) in \<open>auto simp: lifecycle_def\<close>)
  moreover have "lives s t" unfolding lives_def
  proof (intro allI impI)
    fix q assume "q < NPROC"
    with v_ok(2) st(2) t show "(state (proc s q), state (proc t q)) \<in> lifecycle\<^sup>="
      by (cases "q = p") (auto simp: lives_def lifecycle_def)
  qed
  ultimately show ?thesis by simp
qed

lemma hart_step_ok:
  assumes "hart_step s t" and ok: "proc_ok s"
  shows "proc_ok t \<and> lives s t"
  using assms(1)
proof cases
  case (Run p)
  with proc_okD(5) [OF ok] have t: "t = s\<lparr>proc := (proc s)(p := (proc s p)\<lparr>state := RUNNING\<rparr>), cur := Some p\<rparr>"
    "state (proc s p) = RUNNABLE"
    by (auto simp: switch_simps split: if_splits)
  show ?thesis by (rule replaced_ok [OF ok Run(2)]) (use Run t proc_okD(5,7) [OF ok] in \<open>auto simp: lifecycle_def\<close>)
next
  case (Yield p)
  with proc_okD(5) [OF ok] have t: "t = s\<lparr>proc := (proc s)(p := (proc s p)\<lparr>state := RUNNABLE\<rparr>), cur := None\<rparr>"
    by (auto simp: switch_simps split: if_splits)
  have p: "p < NPROC" "state (proc s p) = RUNNING" using proc_okD(1) [OF ok, of p] Yield by auto
  show ?thesis by (rule replaced_ok [OF ok p(1)]) (use Yield t p(2) proc_okD(5,7) [OF ok] in \<open>auto simp: lifecycle_def\<close>)
next
  case (Sleep p lk ch)
  with proc_okD(5) [OF ok]
  have t: "t = s\<lparr>proc := (proc s)(p := (proc s p)\<lparr>chan := Some ch, state := SLEEPING\<rparr>), cur := None\<rparr>"
    by (auto simp: switch_simps split: if_splits)
  have p: "p < NPROC" "state (proc s p) = RUNNING" using proc_okD(1) [OF ok, of p] Sleep by auto
  show ?thesis by (rule replaced_ok [OF ok p(1)]) (use Sleep t p(2) proc_okD(5,7) [OF ok] in \<open>auto simp: lifecycle_def\<close>)
next
  case (Exit p status)
  show ?thesis by (rule exit_zombie_ok [OF ok Exit])
next
  case Create
  have next_pid: "int_add (nextpid s) 1 = nextpid s + 1"
    using Create(1) proc_okD(6) [OF ok] by (intro int_add_one) auto
  from create_effect [OF Create(2)] proc_okD(5) [OF ok] consider "t = s"
    | p where "p < NPROC" "state (proc s p) = UNUSED" "nextpid t = nextpid s + 1"
      "replaces p (\<lambda>q. state q = UNUSED \<or> state q = USED \<and> pid q = nextpid s) s t"
    by (auto simp: next_pid replaces_def)
  then show ?thesis
  proof cases
    case 1
    with ok show ?thesis by (simp add: lives_def)
  next
    case 2
    show ?thesis
      by (rule replaced_ok [OF ok 2(1)])
        (use 2 Create(1) proc_okD(1) [OF ok, of p] proc_okD(5-7) [OF ok] in \<open>auto simp: replaces_def lifecycle_def\<close>)
  qed
next
  case (Start np)
  with proc_okD(5) [OF ok] have t: "t = s\<lparr>proc := (proc s)(np := (proc s np)\<lparr>state := RUNNABLE\<rparr>)\<rparr>"
    by (auto simp: switch_simps split: if_splits)
  show ?thesis
    by (rule replaced_ok [OF ok Start(1)])
      (use Start t proc_okD(1) [OF ok, of np] proc_okD(5,7) [OF ok] in \<open>auto simp: lifecycle_def\<close>)
next
  case (Discard np)
  show ?thesis
    by (rule replaced_ok [OF ok Discard(1)])
      (use Discard freeproc_effect [OF Discard(3)] proc_okD(1) [OF ok, of np] proc_okD(5,7) [OF ok]
        in \<open>auto simp: lifecycle_def replaces_def\<close>)
next
  case (Wait addr r)
  from wait_effect [OF Wait] consider "proc t = proc s"
    | np where "np < NPROC" "state (proc s np) = ZOMBIE" "state (proc t np) = UNUSED" "\<forall>q. q \<noteq> np \<longrightarrow> proc t q = proc s q"
    by auto
  then show ?thesis
  proof cases
    case 1
    with ok wait_effect [OF Wait] show ?thesis by (simp add: lives_def proc_ok_def)
  next
    case 2
    show ?thesis
      by (rule replaced_ok [OF ok 2(1)])
        (use 2 wait_effect [OF Wait] proc_okD(1) [OF ok, of np] proc_okD(5,7) [OF ok] in \<open>auto simp: lifecycle_def\<close>)
  qed
next
  case (Wakeup ch)
  show ?thesis by (rule advances_ok [OF wakeup_advances [OF Wakeup] ok])
next
  case (Kill pd r)
  show ?thesis by (rule advances_ok [OF kill_advances [OF Kill [unfolded kill_def]] ok])
qed

text \<open>
  C14. The invariant of the process table: in every state the hart reaches from a consistent one,
  through any sequence of scheduling, sleeping, waking, killing, forking, exiting and waiting,
  exactly the current process is running, a sleeping process has a channel, the process
  identifiers in use are positive, below the next one and pairwise different, and no lock is held.
\<close>

theorem proc_table_invariant:
  assumes "hart_step\<^sup>*\<^sup>* s t" and "proc_ok s"
  shows "proc_ok t"
  using assms by (induction rule: rtranclp_induct) (auto dest: hart_step_ok)

theorem proc_table_invariant_witness:
  "\<exists>s t :: vstate. proc_ok s \<and> cur s = Some 0 \<and> hart_step\<^sup>*\<^sup>* s t \<and> cur t = None \<and> proc_ok t"
proof -
  obtain k :: kmem where True by simp
  let ?s = "demo_on k"
  have ok: "proc_ok ?s" by (rule proc_okI) (simp_all add: demo_on_def split: if_splits)
  let ?t = "?s\<lparr>proc := (proc ?s)(0 := demo_proc\<lparr>state := RUNNABLE\<rparr>), cur := None, locks := []\<rparr>"
  have "hart_step ?s ?t"
    by (rule hart_step.Yield [of _ 0]) (simp_all add: yield_enter_def switch_out_def sched_def myproc_def get_proc_def
      upd_proc_def holding_def lock_runs)
  then have steps: "hart_step\<^sup>*\<^sup>* ?s ?t" by blast
  from proc_table_invariant [OF steps ok] steps ok show ?thesis
    by - (rule exI [of _ ?s], rule exI [of _ ?t], simp)
qed

text \<open>
  C15. Every step changes the state of a process only along the edges of its life cycle; in
  particular a process that is unused must be allocated before it can run, only the running
  process goes to sleep or becomes a zombie, and only a zombie (or a process that was never
  started) is freed.
\<close>

theorem process_lifecycle:
  assumes "hart_step s t" and "proc_ok s" and "p < NPROC" and "state (proc t p) \<noteq> state (proc s p)"
  shows "(state (proc s p), state (proc t p)) \<in> lifecycle"
  using hart_step_ok [OF assms(1,2)] assms(3,4) by (auto simp: lives_def)

theorem process_lifecycle_witness:
  "\<exists>s t :: vstate. hart_step s t \<and> (state (proc s 0), state (proc t 0)) \<in> lifecycle"
proof -
  obtain k :: kmem where True by simp
  let ?s = "demo_on k"
  have ok: "proc_ok ?s" by (rule proc_okI) (simp_all add: demo_on_def split: if_splits)
  let ?t = "?s\<lparr>proc := (proc ?s)(0 := demo_proc\<lparr>state := RUNNABLE\<rparr>), cur := None, locks := []\<rparr>"
  have step: "hart_step ?s ?t"
    by (rule hart_step.Yield [of _ 0]) (simp_all add: yield_enter_def switch_out_def sched_def myproc_def get_proc_def
      upd_proc_def holding_def lock_runs)
  have "(state (proc ?s 0), state (proc ?t 0)) \<in> lifecycle"
    by (rule process_lifecycle [OF step ok]) simp_all
  with step show ?thesis by blast
qed

section \<open>kill and sleep\<close>

text \<open>
  C39. \<open>kill(0)\<close> succeeds on an unused entry of the table, whose identifier is 0, and leaves it
  marked: a process created there later starts its life killed.
\<close>

theorem kill_zero_poisons:
  assumes "locks s = []" and "p < NPROC" and "state (proc s p) = UNUSED" and "pid (proc s p) = 0"
    and first: "\<And>q. q < p \<Longrightarrow> pid (proc s q) \<noteq> 0 \<and> state (proc s q) \<noteq> UNUSED"
  shows "\<exists>t. kill 0 s = Ok 0 t \<and> state (proc t p) = UNUSED \<and> killed (proc t p) \<and>
    (\<forall>u. create t = Ok () u \<longrightarrow> state (proc u p) = USED \<longrightarrow> killed (proc u p))"
proof -
  have "find (\<lambda>q. pid (proc s q) = 0) [0..<NPROC] = Some p"
    using assms by (auto simp: find_Some_iff)
  then have run: "kill 0 s = Ok 0 (s\<lparr>proc := (proc s)(p := (proc s p)\<lparr>killed := True, state := UNUSED\<rparr>)\<rparr>)" (is "_ = Ok 0 ?t")
    unfolding kill_def using assms(1,3) by (subst kill_list) auto
  have "killed (proc u p)" if "create ?t = Ok () u" "state (proc u p) = USED" for u
    using create_effect [OF that(1)] assms(1,3) that(2) by (auto simp: replaces_def split: if_splits)
  with run show ?thesis by (intro exI [of _ ?t]) simp
qed

theorem kill_zero_poisons_witness:
  "\<exists>s t :: vstate. kill 0 s = Ok 0 t \<and> state (proc t 1) = UNUSED \<and> killed (proc t 1)"
proof -
  obtain k :: kmem where True by simp
  have "\<exists>t. kill 0 (demo_on k) = Ok 0 t \<and> state (proc t 1) = UNUSED \<and> killed (proc t 1) \<and>
    (\<forall>u. create t = Ok () u \<longrightarrow> state (proc u 1) = USED \<longrightarrow> killed (proc u 1))"
    by (rule kill_zero_poisons) simp_all
  then show ?thesis by blast
qed

section \<open>Sleeping on the clock\<close>

text \<open>
  What process \<open>p\<close> sees of a piece of the hart's work between two runs of \<open>p\<close> in which the clock ticks
  \<open>d\<close> times: the scheduler has the hart again, no lock is left held, and \<open>p\<close> is as before, except
  that a tick wakes it when it sleeps on the clock. Everything else may change.
\<close>

definition passes :: "nat \<Rightarrow> nat \<Rightarrow> 'z ptable_scheme \<Rightarrow> 'z ptable_scheme \<Rightarrow> bool" where
  "passes p d s t \<longleftrightarrow> cur t = None \<and> locks t = [] \<and> ticks t = ticks s + of_nat d \<and>
     killed (proc t p) = killed (proc s p) \<and> chan (proc t p) = chan (proc s p) \<and>
     state (proc t p) = (if d = 0 then state (proc s p) else state (wakeup1 ticks_chan (proc s p)))"

text \<open>Work that returns to the scheduler after at least \<open>lo\<close> and at most \<open>hi\<close> ticks.\<close>

definition away_for :: "nat \<Rightarrow> nat \<Rightarrow> nat \<Rightarrow> ('z ptable_scheme, unit) kmon \<Rightarrow> bool" where
  "away_for p lo hi f \<longleftrightarrow> (\<forall>s. cur s = None \<and> locks s = [] \<longrightarrow>
     (\<exists>t d. f s = Ok () t \<and> passes p d s t \<and> lo \<le> d \<and> d \<le> hi))"

lemma away_for_seq:
  assumes "away_for p a b f" and "away_for p c d g"
  shows "away_for p (a + c) (b + d) (bnd f (\<lambda>_. g))"
  unfolding away_for_def
proof (intro allI impI)
  fix s :: "'a ptable_scheme"
  assume "cur s = None \<and> locks s = []"
  then obtain t i where t: "f s = Ok () t" "passes p i s t" "a \<le> i" "i \<le> b"
    using assms(1) unfolding away_for_def by blast
  then have "cur t = None \<and> locks t = []" by (simp add: passes_def)
  then obtain u j where u: "g t = Ok () u" "passes p j t u" "c \<le> j" "j \<le> d"
    using assms(2) unfolding away_for_def by blast
  have "passes p (i + j) s u" using t(2) u(2) by (auto simp: passes_def wakeup1_def split: if_splits)
  with t u show "\<exists>u k. bnd f (\<lambda>_. g) s = Ok () u \<and> passes p k s u \<and> a + c \<le> k \<and> k \<le> b + d"
    by (intro exI [of _ u] exI [of _ "i + j"]) simp
qed

lemma clockintr_run:
  assumes "locks s = []"
  shows "clockintr s = Ok () (s\<lparr>ticks := ticks s + 1, proc := woken ticks_chan s [0..<NPROC]\<rparr>)"
proof -
  let ?b = "s\<lparr>locks := [tickslock], ticks := ticks s + 1\<rparr>"
  have "wakeup ticks_chan ?b = Ok () (?b\<lparr>proc := woken ticks_chan ?b [0..<NPROC]\<rparr>)"
    by (rule wakeup_run) simp
  moreover have "woken ticks_chan ?b [0..<NPROC] = woken ticks_chan s [0..<NPROC]" by (rule woken_cong) simp_all
  ultimately show ?thesis using assms by (simp add: clockintr_def lock_runs)
qed

lemma away_clockintr:
  assumes "p < NPROC"
  shows "away_for p 1 1 clockintr"
  unfolding away_for_def
proof (intro allI impI)
  fix s :: "'a ptable_scheme"
  let ?t = "s\<lparr>ticks := ticks s + 1, proc := woken ticks_chan s [0..<NPROC]\<rparr>"
  assume s: "cur s = None \<and> locks s = []"
  then have "passes p 1 s ?t" using assms by (simp add: passes_def woken_def wakeup1_def)
  with s show "\<exists>t d. clockintr s = Ok () t \<and> passes p d s t \<and> 1 \<le> d \<and> d \<le> 1"
    by (intro exI [of _ ?t] exI [of _ 1]) (simp add: clockintr_run)
qed

text \<open>
  A time slice of another process \<open>q\<close>: back from its last \<open>yield\<close> it does some work, until the clock
  interrupt makes it yield.
\<close>

definition slice :: "('z ptable_scheme, unit) kmon \<Rightarrow> nat \<Rightarrow> ('z ptable_scheme, unit) kmon" where
  "slice work q = bnd (release (plock q)) (\<lambda>_. bnd work (\<lambda>_. bnd clockintr (\<lambda>_. yield_enter q)))"

definition minds_own :: "nat \<Rightarrow> nat \<Rightarrow> ('z ptable_scheme, unit) kmon \<Rightarrow> bool" where
  "minds_own p q work \<longleftrightarrow> (\<forall>s. cur s = Some q \<and> locks s = [] \<longrightarrow>
     (\<exists>t. work s = Ok () t \<and> cur t = Some q \<and> locks t = [] \<and> ticks t = ticks s \<and> killed (proc t p) = killed (proc s p) \<and>
       chan (proc t p) = chan (proc s p) \<and> state (proc t p) = state (proc s p)))"

lemma away_slice:
  assumes "q \<noteq> p" "p < NPROC" and work: "minds_own p q work"
  shows "away_for p 0 1 (scheduler_step (slice work) q)"
  unfolding away_for_def
proof (intro allI impI)
  fix s :: "'a ptable_scheme"
  assume s: "cur s = None \<and> locks s = []"
  show "\<exists>t d. scheduler_step (slice work) q s = Ok () t \<and> passes p d s t \<and> 0 \<le> d \<and> d \<le> 1"
  proof (cases "state (proc s q) = RUNNABLE")
    case False
    with s have "scheduler_step (slice work) q s = Ok () s" by (simp add: scheduler_step_def get_proc_def lock_runs)
    with s show ?thesis by (intro exI [of _ s] exI [of _ 0]) (simp add: passes_def)
  next
    case True
    let ?a = "s\<lparr>proc := (proc s)(q := (proc s q)\<lparr>state := RUNNING\<rparr>), cur := Some q, locks := []\<rparr>"
    obtain t where t: "work ?a = Ok () t" "cur t = Some q" "locks t = []" "ticks t = ticks s"
      "killed (proc t p) = killed (proc s p)" "chan (proc t p) = chan (proc s p)" "state (proc t p) = state (proc s p)"
      using work [unfolded minds_own_def, rule_format, of ?a] assms(1) by auto
    let ?w = "woken ticks_chan t [0..<NPROC]"
    let ?c = "t\<lparr>ticks := ticks t + 1, proc := ?w(q := (?w q)\<lparr>state := RUNNABLE\<rparr>), cur := None\<rparr>"
    have y: "yield_enter q (t\<lparr>ticks := ticks t + 1, proc := ?w\<rparr>) = Ok () (?c\<lparr>cur := Some q, locks := [plock q]\<rparr>)"
      using t(2,3) by (simp add: yield_enter_def sched_def holding_def myproc_def get_proc_def upd_proc_def lock_runs)
    have "scheduler_step (slice work) q s = Ok () ?c"
      using s True t y clockintr_run [OF t(3)]
      by (simp add: scheduler_step_def slice_def resume_def get_proc_def upd_proc_def lock_runs)
    moreover have "passes p 1 s ?c" using t assms(1,2) by (auto simp: passes_def woken_def wakeup1_def)
    ultimately show ?thesis by (intro exI [of _ ?c] exI [of _ 1]) simp
  qed
qed

text \<open>One sleep on the clock during which the hart is away for at least one tick.\<close>

lemma sleep_until_clock:
  assumes cur: "cur s = Some p" and held: "locks s = [tickslock]" and ev: "away_for p 1 hi ev"
  shows "\<exists>t d. sleep_until ticks_chan tickslock ev s = Ok () t \<and> ticks t = ticks s + of_nat d \<and> 1 \<le> d \<and> d \<le> hi \<and>
    cur t = Some p \<and> locks t = [tickslock] \<and> state (proc t p) = RUNNING \<and> killed (proc t p) = killed (proc s p)"
proof -
  let ?a = "s\<lparr>proc := (proc s)(p := (proc s p)\<lparr>chan := Some ticks_chan, state := SLEEPING\<rparr>), cur := None, locks := []\<rparr>"
  have enter: "bnd (sleep_enter ticks_chan tickslock) (\<lambda>_. switch_out p) s = Ok () ?a"
    using cur held by (simp add: sleep_enter_def switch_out_def sched_def myproc_def get_proc_def upd_proc_def
      holding_def lock_runs)
  have "cur ?a = None \<and> locks ?a = []" by simp
  then obtain u d where u: "ev ?a = Ok () u" "passes p d ?a u" "1 \<le> d" "d \<le> hi"
    using ev unfolding away_for_def by blast
  then have run: "cur u = None" "locks u = []" "state (proc u p) = RUNNABLE"
    by (auto simp: passes_def wakeup1_def)
  let ?t = "u\<lparr>proc := (proc u)(p := (proc u p)\<lparr>state := RUNNING, chan := None\<rparr>), cur := Some p, locks := [tickslock]\<rparr>"
  have "bnd (switch_in p) (\<lambda>_. sleep_return tickslock) u = Ok () ?t"
    using run by (simp add: switch_in_def sleep_return_def resume_def myproc_def get_proc_def upd_proc_def lock_runs)
  then have "sleep_until ticks_chan tickslock ev s = Ok () ?t"
    using cur enter [unfolded bnd_eq_Ok] u(1) by (auto simp: bnd_eq_Ok sleep_until_def myproc_def)
  with u(2-4) show ?thesis by (intro exI [of _ ?t] exI [of _ d]) (auto simp: passes_def)
qed

text \<open>The loop, \<open>e\<close> ticks after the call: it returns at the first test that finds \<open>n\<close> ticks passed.\<close>

lemma sleep_ticks_run:
  assumes "cur s = Some p" "locks s = [tickslock]" "\<not> killed (proc s p)" "state (proc s p) = RUNNING"
    and "ticks s = t0 + of_nat e" "e < n + hi" "n + hi \<le> 2 ^ 32" "1 \<le> hi"
    and "\<forall>ev \<in> set away. away_for p 1 hi ev" and "n \<le> e + length away"
  shows "\<exists>t d. sleep_ticks away t0 (of_nat n) s = Ok 0 t \<and> ticks t = t0 + of_nat d \<and> n \<le> d \<and> d < n + hi \<and>
    cur t = Some p \<and> locks t = [] \<and> state (proc t p) = RUNNING"
  using assms
proof (induction away arbitrary: s e)
  case Nil
  then have "\<not> (of_nat e :: u32) < of_nat n" by (simp add: word_less_nat_alt unat_of_nat)
  with Nil show ?case
    by (intro exI [of _ "s\<lparr>locks := []\<rparr>"] exI [of _ e]) (simp add: sleep_ticks.simps [of "[]"] lock_runs)
next
  case (Cons ev away)
  have test: "(of_nat e :: u32) < of_nat n \<longleftrightarrow> e < n"
    using Cons.prems(6-8) by (simp add: word_less_nat_alt unat_of_nat)
  show ?case
  proof (cases "e < n")
    case False
    with Cons.prems test show ?thesis
      by (intro exI [of _ "s\<lparr>locks := []\<rparr>"] exI [of _ e]) (simp add: sleep_ticks.simps [of "ev # away"] lock_runs)
  next
    case True
    obtain t d where t: "sleep_until ticks_chan tickslock ev s = Ok () t" "ticks t = ticks s + of_nat d" "1 \<le> d" "d \<le> hi"
      "cur t = Some p" "locks t = [tickslock]" "state (proc t p) = RUNNING" "killed (proc t p) = killed (proc s p)"
      using sleep_until_clock [OF Cons.prems(1,2), of hi ev] Cons.prems(9) by auto
    have "sleep_ticks (ev # away) t0 (of_nat n) s = sleep_ticks away t0 (of_nat n) t"
      using Cons.prems(1,3,5) True test t(1)
      by (simp add: sleep_ticks.simps [of "ev # away"] myproc_def get_proc_def)
    moreover have "\<exists>u i. sleep_ticks away t0 (of_nat n) t = Ok 0 u \<and> ticks u = t0 + of_nat i \<and> n \<le> i \<and> i < n + hi \<and>
      cur u = Some p \<and> locks u = [] \<and> state (proc u p) = RUNNING"
      by (rule Cons.IH [of t "e + d"]) (use Cons.prems True t in auto)
    ultimately show ?thesis by simp
  qed
qed

text \<open>
  C16. \<open>sys_sleep\<close> with a non-negative argument \<open>n\<close> waits at least \<open>n\<close> clock ticks, whatever the scheduler
  runs in between. For each of its sleeps the list \<open>away\<close> has what the hart does until the process is
  chosen again. Fairness is the hypothesis: each of those pieces of work ends, has at least one clock
  tick and at most \<open>hi\<close>, and touches this process only through the wakeups of the clock (so nobody kills
  it). Then the call returns 0, with the process running and no lock held, after at least \<open>n\<close> and fewer
  than \<open>n + hi\<close> ticks. The counter may wrap around on the way.
\<close>

theorem sys_sleep_duration:
  assumes "cur s = Some p" and "locks s = []" and "\<not> killed (proc s p)" and "state (proc s p) = RUNNING"
    and arg: "argint 0 s = Ok (int n) s"
    and hi: "1 \<le> hi" "n + hi \<le> 2 ^ 32"
    and fair: "\<forall>ev \<in> set away. away_for p 1 hi ev" "n \<le> length away"
  shows "\<exists>t d. sys_sleep away s = Ok 0 t \<and> ticks t = ticks s + of_nat d \<and> n \<le> d \<and> d < n + hi \<and>
    cur t = Some p \<and> locks t = [] \<and> state (proc t p) = RUNNING"
proof -
  let ?s = "s\<lparr>locks := [tickslock]\<rparr>"
  have "sys_sleep away s = sleep_ticks away (ticks s) (of_nat n) ?s"
    using assms(2) arg by (simp add: sys_sleep_def lock_runs)
  then show ?thesis using sleep_ticks_run [of ?s p "ticks s" 0 n hi away] assms by simp
qed

lemma wakeup_wakes_sleepers_witness:
  "\<exists>s t :: vstate. state (proc s 1) = SLEEPING \<and> wakeup (Chan ''pipe'' 7) s = Ok () t \<and> state (proc t 1) = RUNNABLE"
proof -
  obtain k :: kmem where True by simp
  let ?s = "(demo_on k)\<lparr>proc := (\<lambda>i. if i = 0 then demo_proc else free_proc\<lparr>state := SLEEPING, chan := Some (Chan ''pipe'' 7)\<rparr>)\<rparr>"
  have "\<exists>t. wakeup (Chan ''pipe'' 7) ?s = Ok () t \<and> t = ?s\<lparr>proc := proc t\<rparr> \<and>
    proc t 1 = (if state (proc ?s 1) = SLEEPING \<and> chan (proc ?s 1) = Some (Chan ''pipe'' 7)
      then (proc ?s 1)\<lparr>state := RUNNABLE\<rparr> else proc ?s 1) \<and> (\<forall>q. cur ?s = Some q \<longrightarrow> proc t q = proc ?s q)"
    by (rule wakeup_wakes_sleepers) simp_all
  then obtain t where "wakeup (Chan ''pipe'' 7) ?s = Ok () t" "state (proc t 1) = RUNNABLE" by auto
  then show ?thesis by (intro exI [of _ ?s] exI [of _ t]) simp
qed

lemma yield_returns_witness: "\<exists>s :: vstate. cur s = Some 0 \<and> yield s = Ok () s"
proof -
  obtain k :: kmem where True by simp
  have "yield (demo_on k) = Ok () (demo_on k)" by (rule yield_returns [of _ 0]) simp_all
  then show ?thesis by (intro exI [of _ "demo_on k"]) simp
qed

text \<open>
  The saved register \<open>a0\<close> holds 3. Each sleep is ended by a clock interrupt, but process 1 gets the hart
  first, for a slice in which the clock may tick again.
\<close>

lemma argint_run:
  assumes "cur s = Some p" and "kmapped_range (trapframe (proc s p) + 112) 8"
    and "load64 (mem s) (trapframe (proc s p) + 112) = v"
  shows "argint 0 s = Ok (sint (ucast v :: u32)) s"
  using assms by (simp add: argint_def argraw_def myproc_def tf_get_def get_proc_def kload64_def)

lemma away_shared: "away_for 0 1 2 (bnd clockintr (\<lambda>_. scheduler_step (slice (ret ())) 1))"
proof -
  have "away_for 0 (1 + 0) (1 + 1) (bnd clockintr (\<lambda>_. scheduler_step (slice (ret ())) 1))"
    by (intro away_for_seq away_clockintr away_slice) (simp_all add: minds_own_def)
  then show ?thesis by (simp add: numeral_2_eq_2)
qed

theorem sys_sleep_duration_witness:
  "\<exists>(s :: vstate) t d. cur s = Some 0 \<and> state (proc s 1) = RUNNABLE \<and> argint 0 s = Ok 3 s \<and>
     sys_sleep (replicate 3 (bnd clockintr (\<lambda>_. scheduler_step (slice (ret ())) 1))) s = Ok 0 t \<and>
     ticks t = ticks s + of_nat d \<and> 3 \<le> d \<and> d < 5 \<and> state (proc t 0) = RUNNING"
proof -
  obtain k :: kmem where True by simp
  let ?s = "(demo_on k)\<lparr>mem := store64 (mem k) 0x80000070 3,
    proc := (\<lambda>i. if i = 0 then demo_proc\<lparr>trapframe := 0x80000000\<rparr> else free_proc\<lparr>state := RUNNABLE\<rparr>)\<rparr>"
  let ?away = "replicate 3 (bnd clockintr (\<lambda>_. scheduler_step (slice (ret ())) 1)) :: (vstate, unit) kmon list"
  have "argint 0 ?s = Ok (sint (ucast (3 :: u64) :: u32)) ?s"
    by (rule argint_run [of _ 0]) (simp_all add: kmapped_range_def kmapped_def KERNBASE_def PHYSTOP_def)
  then have arg: "argint 0 ?s = Ok (int 3) ?s" by simp
  have "\<forall>ev \<in> set ?away. away_for 0 1 2 ev" using away_shared by simp
  then have "\<exists>t d. sys_sleep ?away ?s = Ok 0 t \<and> ticks t = ticks ?s + of_nat d \<and> 3 \<le> d \<and> d < 3 + 2 \<and>
    cur t = Some 0 \<and> locks t = [] \<and> state (proc t 0) = RUNNING"
    by (intro sys_sleep_duration [OF _ _ _ _ arg]) simp_all
  then obtain t d where "sys_sleep ?away ?s = Ok 0 t" "ticks t = ticks ?s + of_nat d" "3 \<le> d" "d < 5"
    "state (proc t 0) = RUNNING" by auto
  with arg show ?thesis by - (rule exI [of _ ?s], rule exI [of _ t], rule exI [of _ d], simp)
qed

end
