(* ===== verification/Ring.thy ===== *)
theory Ring
  imports Prelude
begin

text \<open>
  Bounded first-in first-out queues. \<open>bounded_fifo\<close> is the contract that pipes and the transmit
  buffer of the UART implement; \<open>ring_list\<close> is the list a ring buffer with two free-running word
  counters stands for, with the laws of putting and taking an element.
\<close>

section \<open>The contract\<close>

locale bounded_fifo =
  fixes inv :: "'q \<Rightarrow> bool" and contents :: "'q \<Rightarrow> 'e list" and cap :: nat
    and put :: "'e \<Rightarrow> 'q \<Rightarrow> 'q" and first :: "'q \<Rightarrow> 'e" and rest :: "'q \<Rightarrow> 'q"
    and full :: "'q \<Rightarrow> bool" and empty :: "'q \<Rightarrow> bool"
  assumes full_iff: "inv q \<Longrightarrow> full q \<longleftrightarrow> length (contents q) = cap"
    and empty_iff: "inv q \<Longrightarrow> empty q \<longleftrightarrow> contents q = []"
    and bounded: "inv q \<Longrightarrow> length (contents q) \<le> cap"
    and put: "inv q \<Longrightarrow> \<not> full q \<Longrightarrow> inv (put c q) \<and> contents (put c q) = contents q @ [c]"
    and take: "inv q \<Longrightarrow> \<not> empty q \<Longrightarrow> inv (rest q) \<and> contents q = first q # contents (rest q)"
begin

lemma not_full: "inv q \<Longrightarrow> length (contents q) < cap \<Longrightarrow> \<not> full q"
  by (simp add: full_iff)

lemma put_all:
  "inv q \<Longrightarrow> length (contents q) + length cs \<le> cap \<Longrightarrow>
     inv (fold put cs q) \<and> contents (fold put cs q) = contents q @ cs"
proof (induction cs arbitrary: q)
  case (Cons c cs)
  then have "\<not> full q" by (intro not_full) auto
  with Cons show ?case using put [of q c] by simp
qed simp

lemma take_all:
  "inv q \<Longrightarrow> n \<le> length (contents q) \<Longrightarrow>
     inv ((rest ^^ n) q) \<and> contents ((rest ^^ n) q) = drop n (contents q) \<and>
     map (\<lambda>k. first ((rest ^^ k) q)) [0..<n] = List.take n (contents q)"
proof (induction n)
  case (Suc n)
  then have IH: "inv ((rest ^^ n) q)" "contents ((rest ^^ n) q) = drop n (contents q)"
    "map (\<lambda>k. first ((rest ^^ k) q)) [0..<n] = List.take n (contents q)" by auto
  have ne: "\<not> empty ((rest ^^ n) q)" using empty_iff [OF IH(1)] IH(2) Suc.prems(2) by simp
  have "drop n (contents q) = first ((rest ^^ n) q) # contents (rest ((rest ^^ n) q))"
    using take [OF IH(1) ne] IH(2) by simp
  then have "contents (rest ((rest ^^ n) q)) = drop (Suc n) (contents q)" "first ((rest ^^ n) q) = contents q ! n"
    using Suc.prems(2) by (metis Cons_nth_drop_Suc Suc_le_lessD list.inject)+
  with take [OF IH(1) ne] IH(3) Suc.prems(2) show ?case by (simp add: take_Suc_conv_app_nth)
qed simp

text \<open>What goes in comes out, in order.\<close>

lemma round_trip:
  assumes "inv q" "contents q = []" "length cs \<le> cap"
  shows "map (\<lambda>k. first ((rest ^^ k) (fold put cs q))) [0..<length cs] = cs"
  using put_all [of q cs] take_all [of "fold put cs q" "length cs"] assms by simp

end

section \<open>Rings with word counters\<close>

definition ring_list :: "'e list \<Rightarrow> 'w::len word \<Rightarrow> 'w word \<Rightarrow> 'e list" where
  "ring_list buf r w = map (\<lambda>k. buf ! ((unat r + k) mod length buf)) [0..<unat (w - r)]"

definition ring_ok :: "nat \<Rightarrow> 'e list \<Rightarrow> 'w::len word \<Rightarrow> 'w word \<Rightarrow> bool" where
  "ring_ok n buf r w \<longleftrightarrow> length buf = n \<and> 0 < n \<and> n < 2 ^ LENGTH('w) \<and> n dvd 2 ^ LENGTH('w) \<and> unat (w - r) \<le> n"

lemma length_ring_list [simp]: "length (ring_list buf r w) = unat (w - r)"
  by (simp add: ring_list_def)

lemma unat_mod_ring:
  assumes "n dvd 2 ^ LENGTH('w)"
  shows "unat (r + v :: 'w::len word) mod n = (unat r + unat v) mod n"
  using assms by (simp add: unat_word_ariths mod_mod_cancel)

lemma ring_full:
  fixes r w :: "'w::len word"
  assumes ok: "ring_ok n buf r w"
  shows "w = r + of_nat n \<longleftrightarrow> length (ring_list buf r w) = n"
proof -
  from ok have "unat (of_nat n :: 'w word) = n" by (simp add: ring_ok_def unat_of_nat)
  moreover have "w = r + of_nat n \<longleftrightarrow> w - r = of_nat n" by (auto simp: algebra_simps)
  ultimately show ?thesis by (auto simp: word_unat_eq_iff)
qed

lemma ring_empty: "r = w \<longleftrightarrow> ring_list buf r w = []"
  by (metis length_0_conv length_ring_list right_minus_eq unat_eq_zero)

lemma ring_put:
  fixes r w :: "'w::len word"
  assumes ok: "ring_ok n buf r w" and room: "w \<noteq> r + of_nat n"
  shows "ring_ok n (buf[unat w mod n := c]) r (w + 1)"
    and "ring_list (buf[unat w mod n := c]) r (w + 1) = ring_list buf r w @ [c]"
proof -
  note o = ok [unfolded ring_ok_def]
  let ?m = "unat (w - r)"
  have lt: "?m < n" using room ring_full [OF ok] o by simp
  have "unat ((w - r) + 1) = Suc ?m" using lt o unat_plus_if' [of "w - r" 1] by simp
  moreover have "(w - r) + 1 = w + 1 - r" by simp
  ultimately have m1: "unat (w + 1 - r) = Suc ?m" by (simp only:)
  then show "ring_ok n (buf[unat w mod n := c]) r (w + 1)" using o lt by (simp add: ring_ok_def)
  have w: "unat w mod n = (unat r + ?m) mod n"
    using unat_mod_ring [of n r "w - r"] o by simp
  have ne: "(unat r + k) mod n \<noteq> (unat r + ?m) mod n" if "k < ?m" for k
  proof
    assume "(unat r + k) mod n = (unat r + ?m) mod n"
    then have "n dvd (unat r + ?m) - (unat r + k)" by (metis mod_eq_dvd_iff_nat add_le_cancel_left less_or_eq_imp_le that)
    with that lt show False by (auto dest: dvd_imp_le)
  qed
  have "map (\<lambda>k. buf[unat w mod n := c] ! ((unat r + k) mod n)) [0..<?m] = map (\<lambda>k. buf ! ((unat r + k) mod n)) [0..<?m]"
    using ne w by (intro map_cong refl nth_list_update_neq) (metis atLeastLessThan_iff set_upt)
  moreover have "buf[unat w mod n := c] ! ((unat r + ?m) mod n) = c"
    using w o by (simp add: nth_list_update_eq)
  ultimately show "ring_list (buf[unat w mod n := c]) r (w + 1) = ring_list buf r w @ [c]"
    using o m1 by (simp add: ring_list_def)
qed

lemma ring_take:
  fixes r w :: "'w::len word"
  assumes ok: "ring_ok n buf r w" and ne: "r \<noteq> w"
  shows "ring_ok n buf (r + 1) w"
    and "ring_list buf r w = buf ! (unat r mod n) # ring_list buf (r + 1) w"
proof -
  note o = ok [unfolded ring_ok_def]
  let ?m = "unat (w - r)"
  have nz: "w - r \<noteq> 0" using ne by simp
  then have "unat (w - r - 1) = ?m - 1" by (subst unat_sub) (simp_all add: word_le_nat_alt Suc_le_eq unat_gt_0)
  moreover have "w - (r + 1) = w - r - 1" by simp
  moreover have "0 < ?m" using nz by (simp add: unat_gt_0)
  ultimately have m1: "Suc (unat (w - (r + 1))) = ?m" by (simp only:)
  then show "ring_ok n buf (r + 1) w" using o by (simp add: ring_ok_def)
  have "(unat (r + 1) + k) mod n = (unat r + Suc k) mod n" for k
  proof -
    have "unat (r + 1) mod n = (unat r + 1) mod n" using unat_mod_ring [of n r 1] o by simp
    then show ?thesis by (metis add.assoc mod_add_left_eq plus_1_eq_Suc)
  qed
  then have "map (\<lambda>k. buf ! ((unat (r + 1) + k) mod n)) [0..<unat (w - (r + 1))] =
      map (\<lambda>k. buf ! ((unat r + k) mod n)) (map Suc [0..<unat (w - (r + 1))])"
    by simp
  also have "map Suc [0..<unat (w - (r + 1))] = [1..<?m]" by (simp add: map_Suc_upt m1)
  finally have "ring_list buf (r + 1) w = map (\<lambda>k. buf ! ((unat r + k) mod n)) [1..<?m]"
    using o by (simp add: ring_list_def)
  moreover have "[0..<?m] = 0 # [1..<?m]" using m1 by (metis upt_conv_Cons zero_less_Suc One_nat_def)
  ultimately show "ring_list buf r w = buf ! (unat r mod n) # ring_list buf (r + 1) w"
    using o by (simp add: ring_list_def)
qed

end
