(* ===== verification/Pipe_Spec.thy ===== *)
theory Pipe_Spec
  imports Proc_Spec Ring Pagetable_Spec
begin

text \<open>
  Pipes refine a bounded queue of bytes: the ring in \<open>struct pipe\<close> is an instance of the queue
  contract, \<open>pipewrite\<close> appends bytes of user memory to it and \<open>piperead\<close> delivers them.
\<close>

section \<open>The ring of a pipe\<close>

definition pipe_inv :: "pipe \<Rightarrow> bool" where
  "pipe_inv q \<longleftrightarrow> ring_ok PIPESIZE (pdata q) (nread q) (nwrite q)"

definition pipe_bytes :: "pipe \<Rightarrow> u8 list" where
  "pipe_bytes q = ring_list (pdata q) (nread q) (nwrite q)"

interpretation pipe_ring: bounded_fifo pipe_inv pipe_bytes PIPESIZE pipe_put pipe_head pipe_drop pipe_full pipe_empty
proof unfold_locales
  fix q c
  assume inv: "pipe_inv q"
  note ok = inv [unfolded pipe_inv_def]
  show "pipe_full q \<longleftrightarrow> length (pipe_bytes q) = PIPESIZE"
    using ring_full [OF ok] by (simp add: pipe_full_def pipe_bytes_def)
  show "pipe_empty q \<longleftrightarrow> pipe_bytes q = []"
    by (simp add: pipe_empty_def pipe_bytes_def ring_empty)
  show "length (pipe_bytes q) \<le> PIPESIZE" using ok by (simp add: ring_ok_def pipe_bytes_def)
  show "pipe_inv (pipe_put c q) \<and> pipe_bytes (pipe_put c q) = pipe_bytes q @ [c]" if "\<not> pipe_full q"
    using ring_put [OF ok] that by (simp add: pipe_full_def pipe_inv_def pipe_bytes_def pipe_put_def)
  show "pipe_inv (pipe_drop q) \<and> pipe_bytes q = pipe_head q # pipe_bytes (pipe_drop q)" if "\<not> pipe_empty q"
    using ring_take [OF ok] that by (simp add: pipe_empty_def pipe_inv_def pipe_bytes_def pipe_drop_def pipe_head_def)
qed

lemma pipe_put_open [simp]: "readopen (pipe_put c q) = readopen q" "writeopen (pipe_put c q) = writeopen q"
  by (simp_all add: pipe_put_def)

lemma pipe_drop_open [simp]: "readopen (pipe_drop q) = readopen q" "writeopen (pipe_drop q) = writeopen q"
  by (simp_all add: pipe_drop_def)

section \<open>Bytes of user memory\<close>

definition user_bytes :: "(u64 \<Rightarrow> u8) \<Rightarrow> u64 \<Rightarrow> u64 \<Rightarrow> nat \<Rightarrow> u8 list" where
  "user_bytes m r va n = map (\<lambda>i. the (ubyte m r (va + of_nat i))) [0..<n]"

definition user_range :: "(u64 \<Rightarrow> u8) \<Rightarrow> u64 \<Rightarrow> u64 \<Rightarrow> nat \<Rightarrow> bool" where
  "user_range m r va n \<longleftrightarrow> umem_ok m r \<and> unat va + n \<le> 2 ^ 38 \<and>
     (\<forall>x. unat va \<le> unat x \<and> unat x < unat va + n \<longrightarrow> user_page m r x \<noteq> None)"

lemma user_range_byte:
  assumes "user_range m r va (Suc n)"
  shows "user_range m r va 1" and "user_range m r (va + 1) n"
proof -
  have u: "unat (va + 1) = unat va + 1"
    using assms unat_add_of_nat [of va 1] by (simp add: user_range_def)
  show "user_range m r va 1" "user_range m r (va + 1) n"
    using assms unfolding user_range_def u by auto
qed

lemma user_bytes_Suc: "user_bytes m r va (Suc n) = the (ubyte m r va) # user_bytes m r (va + 1) n"
proof -
  have "[0..<Suc n] = 0 # map Suc [0..<n]" by (simp add: map_Suc_upt upt_conv_Cons del: upt_Suc)
  then show ?thesis by (simp add: user_bytes_def algebra_simps del: upt_Suc)
qed

lemma copyin_byte: "user_range (mem s) r va 1 \<Longrightarrow> copyin r va 1 s = Ok (0, [the (ubyte (mem s) r va)]) s"
  using copyin_user [of s r va 1] by (simp add: user_range_def)

section \<open>The copy loops\<close>

lemma pipewrite_loop_run:
  assumes "pipe_inv (pipes s pi)" and "length (pipe_bytes (pipes s pi)) + n \<le> PIPESIZE"
    and "readopen (pipes s pi)" and "\<not> killed (proc s p)"
    and "user_range (mem s) (pagetable (proc s p)) (addr + of_nat i) n"
  shows "pipewrite_loop pi p addr i n s = Ok (Inr (i + n)) (s\<lparr>pipes := (pipes s)(pi :=
     fold pipe_put (user_bytes (mem s) (pagetable (proc s p)) (addr + of_nat i) n) (pipes s pi))\<rparr>)"
  using assms
proof (induction n arbitrary: i s)
  case 0
  then show ?case by (simp add: user_bytes_def)
next
  case (Suc n)
  let ?q = "pipes s pi" and ?r = "pagetable (proc s p)"
  let ?c = "the (ubyte (mem s) ?r (addr + of_nat i))"
  have nf: "\<not> pipe_full ?q" using Suc.prems(1,2) by (intro pipe_ring.not_full) auto
  have rng: "user_range (mem s) ?r (addr + of_nat i) 1" "user_range (mem s) ?r (addr + of_nat (Suc i)) n"
    using user_range_byte [OF Suc.prems(5)] by (simp_all add: algebra_simps)
  let ?t = "s\<lparr>pipes := (pipes s)(pi := pipe_put ?c ?q)\<rparr>"
  have "pipewrite_loop pi p addr i (Suc n) s = pipewrite_loop pi p addr (Suc i) n ?t"
    using Suc.prems nf copyin_byte [OF rng(1)] by (simp add: get_pipe_def get_proc_def upd_pipe_def)
  also have "\<dots> = Ok (Inr (Suc i + n)) (?t\<lparr>pipes := (pipes ?t)(pi :=
     fold pipe_put (user_bytes (mem ?t) (pagetable (proc ?t p)) (addr + of_nat (Suc i)) n) (pipes ?t pi))\<rparr>)"
    by (rule Suc.IH) (use Suc.prems pipe_ring.put [OF Suc.prems(1) nf, of ?c] rng(2) in simp_all)
  also have "?t\<lparr>pipes := (pipes ?t)(pi := Y)\<rparr> = s\<lparr>pipes := (pipes s)(pi := Y)\<rparr>" for Y by simp
  finally have run: "pipewrite_loop pi p addr i (Suc n) s = Ok (Inr (Suc i + n)) (s\<lparr>pipes := (pipes s)(pi :=
     fold pipe_put (user_bytes (mem s) ?r (addr + of_nat (Suc i)) n) (pipe_put ?c ?q))\<rparr>)" by simp
  have "user_bytes (mem s) ?r (addr + of_nat i) (Suc n) = ?c # user_bytes (mem s) ?r (addr + of_nat (Suc i)) n"
    using user_bytes_Suc [of "mem s" ?r "addr + of_nat i" n] by (simp add: algebra_simps)
  then show ?case using run by (simp only: fold_simps add_Suc add_Suc_right)
qed

lemma copyout_byte:
  assumes "user_range (mem s) r va 1"
  shows "\<exists>m. copyout r va [c] s = Ok 0 (s\<lparr>mem := m\<rparr>) \<and> umem_ok m r \<and>
     (\<forall>x. user_page m r x = user_page (mem s) r x) \<and>
     (\<forall>x. ubyte m r x = (if x = va then Some c else ubyte (mem s) r x))"
proof -
  have iff: "unat va \<le> unat x \<and> unat x < unat va + length [c] \<longleftrightarrow> x = va" for x
    by (auto simp: word_unat_eq_iff)
  have "umem_ok (mem s) r" "unat va + length [c] \<le> 2 ^ 38"
    "\<And>x. unat va \<le> unat x \<Longrightarrow> unat x < unat va + length [c] \<Longrightarrow> user_page (mem s) r x \<noteq> None"
    using assms by (auto simp: user_range_def)
  from copyout_user [OF this] obtain m where m: "copyout r va [c] s = Ok 0 (s\<lparr>mem := m\<rparr>)" "umem_ok m r"
    "\<forall>x. user_page m r x = user_page (mem s) r x"
    "\<forall>x. ubyte m r x = (if unat va \<le> unat x \<and> unat x < unat va + length [c] then Some ([c] ! (unat x - unat va)) else ubyte (mem s) r x)"
    by auto
  have "ubyte m r x = (if x = va then Some c else ubyte (mem s) r x)" for x
    using m(4) [rule_format, of x] unfolding iff by auto
  with m show ?thesis by blast
qed

lemma piperead_loop_run:
  assumes "pipe_inv (pipes s pi)" and "n \<le> length (pipe_bytes (pipes s pi))"
    and "user_range (mem s) (pagetable (proc s p)) (addr + of_nat i) n"
  shows "\<exists>m. piperead_loop pi p addr i n s = Ok (i + n) (s\<lparr>pipes := (pipes s)(pi := (pipe_drop ^^ n) (pipes s pi)), mem := m\<rparr>) \<and>
     umem_ok m (pagetable (proc s p)) \<and> (\<forall>x. user_page m (pagetable (proc s p)) x = user_page (mem s) (pagetable (proc s p)) x) \<and>
     (\<forall>k < n. ubyte m (pagetable (proc s p)) (addr + of_nat (i + k)) = Some (pipe_bytes (pipes s pi) ! k)) \<and>
     (\<forall>x. unat x < unat (addr + of_nat i) \<longrightarrow>
        ubyte m (pagetable (proc s p)) x = ubyte (mem s) (pagetable (proc s p)) x)"
  using assms
proof (induction n arbitrary: i s)
  case 0
  then show ?case by (intro exI [of _ "mem s"]) (simp add: user_range_def)
next
  case (Suc n)
  let ?q = "pipes s pi" and ?r = "pagetable (proc s p)" and ?va = "addr + of_nat i"
  have ne: "\<not> pipe_empty ?q" using Suc.prems(1,2) by (auto simp: pipe_ring.empty_iff)
  note tk = pipe_ring.take [OF Suc.prems(1) ne]
  have rng: "user_range (mem s) ?r ?va 1" "user_range (mem s) ?r (addr + of_nat (Suc i)) n"
    using user_range_byte [OF Suc.prems(3)] by (simp_all add: algebra_simps)
  let ?u = "s\<lparr>pipes := (pipes s)(pi := pipe_drop ?q)\<rparr>"
  from copyout_byte [of ?u ?r ?va "pipe_head ?q"] rng(1) obtain m where
    m: "copyout ?r ?va [pipe_head ?q] ?u = Ok 0 (?u\<lparr>mem := m\<rparr>)" "umem_ok m ?r"
      "\<forall>x. user_page m ?r x = user_page (mem s) ?r x"
      "\<forall>x. ubyte m ?r x = (if x = ?va then Some (pipe_head ?q) else ubyte (mem s) ?r x)"
    by auto
  let ?t = "?u\<lparr>mem := m\<rparr>"
  have step: "piperead_loop pi p addr i (Suc n) s = piperead_loop pi p addr (Suc i) n ?t"
    using ne m(1) by (simp add: get_pipe_def get_proc_def upd_pipe_def)
  have "pipe_inv (pipes ?t pi)" "n \<le> length (pipe_bytes (pipes ?t pi))"
    "user_range (mem ?t) (pagetable (proc ?t p)) (addr + of_nat (Suc i)) n"
    using tk Suc.prems(2) rng(2) m(2,3) by (auto simp: user_range_def)
  note IH = Suc.IH [OF this]
  have upd: "?t\<lparr>pipes := (pipes ?t)(pi := Y), mem := m'\<rparr> = s\<lparr>pipes := (pipes s)(pi := Y), mem := m'\<rparr>" for Y m' by simp
  from IH [unfolded upd] obtain m' where
    m': "piperead_loop pi p addr (Suc i) n ?t =
        Ok (Suc i + n) (s\<lparr>pipes := (pipes s)(pi := (pipe_drop ^^ n) (pipe_drop ?q)), mem := m'\<rparr>)"
      "umem_ok m' ?r" "\<forall>x. user_page m' ?r x = user_page m ?r x"
      "\<forall>k < n. ubyte m' ?r (addr + of_nat (Suc i + k)) = Some (pipe_bytes (pipe_drop ?q) ! k)"
      "\<forall>x. unat x < unat (addr + of_nat (Suc i)) \<longrightarrow> ubyte m' ?r x = ubyte m ?r x"
    by auto
  have lt: "unat (addr + of_nat (Suc i)) = unat ?va + 1"
    using Suc.prems(3) unat_add_of_nat [of ?va 1] by (simp add: user_range_def algebra_simps)
  have byte: "ubyte m' ?r (addr + of_nat (i + k)) = Some (pipe_bytes ?q ! k)" if "k < Suc n" for k
  proof (cases k)
    case 0
    then show ?thesis using m'(5) lt m(4) tk by simp
  next
    case (Suc j)
    then show ?thesis using m'(4) that tk by simp
  qed
  have low: "ubyte m' ?r x = ubyte (mem s) ?r x" if "unat x < unat ?va" for x
    using m'(5) [rule_format, of x] m(4) [rule_format, of x] lt that by auto
  have "(pipe_drop ^^ n) (pipe_drop ?q) = (pipe_drop ^^ Suc n) ?q" by (simp add: funpow_swap1)
  then have run: "piperead_loop pi p addr i (Suc n) s =
      Ok (i + Suc n) (s\<lparr>pipes := (pipes s)(pi := (pipe_drop ^^ Suc n) ?q), mem := m'\<rparr>)"
    by (simp only: step m'(1) add_Suc add_Suc_right)
  show ?case
    by (rule exI [of _ m'], intro conjI allI impI, rule run) (use m'(2,3) m(3) byte low in auto)
qed

section \<open>Writing and reading\<close>

lemma pipewrite_run:
  assumes "cur s = Some p" and "locks s = []"
    and "pipe_inv (pipes s pi)" and "length (pipe_bytes (pipes s pi)) + n \<le> PIPESIZE"
    and "readopen (pipes s pi)" and "\<not> killed (proc s p)" and "user_range (mem s) (pagetable (proc s p)) addr n"
  shows "pipewrite pi addr (int n) s = Ok (int n) (s\<lparr>pipes := (pipes s)(pi :=
     fold pipe_put (user_bytes (mem s) (pagetable (proc s p)) addr n) (pipes s pi)),
     proc := woken (nread_chan pi) s [0..<NPROC]\<rparr>)"
proof -
  let ?s = "s\<lparr>locks := [pipe_lock pi]\<rparr>"
  let ?Q = "fold pipe_put (user_bytes (mem s) (pagetable (proc s p)) addr n) (pipes s pi)"
  let ?t = "?s\<lparr>pipes := (pipes s)(pi := ?Q)\<rparr>"
  have "pipewrite_loop pi p addr 0 n ?s = Ok (Inr (0 + n)) (?s\<lparr>pipes := (pipes ?s)(pi :=
     fold pipe_put (user_bytes (mem ?s) (pagetable (proc ?s p)) (addr + of_nat 0) n) (pipes ?s pi))\<rparr>)"
    by (rule pipewrite_loop_run) (use assms in simp_all)
  then have loop: "pipewrite_loop pi p addr 0 n ?s = Ok (Inr n) ?t" by simp
  have wk: "wakeup (nread_chan pi) ?t = Ok () (?t\<lparr>proc := woken (nread_chan pi) ?t [0..<NPROC]\<rparr>)"
    by (rule wakeup_run) simp
  have "woken (nread_chan pi) ?t [0..<NPROC] = woken (nread_chan pi) s [0..<NPROC]" by (rule woken_cong) simp_all
  moreover have "s\<lparr>pipes := P, proc := f, locks := []\<rparr> = s\<lparr>pipes := P, proc := f\<rparr>" for P f
    using assms(2) by (cases s) auto
  ultimately show ?thesis
    using assms(1,2) loop wk by (simp add: pipewrite_def myproc_def lock_runs)
qed

lemma piperead_run:
  assumes "cur s = Some p" and "locks s = []"
    and "pipe_inv (pipes s pi)" and "n \<le> length (pipe_bytes (pipes s pi))" and "0 < n"
    and "user_range (mem s) (pagetable (proc s p)) addr n"
  shows "\<exists>m. piperead pi addr (int n) s = Ok (int n) (s\<lparr>pipes := (pipes s)(pi := (pipe_drop ^^ n) (pipes s pi)), mem := m,
       proc := woken (nwrite_chan pi) s [0..<NPROC]\<rparr>) \<and>
     (\<forall>k < n. ubyte m (pagetable (proc s p)) (addr + of_nat k) = Some (pipe_bytes (pipes s pi) ! k))"
proof -
  let ?s = "s\<lparr>locks := [pipe_lock pi]\<rparr>"
  from piperead_loop_run [of ?s pi n p addr 0] assms obtain m where
    m: "piperead_loop pi p addr 0 n ?s = Ok n (?s\<lparr>pipes := (pipes s)(pi := (pipe_drop ^^ n) (pipes s pi)), mem := m\<rparr>)"
      "\<forall>k < n. ubyte m (pagetable (proc s p)) (addr + of_nat k) = Some (pipe_bytes (pipes s pi) ! k)"
    by auto
  let ?t = "?s\<lparr>pipes := (pipes s)(pi := (pipe_drop ^^ n) (pipes s pi)), mem := m\<rparr>"
  have ne: "\<not> pipe_empty (pipes s pi)" using assms(3,4,5) by (auto simp: pipe_ring.empty_iff)
  have wk: "wakeup (nwrite_chan pi) ?t = Ok () (?t\<lparr>proc := woken (nwrite_chan pi) ?t [0..<NPROC]\<rparr>)"
    by (rule wakeup_run) simp
  have "woken (nwrite_chan pi) ?t [0..<NPROC] = woken (nwrite_chan pi) s [0..<NPROC]" by (rule woken_cong) simp_all
  moreover have "s\<lparr>pipes := P, mem := m, proc := f, locks := []\<rparr> = s\<lparr>pipes := P, mem := m, proc := f\<rparr>" for P f
    using assms(2) by (cases s) auto
  ultimately show ?thesis
    using assms(1,2) m wk ne by (intro exI [of _ m]) (simp add: piperead_def myproc_def get_pipe_def lock_runs)
qed

text \<open>
  C20. \<open>pipewrite\<close> implements appending to the queue: with room for \<open>n\<close> bytes and an open reader it
  returns \<open>n\<close>, the bytes in the pipe are the old ones followed by the \<open>n\<close> bytes of the user's
  buffer, the capacity is not exceeded, memory and locks are unchanged and every reader that
  sleeps on the pipe is woken.
\<close>

theorem pipewrite_appends:
  assumes "cur s = Some p" and "locks s = []"
    and "pipe_inv (pipes s pi)" and "length (pipe_bytes (pipes s pi)) + n \<le> PIPESIZE"
    and "readopen (pipes s pi)" and "\<not> killed (proc s p)" and "user_range (mem s) (pagetable (proc s p)) addr n"
  shows "\<exists>t. pipewrite pi addr (int n) s = Ok (int n) t \<and> pipe_inv (pipes t pi) \<and>
     pipe_bytes (pipes t pi) = pipe_bytes (pipes s pi) @ user_bytes (mem s) (pagetable (proc s p)) addr n \<and>
     length (pipe_bytes (pipes t pi)) \<le> PIPESIZE \<and> mem t = mem s \<and> locks t = [] \<and>
     (\<forall>q < NPROC. cur s \<noteq> Some q \<longrightarrow> proc t q = wakeup1 (nread_chan pi) (proc s q))"
proof -
  have "pipe_inv (fold pipe_put cs (pipes s pi)) \<and> pipe_bytes (fold pipe_put cs (pipes s pi)) = pipe_bytes (pipes s pi) @ cs"
    if "cs = user_bytes (mem s) (pagetable (proc s p)) addr n" for cs
    using assms(3,4) that by (intro pipe_ring.put_all) (simp_all add: user_bytes_def)
  with pipewrite_run [OF assms] assms(2,4) show ?thesis
    by (auto simp: woken_def user_bytes_def)
qed

text \<open>
  C21. A pipe delivers what was written: \<open>n\<close> bytes (at most the capacity) written by one process to
  an empty pipe are read by another process, in order, into its own memory.
\<close>

theorem pipe_round_trip:
  assumes "cur s = Some p" and "locks s = []"
    and "pipe_inv (pipes s pi)" and "pipe_bytes (pipes s pi) = []" and n: "0 < n" "n \<le> PIPESIZE"
    and "readopen (pipes s pi)" and "\<not> killed (proc s p)"
    and "user_range (mem s) (pagetable (proc s p)) src n" and "user_range (mem s) (pagetable (proc s p')) dst n"
  shows "\<exists>t u. pipewrite pi src (int n) s = Ok (int n) t \<and>
     piperead pi dst (int n) (t\<lparr>cur := Some p'\<rparr>) = Ok (int n) u \<and> pipe_bytes (pipes u pi) = [] \<and>
     user_bytes (mem u) (pagetable (proc u p')) dst n = user_bytes (mem s) (pagetable (proc s p)) src n"
proof -
  let ?cs = "user_bytes (mem s) (pagetable (proc s p)) src n"
  let ?Q = "fold pipe_put ?cs (pipes s pi)"
  let ?t = "s\<lparr>pipes := (pipes s)(pi := ?Q), proc := woken (nread_chan pi) s [0..<NPROC]\<rparr>"
  have w: "pipewrite pi src (int n) s = Ok (int n) ?t"
    by (rule pipewrite_run) (use assms in simp_all)
  have Q: "pipe_inv ?Q" "pipe_bytes ?Q = ?cs"
    using pipe_ring.put_all [of "pipes s pi" ?cs] assms(3,4) n by (simp_all add: user_bytes_def)
  have pt: "pagetable (woken ch x ps q) = pagetable (proc x q)" for ch ps q and x :: "'a pipes_scheme"
    by (simp add: woken_def wakeup1_def)
  have "\<exists>m. piperead pi dst (int n) (?t\<lparr>cur := Some p'\<rparr>) = Ok (int n) (?t\<lparr>cur := Some p',
       pipes := (pipes ?t)(pi := (pipe_drop ^^ n) (pipes ?t pi)), mem := m,
       proc := woken (nwrite_chan pi) (?t\<lparr>cur := Some p'\<rparr>) [0..<NPROC]\<rparr>) \<and>
     (\<forall>k < n. ubyte m (pagetable (proc s p')) (dst + of_nat k) = Some (?cs ! k))"
    using piperead_run [of "?t\<lparr>cur := Some p'\<rparr>" p' pi n dst] Q assms(2,10) n
    by (simp add: user_bytes_def pt)
  then obtain m where
    m: "piperead pi dst (int n) (?t\<lparr>cur := Some p'\<rparr>) = Ok (int n) (?t\<lparr>cur := Some p',
       pipes := (pipes ?t)(pi := (pipe_drop ^^ n) (pipes ?t pi)), mem := m,
       proc := woken (nwrite_chan pi) (?t\<lparr>cur := Some p'\<rparr>) [0..<NPROC]\<rparr>)" (is "_ = Ok _ ?u")
      "\<forall>k < n. ubyte m (pagetable (proc s p')) (dst + of_nat k) = Some (?cs ! k)" by blast
  have "user_bytes m (pagetable (proc s p')) dst n = ?cs"
    by (rule nth_equalityI) (use m(2) in \<open>auto simp: user_bytes_def\<close>)
  then have "user_bytes (mem ?u) (pagetable (proc ?u p')) dst n = ?cs" by (simp add: pt)
  moreover have "pipe_bytes (pipes ?u pi) = []"
    using pipe_ring.take_all [OF Q(1), of n] Q(2) by (simp add: user_bytes_def)
  ultimately show ?thesis using w m(1) by blast
qed

section \<open>A concrete pipe\<close>

definition demo_pipe :: "kmem \<Rightarrow> vstate" where
  "demo_pipe k = (demo_on k)\<lparr>proc := (\<lambda>i. if i < 2 then demo_proc\<lparr>pagetable := demo_root\<rparr> else free_proc),
     pipes := (\<lambda>_. \<lparr>pdata = replicate 512 0, nread = 0, nwrite = 0, readopen = True, writeopen = True\<rparr>)\<rparr>"

lemma demo_pipe_ok:
  assumes "umem_ok (mem k) demo_root"
    and "\<And>x. 0x1000 \<le> unat x \<Longrightarrow> unat x < 0x2000 \<Longrightarrow> user_page (mem k) demo_root x \<noteq> None"
  shows "cur (demo_pipe k) = Some 0" "locks (demo_pipe k) = []" "pipe_inv (pipes (demo_pipe k) 0)"
    "pipe_bytes (pipes (demo_pipe k) 0) = []" "readopen (pipes (demo_pipe k) 0)" "\<not> killed (proc (demo_pipe k) 0)"
    "user_range (mem (demo_pipe k)) (pagetable (proc (demo_pipe k) 0)) 0x1000 3"
    "user_range (mem (demo_pipe k)) (pagetable (proc (demo_pipe k) 1)) 0x1800 3"
  using assms by (auto simp: demo_pipe_def pipe_inv_def pipe_bytes_def ring_ok_def ring_list_def user_range_def)

theorem pipewrite_appends_witness:
  "\<exists>(s :: vstate) t. pipewrite 0 0x1000 3 s = Ok 3 t \<and> length (pipe_bytes (pipes t 0)) = 3 \<and> mem t = mem s"
proof -
  obtain k :: kmem where k: "umem_ok (mem k) demo_root"
    "\<And>x. 0x1000 \<le> unat x \<Longrightarrow> unat x < 0x2000 \<Longrightarrow> user_page (mem k) demo_root x \<noteq> None"
    by (rule demo_user) (rule that; assumption)
  note d = demo_pipe_ok [of k, OF k]
  from pipewrite_appends [of "demo_pipe k" 0 0 3 "0x1000"] d
  obtain t where "pipewrite 0 0x1000 3 (demo_pipe k) = Ok 3 t" "length (pipe_bytes (pipes t 0)) = 3" "mem t = mem (demo_pipe k)"
    by (auto simp: user_bytes_def)
  then show ?thesis by blast
qed

theorem pipe_round_trip_witness:
  "\<exists>(s :: vstate) t u. pipewrite 0 0x1000 3 s = Ok 3 t \<and> piperead 0 0x1800 3 (t\<lparr>cur := Some 1\<rparr>) = Ok 3 u \<and>
     user_bytes (mem u) (pagetable (proc u 1)) 0x1800 3 = user_bytes (mem s) (pagetable (proc s 0)) 0x1000 3"
proof -
  obtain k :: kmem where k: "umem_ok (mem k) demo_root"
    "\<And>x. 0x1000 \<le> unat x \<Longrightarrow> unat x < 0x2000 \<Longrightarrow> user_page (mem k) demo_root x \<noteq> None"
    by (rule demo_user) (rule that; assumption)
  note d = demo_pipe_ok [of k, OF k]
  from pipe_round_trip [of "demo_pipe k" 0 0 3 "0x1000" 1 "0x1800"] d
  obtain t u where "pipewrite 0 0x1000 3 (demo_pipe k) = Ok 3 t" "piperead 0 0x1800 3 (t\<lparr>cur := Some 1\<rparr>) = Ok 3 u"
    "user_bytes (mem u) (pagetable (proc u 1)) 0x1800 3 = user_bytes (mem (demo_pipe k)) (pagetable (proc (demo_pipe k) 0)) 0x1000 3"
    by auto
  then show ?thesis by blast
qed

end
