(* ===== verification/Console_Spec.thy ===== *)
theory Console_Spec
  imports Proc_Spec Ring
begin

unbundle bit_operations_syntax

text \<open>
  Console output: the transmit ring of the UART keeps the order of the bytes and loses none, and
  \<open>printint\<close> prints the number it is given within its buffer.
\<close>

section \<open>The transmit ring\<close>

text \<open>The bytes accepted by \<open>uartputc\<close> and not yet given to the device.\<close>

definition uart_pending :: "'z console_scheme \<Rightarrow> u8 list" where
  "uart_pending s = ring_list (uart_tx_buf s) (uart_tx_r s) (uart_tx_w s)"

definition uart_inv :: "'z console_scheme \<Rightarrow> bool" where
  "uart_inv s \<longleftrightarrow> ring_ok UART_TX_BUF_SIZE (uart_tx_buf s) (uart_tx_r s) (uart_tx_w s)"

definition uart_put :: "u8 \<Rightarrow> 'z console_scheme \<Rightarrow> 'z console_scheme" where
  "uart_put c s = s\<lparr>uart_tx_buf := (uart_tx_buf s)[unat (uart_tx_w s) mod UART_TX_BUF_SIZE := c],
     uart_tx_w := uart_tx_w s + 1\<rparr>"

definition uart_first :: "'z console_scheme \<Rightarrow> u8" where
  "uart_first s = uart_tx_buf s ! (unat (uart_tx_r s) mod UART_TX_BUF_SIZE)"

definition uart_rest :: "'z console_scheme \<Rightarrow> 'z console_scheme" where
  "uart_rest s = s\<lparr>uart_tx_r := uart_tx_r s + 1\<rparr>"

interpretation uart_ring: bounded_fifo uart_inv uart_pending UART_TX_BUF_SIZE uart_put uart_first uart_rest
  "\<lambda>s. uart_tx_w s = uart_tx_r s + of_nat UART_TX_BUF_SIZE" "\<lambda>s. uart_tx_w s = uart_tx_r s"
proof unfold_locales
  fix s :: "'z console_scheme" and c
  assume inv: "uart_inv s"
  note ok = inv [unfolded uart_inv_def]
  show "uart_tx_w s = uart_tx_r s + of_nat UART_TX_BUF_SIZE \<longleftrightarrow> length (uart_pending s) = UART_TX_BUF_SIZE"
    using ring_full [OF ok] by (simp add: uart_pending_def)
  show "uart_tx_w s = uart_tx_r s \<longleftrightarrow> uart_pending s = []"
    using ring_empty [of "uart_tx_r s" "uart_tx_w s" "uart_tx_buf s"] by (auto simp: uart_pending_def)
  show "length (uart_pending s) \<le> UART_TX_BUF_SIZE" using ok by (simp add: ring_ok_def uart_pending_def)
  show "uart_inv (uart_put c s) \<and> uart_pending (uart_put c s) = uart_pending s @ [c]"
    if "uart_tx_w s \<noteq> uart_tx_r s + of_nat UART_TX_BUF_SIZE"
    using ring_put [OF ok that] by (simp add: uart_inv_def uart_pending_def uart_put_def)
  show "uart_inv (uart_rest s) \<and> uart_pending s = uart_first s # uart_pending (uart_rest s)" if "uart_tx_w s \<noteq> uart_tx_r s"
    using ring_take [OF ok] that by (auto simp: uart_inv_def uart_pending_def uart_rest_def uart_first_def)
qed

lemma uart_parts:
  assumes "uart_tx_buf t = uart_tx_buf s" "uart_tx_r t = uart_tx_r s" "uart_tx_w t = uart_tx_w s"
  shows "uart_inv t = uart_inv s" and "uart_pending t = uart_pending s"
  using assms by (simp_all add: uart_inv_def uart_pending_def)

text \<open>\<open>uartstart\<close> moves bytes from the ring to the device, in order, as long as it has room.\<close>

lemma uartstart_run:
  assumes "uart_inv s" and "locks s = [uart_tx_lock]"
  shows "\<exists>t. uartstart s = Ok () t \<and> uart_inv t \<and> uart_out t @ uart_pending t = uart_out s @ uart_pending s \<and>
     locks t = locks s \<and> (uart_pending t = [] \<or> tx_room t = 0) \<and> panicked t = panicked s"
  using assms
proof (induction "tx_room s" arbitrary: s rule: less_induct)
  case less
  show ?case
  proof (cases "uart_tx_w s = uart_tx_r s \<or> tx_room s = 0")
    case True
    then have "uartstart s = Ok () s" by (subst uartstart.simps) simp
    with less.prems True show ?thesis by (auto simp: uart_ring.empty_iff)
  next
    case False
    let ?a = "uart_rest s"
    let ?b = "?a\<lparr>proc := woken (Chan ''uart_tx_r'' 0) ?a [0..<NPROC]\<rparr>"
    let ?c = "?b\<lparr>uart_out := uart_out s @ [uart_first s], tx_room := tx_room s - 1\<rparr>"
    have "wakeup (Chan ''uart_tx_r'' 0) ?a = Ok () ?b"
      using less.prems(2) by (intro wakeup_run) (auto simp: uart_rest_def)
    then have step: "uartstart s = uartstart ?c"
      using False by (subst uartstart.simps) (simp add: Let_def write_thr_def uart_first_def uart_rest_def)
    have tk: "uart_inv ?a" "uart_pending s = uart_first s # uart_pending ?a"
      using uart_ring.take [OF less.prems(1)] False by auto
    have c: "uart_inv ?c = uart_inv ?a" "uart_pending ?c = uart_pending ?a"
      by (rule uart_parts; simp add: uart_rest_def)+
    have "\<exists>t. uartstart ?c = Ok () t \<and> uart_inv t \<and> uart_out t @ uart_pending t = uart_out ?c @ uart_pending ?c \<and>
       locks t = locks ?c \<and> (uart_pending t = [] \<or> tx_room t = 0) \<and> panicked t = panicked ?c"
      by (rule less.hyps) (use less.prems False tk c in \<open>auto simp: uart_rest_def\<close>)
    with step tk c show ?thesis by (auto simp: uart_rest_def)
  qed
qed

text \<open>
  C26. \<open>uartputc\<close> with room in the ring returns, and the bytes given to the device followed by those
  still in the ring are what they were before, with the new byte at the end: output is never lost
  or reordered. What stays in the ring stays there only because the device has no room.
\<close>

theorem uartputc_keeps_order:
  assumes "uart_inv s" and "length (uart_pending s) < UART_TX_BUF_SIZE" and "\<not> panicked s" and "locks s = []"
  shows "\<exists>t. uartputc c s = Ok () t \<and> uart_inv t \<and> uart_out t @ uart_pending t = uart_out s @ uart_pending s @ [c] \<and>
    (uart_pending t = [] \<or> tx_room t = 0) \<and> locks t = []"
proof -
  let ?s = "uart_put c (s\<lparr>locks := [uart_tx_lock]\<rparr>)"
  have nf: "uart_tx_w s \<noteq> uart_tx_r s + of_nat UART_TX_BUF_SIZE"
    using uart_ring.not_full [OF assms(1,2)] by simp
  have s: "uart_inv ?s = uart_inv (uart_put c s)" "uart_pending ?s = uart_pending (uart_put c s)"
    by (rule uart_parts; simp add: uart_put_def)+
  from uartstart_run [of ?s] s uart_ring.put [OF assms(1) nf, of c] obtain t where
    t: "uartstart ?s = Ok () t" "uart_inv t" "uart_out t @ uart_pending t = uart_out s @ uart_pending s @ [c]"
      "locks t = [uart_tx_lock]" "uart_pending t = [] \<or> tx_room t = 0"
    by (auto simp: uart_put_def)
  let ?t = "t\<lparr>locks := []\<rparr>"
  have "uart_inv ?t = uart_inv t" "uart_pending ?t = uart_pending t" by (rule uart_parts; simp)+
  moreover have "uartputc c s = Ok () ?t"
    using assms(3,4) nf t(1,4) by (simp add: uartputc_def lock_runs uart_put_def)
  ultimately show ?thesis using t by (intro exI [of _ ?t]) simp
qed

section \<open>printint\<close>

text \<open>The number a string of digits stands for.\<close>

definition digit_val :: "u8 \<Rightarrow> nat" where
  "digit_val c = (if unat c < 58 then unat c - 48 else unat c - 87)"

definition digits_val :: "nat \<Rightarrow> u8 list \<Rightarrow> nat" where
  "digits_val base cs = foldl (\<lambda>n c. n * base + digit_val c) 0 cs"

definition number_of_str :: "nat \<Rightarrow> u8 list \<Rightarrow> int" where
  "number_of_str base cs = (if cs \<noteq> [] \<and> hd cs = 45 then - int (digits_val base (tl cs)) else int (digits_val base cs))"

lemma unat_digit: "d < 16 \<Longrightarrow> unat (digit d) = (if d < 10 then 48 + d else 87 + d)"
  by (simp add: digit_def unat_of_nat del: of_nat_add)

lemma digit_val_digit: "d < 16 \<Longrightarrow> digit_val (digit d) = d"
  by (simp add: digit_val_def unat_digit)

lemma digit_not_minus: "d < 16 \<Longrightarrow> digit d \<noteq> 45"
  using unat_digit [of d] by (auto split: if_splits)

lemma digits_rev_val:
  "2 \<le> base \<Longrightarrow> base \<le> 16 \<Longrightarrow> foldr (\<lambda>c n. n * base + digit_val c) (digits_rev base x) 0 = x"
proof (induction base x rule: digits_rev.induct)
  case (1 base x)
  have "x mod base < 16" using "1.prems" by (meson less_le_trans mod_less_divisor zero_less_numeral)
  then show ?case
    using 1 by (subst digits_rev.simps) (auto simp: digit_val_digit div_eq_0_iff mult.commute)
qed

lemma digits_rev_set: "2 \<le> base \<Longrightarrow> base \<le> 16 \<Longrightarrow> c \<in> set (digits_rev base x) \<Longrightarrow> c \<noteq> 45"
proof (induction base x rule: digits_rev.induct)
  case (1 base x)
  have "x mod base < 16" using "1.prems" by (meson less_le_trans mod_less_divisor zero_less_numeral)
  with 1 show ?case
    by (subst (asm) digits_rev.simps) (auto dest: digit_not_minus split: if_splits)
qed

lemma digits_rev_length: "2 \<le> base \<Longrightarrow> x < base ^ Suc n \<Longrightarrow> length (digits_rev base x) \<le> Suc n"
proof (induction n arbitrary: x)
  case 0
  then show ?case by (subst digits_rev.simps) simp
next
  case (Suc n)
  have "x div base < base ^ Suc n" using Suc.prems by (simp add: less_mult_imp_div_less mult.commute)
  with Suc show ?case by (subst digits_rev.simps) auto
qed

lemma digits_rev_ne: "digits_rev base x \<noteq> []"
  by (subst digits_rev.simps) simp

text \<open>
  C27. \<open>printint\<close> in base 10 or 16 prints the signed number it is given: reading the characters back
  gives it, also for the smallest number, whose negation overflows.
\<close>

theorem printint_prints_number:
  assumes "base \<in> {10, 16}"
  shows "number_of_str base (printint_str xx base) = sint xx"
proof -
  have b: "2 \<le> base" "base \<le> 16" using assms by auto
  let ?d = "\<lambda>x :: u32. rev (digits_rev base (unat x))"
  have val: "digits_val base (?d x) = unat x" for x
    unfolding digits_val_def using digits_rev_val [OF b, of "unat x"] by (simp add: foldl_conv_foldr)
  have sx: "sint xx = (uint xx + 2 ^ 31) mod 2 ^ 32 - 2 ^ 31"
    by (simp add: sint_uint signed_take_bit_eq_take_bit_shift take_bit_eq_mod)
  have u: "0 \<le> uint xx" "uint xx < 2 ^ 32" using uint_lt2p [of xx] by simp_all
  have wrap: "(uint xx + 2 ^ 31) mod 2 ^ 32 = (if uint xx < 2 ^ 31 then uint xx + 2 ^ 31 else uint xx - 2 ^ 31)"
    using u minus_mod_self2 [of "uint xx + 2 ^ 31" "2 ^ 32"] by (auto simp: mod_pos_pos_trivial)
  have pos: "sint xx = uint xx" if "0 \<le> sint xx"
    using that u unfolding sx wrap by (auto split: if_splits)
  have neg: "int (unat (- xx)) = - sint xx" if "sint xx < 0"
  proof -
    have "\<not> uint xx < 2 ^ 31" and "sint xx = uint xx - 2 ^ 32" using that u unfolding sx wrap by (auto split: if_splits)
    moreover from this have "uint (- xx) = 2 ^ 32 - uint xx"
      using u by (simp add: uint_word_ariths zmod_zminus1_eq_if)
    ultimately show ?thesis by simp
  qed
  have nm: "hd (?d x) \<noteq> 45" for x
    using digits_rev_set [OF b, of "hd (?d x)" "unat x"] digits_rev_ne [of base "unat x"]
    by (metis hd_in_set rev_is_Nil_conv set_rev)
  show ?thesis
    using val nm pos neg digits_rev_ne by (auto simp: number_of_str_def printint_str_def Let_def)
qed

text \<open>
  C28. The characters of \<open>printint\<close> fit its buffer of 16 bytes.
\<close>

theorem printint_fits_buffer: "length (printint_str xx 10) \<le> 11 \<and> length (printint_str xx 16) \<le> 9"
proof -
  have u: "unat x < 2 ^ 32" for x :: u32 by (rule unat_u32_less)
  have "length (digits_rev 10 (unat x)) \<le> Suc 9" "length (digits_rev 16 (unat x)) \<le> Suc 7" for x :: u32
    by (rule digits_rev_length; use u [of x] in simp)+
  from this [of xx] this [of "- xx"] show ?thesis
    by (simp add: printint_str_def Let_def)
qed

theorem printint_prints_number_witness: "number_of_str 10 (printint_str (- 305) 10) = - 305"
  using printint_prints_number [of 10 "- 305"] by simp

theorem uartputc_keeps_order_witness:
  "\<exists>(s :: vstate) t. uartputc 65 s = Ok () t \<and> uart_out t @ uart_pending t = [65]"
proof -
  obtain k :: kmem where True by simp
  let ?s = "demo_on k"
  have "uart_inv ?s" "uart_pending ?s = []" "uart_out ?s = []" "\<not> panicked ?s"
    by (simp_all add: uart_inv_def uart_pending_def ring_ok_def ring_list_def demo_on_def)
  with uartputc_keeps_order [of ?s 65] show ?thesis by auto
qed

end
