(* ===== verification/Asm.thy ===== *)
theory Asm
  imports Trap
begin

unbundle bit_operations_syntax

text \<open>
  The assembly routines: \<open>kernel/swtch.S\<close>, \<open>kernel/trampoline.S\<close>, \<open>kernel/kernelvec.S\<close>,
  \<open>kernel/entry.S\<close>, \<open>user/initcode.S\<close> and the stubs that \<open>user/usys.pl\<close> generates, as lists of
  instructions with an interpreter. A hart has its registers, its control registers and memory;
  the address translation \<open>mmu\<close> (which page table \<open>satp\<close> names maps which address where; none in machine mode) and the
  addresses of symbols are parameters. A called C function is a parameter of the run: the state
  of the hart when it returns.
\<close>

section \<open>Instructions\<close>

datatype reg = RA | SP | GP | TP | T0 | T1 | T2 | T3 | T4 | T5 | T6
  | S0 | S1 | S2 | S3 | S4 | S5 | S6 | S7 | S8 | S9 | S10 | S11
  | A0 | A1 | A2 | A3 | A4 | A5 | A6 | A7

datatype instr = SD reg u64 reg | LD reg u64 reg
  | CSRRW reg csr_name reg | CSRR reg csr_name | CSRW csr_name reg | SFENCE_VMA
  | ADDI reg reg u64 | ADD reg reg reg | MUL reg reg reg | LI reg u64 | LA reg string
  | CALL string | ECALL | J string | JR reg | RET | SRET | MRET

text \<open>How a straight-line run ends.\<close>

datatype jump = Falls | Jumps u64 | Goes string | Sret | Mret

record hart =
  regs :: "reg \<Rightarrow> u64"
  csrs :: "csr_name \<Rightarrow> u64"
  hmem :: "u64 \<Rightarrow> u8"
  mmu :: "u64 \<Rightarrow> u64 \<Rightarrow> u64"
  mmode :: bool
  symbol :: "string \<Rightarrow> u64"

definition paddr :: "hart \<Rightarrow> u64 \<Rightarrow> u64" where
  "paddr h va = (if mmode h then va else mmu h (csrs h Satp) va)"

definition set_reg :: "reg \<Rightarrow> u64 \<Rightarrow> hart \<Rightarrow> hart" where
  "set_reg r v h = h\<lparr>regs := (regs h)(r := v)\<rparr>"

text \<open>Instructions that do not transfer control; the others do nothing here.\<close>

fun instr_step :: "instr \<Rightarrow> hart \<Rightarrow> hart" where
  "instr_step (SD r off b) h = h\<lparr>hmem := store64 (hmem h) (paddr h (regs h b + off)) (regs h r)\<rparr>"
| "instr_step (LD r off b) h = set_reg r (load64 (hmem h) (paddr h (regs h b + off))) h"
| "instr_step (CSRRW r c q) h = set_reg r (csrs h c) (h\<lparr>csrs := (csrs h)(c := regs h q)\<rparr>)"
| "instr_step (CSRR r c) h = set_reg r (csrs h c) h"
| "instr_step (CSRW c r) h = h\<lparr>csrs := (csrs h)(c := regs h r)\<rparr>"
| "instr_step (ADDI r q imm) h = set_reg r (regs h q + imm) h"
| "instr_step (ADD r q q') h = set_reg r (regs h q + regs h q') h"
| "instr_step (MUL r q q') h = set_reg r (regs h q * regs h q') h"
| "instr_step (LI r v) h = set_reg r v h"
| "instr_step (LA r lbl) h = set_reg r (symbol h lbl) h"
| "instr_step _ h = h"

primrec execute :: "(string \<Rightarrow> hart \<Rightarrow> hart) \<Rightarrow> instr list \<Rightarrow> hart \<Rightarrow> hart \<times> jump" where
  "execute call [] h = (h, Falls)"
| "execute call (i # is) h =
     (case i of RET \<Rightarrow> (h, Jumps (regs h RA)) | JR r \<Rightarrow> (h, Jumps (regs h r)) | SRET \<Rightarrow> (h, Sret) | MRET \<Rightarrow> (h, Mret)
      | J lbl \<Rightarrow> (h, Goes lbl) | CALL lbl \<Rightarrow> execute call is (call lbl h) | ECALL \<Rightarrow> execute call is (call ''ecall'' h)
      | _ \<Rightarrow> execute call is (instr_step i h))"

section \<open>The routines\<close>

definition swtch :: "instr list" where
  "swtch =
    [SD RA 0 A0, SD SP 8 A0, SD S0 16 A0, SD S1 24 A0, SD S2 32 A0, SD S3 40 A0, SD S4 48 A0, SD S5 56 A0,
     SD S6 64 A0, SD S7 72 A0, SD S8 80 A0, SD S9 88 A0, SD S10 96 A0, SD S11 104 A0, LD RA 0 A1,
     LD SP 8 A1, LD S0 16 A1, LD S1 24 A1, LD S2 32 A1, LD S3 40 A1, LD S4 48 A1, LD S5 56 A1, LD S6 64 A1,
     LD S7 72 A1, LD S8 80 A1, LD S9 88 A1, LD S10 96 A1, LD S11 104 A1, RET]"

definition uservec :: "instr list" where
  "uservec =
    [CSRRW A0 Sscratch A0, SD RA 40 A0, SD SP 48 A0, SD GP 56 A0, SD TP 64 A0, SD T0 72 A0, SD T1 80 A0,
     SD T2 88 A0, SD S0 96 A0, SD S1 104 A0, SD A1 120 A0, SD A2 128 A0, SD A3 136 A0, SD A4 144 A0,
     SD A5 152 A0, SD A6 160 A0, SD A7 168 A0, SD S2 176 A0, SD S3 184 A0, SD S4 192 A0, SD S5 200 A0,
     SD S6 208 A0, SD S7 216 A0, SD S8 224 A0, SD S9 232 A0, SD S10 240 A0, SD S11 248 A0, SD T3 256 A0,
     SD T4 264 A0, SD T5 272 A0, SD T6 280 A0, CSRR T0 Sscratch, SD T0 112 A0, LD SP 8 A0, LD TP 32 A0,
     LD T0 16 A0, LD T1 0 A0, CSRW Satp T1, SFENCE_VMA, JR T0]"

definition userret :: "instr list" where
  "userret =
    [CSRW Satp A1, SFENCE_VMA, LD T0 112 A0, CSRW Sscratch T0, LD RA 40 A0, LD SP 48 A0, LD GP 56 A0,
     LD TP 64 A0, LD T0 72 A0, LD T1 80 A0, LD T2 88 A0, LD S0 96 A0, LD S1 104 A0, LD A1 120 A0,
     LD A2 128 A0, LD A3 136 A0, LD A4 144 A0, LD A5 152 A0, LD A6 160 A0, LD A7 168 A0, LD S2 176 A0,
     LD S3 184 A0, LD S4 192 A0, LD S5 200 A0, LD S6 208 A0, LD S7 216 A0, LD S8 224 A0, LD S9 232 A0,
     LD S10 240 A0, LD S11 248 A0, LD T3 256 A0, LD T4 264 A0, LD T5 272 A0, LD T6 280 A0,
     CSRRW A0 Sscratch A0, SRET]"

definition kernelvec :: "instr list" where
  "kernelvec =
    [ADDI SP SP (- 256), SD RA 0 SP, SD SP 8 SP, SD GP 16 SP, SD TP 24 SP, SD T0 32 SP, SD T1 40 SP,
     SD T2 48 SP, SD S0 56 SP, SD S1 64 SP, SD A0 72 SP, SD A1 80 SP, SD A2 88 SP, SD A3 96 SP,
     SD A4 104 SP, SD A5 112 SP, SD A6 120 SP, SD A7 128 SP, SD S2 136 SP, SD S3 144 SP, SD S4 152 SP,
     SD S5 160 SP, SD S6 168 SP, SD S7 176 SP, SD S8 184 SP, SD S9 192 SP, SD S10 200 SP, SD S11 208 SP,
     SD T3 216 SP, SD T4 224 SP, SD T5 232 SP, SD T6 240 SP, CALL ''kerneltrap'', LD RA 0 SP, LD SP 8 SP,
     LD GP 16 SP, LD T0 32 SP, LD T1 40 SP, LD T2 48 SP, LD S0 56 SP, LD S1 64 SP, LD A0 72 SP,
     LD A1 80 SP, LD A2 88 SP, LD A3 96 SP, LD A4 104 SP, LD A5 112 SP, LD A6 120 SP, LD A7 128 SP,
     LD S2 136 SP, LD S3 144 SP, LD S4 152 SP, LD S5 160 SP, LD S6 168 SP, LD S7 176 SP, LD S8 184 SP,
     LD S9 192 SP, LD S10 200 SP, LD S11 208 SP, LD T3 216 SP, LD T4 224 SP, LD T5 232 SP, LD T6 240 SP,
     ADDI SP SP 256, SRET]"

definition timervec :: "instr list" where
  "timervec =
    [CSRRW A0 Mscratch A0, SD A1 0 A0, SD A2 8 A0, SD A3 16 A0, LD A1 24 A0, LD A2 32 A0, LD A3 0 A1,
     ADD A3 A3 A2, SD A3 0 A1, LI A1 2, CSRW Sip A1, LD A3 16 A0, LD A2 8 A0, LD A1 0 A0,
     CSRRW A0 Mscratch A0, MRET]"

text \<open>\<open>_entry\<close>; the loop \<open>spin\<close> after it is reached only if \<open>start\<close> returns.\<close>

definition entry_code :: "instr list" where
  "entry_code =
    [LA SP ''stack0'', LI A0 4096, CSRR A1 Mhartid, ADDI A1 A1 1, MUL A0 A0 A1, ADD SP SP A0,
     CALL ''start'']"

text \<open>\<open>user/initcode.S\<close>: the call of \<open>exec\<close>, and the loop of calls of \<open>exit\<close> after it.\<close>

definition initcode_start :: "instr list" where
  "initcode_start = [LA A0 ''init'', LA A1 ''argv'', LI A7 7, ECALL]"

definition initcode_exit :: "instr list" where
  "initcode_exit = [LI A7 2, ECALL, J ''exit'']"

text \<open>The stub \<open>usys.pl\<close> generates for a system call.\<close>

definition usys_entry :: "u64 \<Rightarrow> instr list" where
  "usys_entry n = [LI A7 n, ECALL, RET]"

section \<open>Saving and restoring registers\<close>

text \<open>
  \<open>maps h va p n\<close>: the \<open>n\<close> bytes from \<open>va\<close> are the physical bytes from \<open>p\<close>. A layout gives each
  register its 8-byte slot.
\<close>

definition maps :: "hart \<Rightarrow> u64 \<Rightarrow> u64 \<Rightarrow> nat \<Rightarrow> bool" where
  "maps h va p n \<longleftrightarrow> (\<forall>off. unat off < n \<longrightarrow> paddr h (va + off) = p + off)"

lemma paddr_simps [simp]:
  "paddr (h\<lparr>hmem := m\<rparr>) va = paddr h va" "paddr (h\<lparr>regs := R\<rparr>) va = paddr h va"
  by (simp_all add: paddr_def)

definition slots :: "nat \<Rightarrow> (reg \<times> u64) list \<Rightarrow> bool" where
  "slots n L \<longleftrightarrow> distinct (map fst L) \<and> distinct (map snd L) \<and>
     (\<forall>off \<in> set (map snd L). unat off mod 8 = 0 \<and> unat off + 8 \<le> n) \<and> n \<le> 4096"

definition save_code :: "(reg \<times> u64) list \<Rightarrow> reg \<Rightarrow> instr list" where
  "save_code L b = map (\<lambda>(r, off). SD r off b) L"

definition load_code :: "(reg \<times> u64) list \<Rightarrow> reg \<Rightarrow> instr list" where
  "load_code L b = map (\<lambda>(r, off). LD r off b) L"

definition saved :: "(reg \<times> u64) list \<Rightarrow> u64 \<Rightarrow> (reg \<Rightarrow> u64) \<Rightarrow> (u64 \<Rightarrow> u8) \<Rightarrow> (u64 \<Rightarrow> u8)" where
  "saved L p R m = fold (\<lambda>(r, off) m. store64 m (p + off) (R r)) L m"

definition loaded :: "(reg \<times> u64) list \<Rightarrow> u64 \<Rightarrow> (u64 \<Rightarrow> u8) \<Rightarrow> (reg \<Rightarrow> u64) \<Rightarrow> (reg \<Rightarrow> u64)" where
  "loaded L p m R = fold (\<lambda>(r, off) R. R(r := load64 m (p + off))) L R"

lemma slots_Cons: "slots n ((r, off) # L) \<Longrightarrow> slots n L"
  by (simp add: slots_def)

lemma execute_save:
  "maps h (regs h b) p n \<Longrightarrow> \<forall>off \<in> set (map snd L). unat off < n \<Longrightarrow>
     execute call (save_code L b @ is) h = execute call is (h\<lparr>hmem := saved L p (regs h) (hmem h)\<rparr>)"
proof (induction L arbitrary: h)
  case Nil
  then show ?case by (simp add: save_code_def saved_def)
next
  case (Cons x L)
  obtain r off where x: "x = (r, off)" by (cases x)
  let ?h = "h\<lparr>hmem := store64 (hmem h) (p + off) (regs h r)\<rparr>"
  have "paddr h (regs h b + off) = p + off" using Cons.prems x by (simp add: maps_def)
  moreover have "maps ?h (regs ?h b) p n" using Cons.prems(1) by (simp add: maps_def)
  ultimately show ?case using Cons.IH [of ?h] Cons.prems(2) x by (simp add: save_code_def saved_def)
qed

lemma execute_load:
  "maps h (regs h b) p n \<Longrightarrow> \<forall>off \<in> set (map snd L). unat off < n \<Longrightarrow>
   \<forall>off. (b, off) \<in> set L \<longrightarrow> load64 (hmem h) (p + off) = regs h b \<Longrightarrow>
     execute call (load_code L b @ is) h = execute call is (h\<lparr>regs := loaded L p (hmem h) (regs h)\<rparr>)"
proof (induction L arbitrary: h)
  case Nil
  then show ?case by (simp add: load_code_def loaded_def)
next
  case (Cons x L)
  obtain r off where x: "x = (r, off)" by (cases x)
  let ?h = "h\<lparr>regs := (regs h)(r := load64 (hmem h) (p + off))\<rparr>"
  have pa: "paddr h (regs h b + off) = p + off" using Cons.prems x by (simp add: maps_def)
  have same: "regs ?h b = regs h b" using Cons.prems(3) x by auto
  then have "maps ?h (regs ?h b) p n" using Cons.prems(1) by (simp add: maps_def)
  moreover have "\<forall>off. (b, off) \<in> set L \<longrightarrow> load64 (hmem ?h) (p + off) = regs ?h b"
    unfolding same using Cons.prems(3) by simp
  ultimately show ?case using Cons.IH [of ?h] Cons.prems(2) x pa by (simp add: load_code_def loaded_def set_reg_def fun_upd_def)
qed

lemma slots_apart:
  assumes "unat (a :: u64) mod 8 = 0" "unat b mod 8 = 0" "unat a < 4096" "unat b < 4096" "a \<noteq> b"
  shows "8 \<le> unat (p + a - (p + b))"
proof -
  have "unat a \<noteq> unat b" using assms(5) by (simp add: word_unat_eq_iff)
  moreover have "p + a - (p + b) = a - b" by simp
  moreover obtain i j where "unat a = 8 * i" "unat b = 8 * j" using assms(1,2) by (auto simp: mod_eq_0_iff_dvd dvd_def)
  ultimately show ?thesis using assms(3,4) by (auto simp: unat_sub_if')
qed

lemma load_saved_other:
  "slots n L \<Longrightarrow> off \<notin> set (map snd L) \<Longrightarrow> unat off mod 8 = 0 \<Longrightarrow> unat off < 4096 \<Longrightarrow>
     load64 (saved L p R m) (p + off) = load64 m (p + off)"
proof (induction L arbitrary: m)
  case Nil
  then show ?case by (simp add: saved_def)
next
  case (Cons x L)
  obtain r o' where x: "x = (r, o')" by (cases x)
  have o': "unat o' mod 8 = 0" "unat o' < 4096" "off \<noteq> o'" using Cons.prems x by (auto simp: slots_def)
  then have "load64 (store64 m (p + o') (R r)) (p + off) = load64 m (p + off)"
    using Cons.prems by (intro load64_store64_other slots_apart) auto
  with Cons x slots_Cons [of n r o' L] show ?case by (simp add: saved_def)
qed

lemma load_saved:
  "slots n L \<Longrightarrow> (r, off) \<in> set L \<Longrightarrow> load64 (saved L p R m) (p + off) = R r"
proof (induction L arbitrary: m)
  case (Cons x L)
  obtain r' o' where x: "x = (r', o')" by (cases x)
  have L: "slots n L" using Cons.prems(1) x by (simp add: slots_def)
  show ?case
  proof (cases "(r, off) \<in> set L")
    case True
    with Cons.IH [OF L] x show ?thesis by (simp add: saved_def)
  next
    case False
    with Cons.prems x have "r' = r" "o' = off" by auto
    moreover have "off \<notin> set (map snd L)" "unat off mod 8 = 0" "unat off < 4096"
      using Cons.prems x \<open>o' = off\<close> by (auto simp: slots_def)
    ultimately show ?thesis using load_saved_other [OF L, of off p R] x by (simp add: saved_def)
  qed
qed simp

lemma loaded_other: "r \<notin> fst ` set L \<Longrightarrow> loaded L p m R r = R r"
  by (induction L arbitrary: R) (auto simp: loaded_def)

lemma loaded_slot: "slots n L \<Longrightarrow> (r, off) \<in> set L \<Longrightarrow> loaded L p m R r = load64 m (p + off)"
proof (induction L arbitrary: R)
  case (Cons x L)
  obtain r' o' where x: "x = (r', o')" by (cases x)
  have L: "slots n L" using Cons.prems(1) x by (simp add: slots_def)
  show ?case
  proof (cases "(r, off) \<in> set L")
    case True
    with Cons.IH [OF L] x show ?thesis by (simp add: loaded_def)
  next
    case False
    with Cons.prems x have "r' = r" "o' = off" by auto
    moreover from this have "r \<notin> fst ` set L" using Cons.prems(1) x by (force simp: slots_def)
    ultimately show ?thesis using loaded_other [of r L p m] x by (simp add: loaded_def)
  qed
qed simp

text \<open>Bytes away from the slots keep their values.\<close>

lemma saved_outside:
  "\<forall>off \<in> set (map snd L). unat off + 8 \<le> n \<Longrightarrow> n \<le> 4096 \<Longrightarrow> n \<le> unat (x - p) \<Longrightarrow> saved L p R m x = m x"
proof (induction L arbitrary: m)
  case (Cons y L)
  obtain r off where y: "y = (r, off)" by (cases y)
  have "unat off + 8 \<le> n" using Cons.prems y by simp
  then have "unat (x - p - off) = unat (x - p) - unat off"
    using Cons.prems(3) by (intro unat_sub) (simp add: word_le_nat_alt)
  moreover have "x - p - off = x - (p + off)" by simp
  ultimately have "8 \<le> unat (x - (p + off))" using \<open>unat off + 8 \<le> n\<close> Cons.prems(3) by (simp only:)
  then have "store64 m (p + off) (R r) x = m x" by (rule store64_outside)
  with Cons y show ?case by (simp add: saved_def)
qed (simp add: saved_def)

end
