(* ===== verification/Asm_Spec.thy ===== *)
theory Asm_Spec
  imports Asm
begin

text \<open>
  The assembly routines save and restore what they should: a context switch and back, a trap from
  user space and back, a trap in the kernel, the timer interrupt, the stack of each hart at boot.
\<close>

section \<open>Context switch\<close>

definition context_slots :: "(reg \<times> u64) list" where
  "context_slots = [(RA, 0), (SP, 8), (S0, 16), (S1, 24), (S2, 32), (S3, 40), (S4, 48), (S5, 56), (S6, 64),
     (S7, 72), (S8, 80), (S9, 88), (S10, 96), (S11, 104)]"

lemma context_slots_ok: "slots 112 context_slots"
  by (simp add: slots_def context_slots_def)

lemma swtch_eq: "swtch = save_code context_slots A0 @ load_code context_slots A1 @ [RET]"
  by (simp add: swtch_def save_code_def load_code_def context_slots_def)

lemma slots_less: "slots n L \<Longrightarrow> \<forall>off \<in> set (map snd L). unat off < n"
  by (auto simp: slots_def)

lemma swtch_run:
  assumes "maps h (regs h A0) old 112" and "maps h (regs h A1) new 112"
  shows "execute call swtch h =
    (h\<lparr>hmem := saved context_slots old (regs h) (hmem h),
       regs := loaded context_slots new (saved context_slots old (regs h) (hmem h)) (regs h)\<rparr>,
     Jumps (load64 (saved context_slots old (regs h) (hmem h)) new))"
proof -
  let ?m = "saved context_slots old (regs h) (hmem h)"
  let ?h = "h\<lparr>hmem := ?m\<rparr>"
  have lt: "\<forall>off \<in> set (map snd context_slots). unat off < 112" by (rule slots_less [OF context_slots_ok])
  have "execute call swtch h = execute call (load_code context_slots A1 @ [RET]) ?h"
    unfolding swtch_eq by (rule execute_save [OF assms(1) lt])
  also have "\<dots> = execute call [RET] (?h\<lparr>regs := loaded context_slots new (hmem ?h) (regs ?h)\<rparr>)"
    by (rule execute_load [OF _ lt]) (use assms(2) in \<open>auto simp: maps_def context_slots_def\<close>)
  finally show ?thesis
    using loaded_slot [OF context_slots_ok, of RA 0 new ?m "regs h"] by (simp add: context_slots_def)
qed

text \<open>
  C22. A context switch is undone by switching back: a thread that calls \<open>swtch(old, new)\<close> continues
  later, when some hart calls \<open>swtch(other, old)\<close> with the saved context untouched, at its own
  return address with its own stack pointer and callee-saved registers.
\<close>

theorem swtch_round_trip:
  assumes "maps h (regs h A0) old 112" and "maps h (regs h A1) new 112"
    and first: "execute call swtch h = (h', j)"
    and "maps g (regs g A0) other 112" and "maps g (regs g A1) old 112"
    and apart: "\<And>k. k < 112 \<Longrightarrow> 112 \<le> unat (old + of_nat k - other)"
    and kept: "\<And>k. k < 112 \<Longrightarrow> hmem g (old + of_nat k) = hmem h' (old + of_nat k)"
    and second: "execute call swtch g = (g', j')"
  shows "j' = Jumps (regs h RA) \<and> (\<forall>r \<in> {RA, SP, S0, S1, S2, S3, S4, S5, S6, S7, S8, S9, S10, S11}. regs g' r = regs h r)"
proof -
  let ?m = "saved context_slots other (regs g) (hmem g)"
  have mem: "hmem h' = saved context_slots old (regs h) (hmem h)"
    using first swtch_run [OF assms(1,2), of call] by auto
  have load: "load64 ?m (old + off) = regs h r" if "(r, off) \<in> set context_slots" for r off
  proof -
    have off: "unat off + 8 \<le> 112" using context_slots_ok that by (force simp: slots_def)
    have "load64 ?m (old + off) = load64 (hmem h') (old + off)"
    proof (rule load64_cong)
      fix k :: nat assume "k < 8"
      then have k: "unat off + k < 112" using off by simp
      have "old + off + of_nat k = old + of_nat (unat off + k)" by simp
      moreover have "?m (old + of_nat (unat off + k)) = hmem g (old + of_nat (unat off + k))"
        by (rule saved_outside [where n = 112]) (use apart [OF k] context_slots_ok in \<open>auto simp: slots_def\<close>)
      ultimately show "?m (old + off + of_nat k) = hmem h' (old + off + of_nat k)" using kept [OF k] by (simp add: add.assoc)
    qed
    then show ?thesis unfolding mem by (simp add: load_saved [OF context_slots_ok that])
  qed
  have g: "regs g' = loaded context_slots old ?m (regs g)" "j' = Jumps (load64 ?m old)"
    using second swtch_run [OF assms(4,5), of call] by auto
  have "regs g' r = regs h r" if "(r, off) \<in> set context_slots" for r off
    unfolding g using loaded_slot [OF context_slots_ok that] load [OF that] by simp
  then show ?thesis using g(2) load [of RA 0] by (auto simp: context_slots_def)
qed

section \<open>Traps from user space\<close>

definition frame_slots :: "(reg \<times> u64) list" where
  "frame_slots = [(RA, 40), (SP, 48), (GP, 56), (TP, 64), (T0, 72), (T1, 80), (T2, 88), (S0, 96), (S1, 104),
     (A1, 120), (A2, 128), (A3, 136), (A4, 144), (A5, 152), (A6, 160), (A7, 168), (S2, 176), (S3, 184), (S4, 192),
     (S5, 200), (S6, 208), (S7, 216), (S8, 224), (S9, 232), (S10, 240), (S11, 248), (T3, 256), (T4, 264), (T5, 272),
     (T6, 280)]"

text \<open>With the slot of \<open>a0\<close>, the trapframe holds every register.\<close>

definition frame_off :: "reg \<Rightarrow> u64" where
  "frame_off r = (if r = A0 then 112 else the (map_of frame_slots r))"

lemma frame_slots_ok: "slots 288 frame_slots"
  by (simp add: slots_def frame_slots_def)

lemma frame_slot: "r \<noteq> A0 \<Longrightarrow> (r, frame_off r) \<in> set frame_slots"
  by (cases r) (simp_all add: frame_off_def frame_slots_def)

lemma uservec_eq:
  "uservec = CSRRW A0 Sscratch A0 # save_code frame_slots A0 @ [CSRR T0 Sscratch, SD T0 112 A0, LD SP 8 A0, LD TP 32 A0,
     LD T0 16 A0, LD T1 0 A0, CSRW Satp T1, SFENCE_VMA, JR T0]"
  by (simp add: uservec_def save_code_def frame_slots_def)

lemma userret_eq:
  "userret = [CSRW Satp A1, SFENCE_VMA, LD T0 112 A0, CSRW Sscratch T0] @ load_code frame_slots A0 @ [CSRRW A0 Sscratch A0, SRET]"
  by (simp add: userret_def load_code_def frame_slots_def)

text \<open>The memory after \<open>uservec\<close>.\<close>

definition framed :: "u64 \<Rightarrow> hart \<Rightarrow> u64 \<Rightarrow> u8" where
  "framed p h = store64 (saved frame_slots p (regs h) (hmem h)) (p + 112) (regs h A0)"

lemma uservec_run:
  assumes va: "csrs h Sscratch = va" and m: "maps h va p 288" and user: "\<not> mmode h"
  shows "execute call uservec h =
    (h\<lparr>regs := (regs h)(A0 := va, SP := load64 (framed p h) (p + 8), TP := load64 (framed p h) (p + 32),
         T0 := load64 (framed p h) (p + 16), T1 := load64 (framed p h) p),
       csrs := (csrs h)(Sscratch := regs h A0, Satp := load64 (framed p h) p), hmem := framed p h\<rparr>,
     Jumps (load64 (framed p h) (p + 16)))"
proof -
  let ?h = "h\<lparr>csrs := (csrs h)(Sscratch := regs h A0), regs := (regs h)(A0 := va)\<rparr>"
  have m': "maps ?h (regs ?h A0) p 288" using m user by (simp add: maps_def paddr_def)
  have A0: "saved frame_slots p (regs ?h) (hmem ?h) = saved frame_slots p (regs h) (hmem h)"
    by (simp add: saved_def frame_slots_def)
  have "execute call uservec h = execute call (save_code frame_slots A0 @ [CSRR T0 Sscratch, SD T0 112 A0, LD SP 8 A0,
     LD TP 32 A0, LD T0 16 A0, LD T1 0 A0, CSRW Satp T1, SFENCE_VMA, JR T0]) ?h"
    using va by (simp add: uservec_eq set_reg_def)
  also have "\<dots> = execute call [CSRR T0 Sscratch, SD T0 112 A0, LD SP 8 A0, LD TP 32 A0, LD T0 16 A0, LD T1 0 A0,
     CSRW Satp T1, SFENCE_VMA, JR T0] (?h\<lparr>hmem := saved frame_slots p (regs ?h) (hmem ?h)\<rparr>)"
    by (rule execute_save [OF m' slots_less [OF frame_slots_ok]])
  also have "\<dots> = (h\<lparr>regs := (regs h)(A0 := va, SP := load64 (framed p h) (p + 8), TP := load64 (framed p h) (p + 32),
         T0 := load64 (framed p h) (p + 16), T1 := load64 (framed p h) p),
       csrs := (csrs h)(Sscratch := regs h A0, Satp := load64 (framed p h) p), hmem := framed p h\<rparr>,
     Jumps (load64 (framed p h) (p + 16)))"
  proof -
    have pa: "mmu h (csrs h Satp) (va + off) = p + off" if "unat off < 288" for off
      using m user that by (auto simp: maps_def paddr_def)
    note pas = pa [of 112] pa [of 8] pa [of 32] pa [of 16] pa [of 0]
    show ?thesis unfolding A0
      using user pas by (simp add: set_reg_def paddr_def framed_def fun_upd_twist)
  qed
  finally show ?thesis .
qed

lemma framed_reg: "load64 (framed p h) (p + frame_off r) = regs h r"
proof (cases "r = A0")
  case True
  then show ?thesis by (simp add: framed_def frame_off_def)
next
  case False
  note slot = frame_slot [OF False]
  have "frame_off r \<noteq> 112" "unat (frame_off r) mod 8 = 0" "unat (frame_off r) < 4096"
    using slot frame_slots_ok by (auto simp: slots_def frame_slots_def)
  then have "load64 (framed p h) (p + frame_off r) = load64 (saved frame_slots p (regs h) (hmem h)) (p + frame_off r)"
    unfolding framed_def by (intro load64_store64_other slots_apart) auto
  then show ?thesis by (simp add: load_saved [OF frame_slots_ok slot])
qed

lemma framed_kernel: "off \<in> {0, 8, 16, 32} \<Longrightarrow> load64 (framed p h) (p + off) = load64 (hmem h) (p + off)"
proof -
  assume off: "off \<in> {0, 8, 16, 32}"
  then have "load64 (framed p h) (p + off) = load64 (saved frame_slots p (regs h) (hmem h)) (p + off)"
    unfolding framed_def by (intro load64_store64_other slots_apart) auto
  also have "\<dots> = load64 (hmem h) (p + off)"
    by (rule load_saved_other [OF frame_slots_ok]) (use off in \<open>auto simp: frame_slots_def\<close>)
  finally show ?thesis .
qed

lemma userret_run:
  assumes m: "\<And>off. unat off < 288 \<Longrightarrow> mmu k (regs k A1) (regs k A0 + off) = p + off" and "\<not> mmode k"
  shows "\<exists>k'. execute call userret k = (k', Sret) \<and> (\<forall>r. regs k' r = load64 (hmem k) (p + frame_off r)) \<and>
    csrs k' Sscratch = regs k A0 \<and> csrs k' Satp = regs k A1"
proof -
  let ?a0 = "load64 (hmem k) (p + 112)"
  let ?g = "k\<lparr>regs := (regs k)(T0 := ?a0), csrs := (csrs k)(Satp := regs k A1, Sscratch := ?a0)\<rparr>"
  have pa: "mmu k (regs k A1) (regs k A0 + 112) = p + 112" by (rule m) simp
  have m': "maps ?g (regs ?g A0) p 288" using m assms(2) by (simp add: maps_def paddr_def)
  have "execute call userret k = execute call (load_code frame_slots A0 @ [CSRRW A0 Sscratch A0, SRET]) ?g"
    using pa assms(2) by (simp add: userret_eq set_reg_def paddr_def)
  also have "\<dots> = execute call [CSRRW A0 Sscratch A0, SRET] (?g\<lparr>regs := loaded frame_slots p (hmem ?g) (regs ?g)\<rparr>)"
    by (rule execute_load [OF m' slots_less [OF frame_slots_ok]]) (simp add: frame_slots_def)
  finally have run: "execute call userret k = (?g\<lparr>regs := (loaded frame_slots p (hmem k) (regs ?g))(A0 := ?a0),
      csrs := (csrs ?g)(Sscratch := regs k A0)\<rparr>, Sret)"
    by (simp add: set_reg_def loaded_other frame_slots_def)
  have "((loaded frame_slots p (hmem k) (regs ?g))(A0 := ?a0)) r = load64 (hmem k) (p + frame_off r)" for r
  proof (cases "r = A0")
    case False
    then show ?thesis using loaded_slot [OF frame_slots_ok frame_slot [OF False]] by simp
  qed (simp add: frame_off_def)
  with run show ?thesis by auto
qed

text \<open>
  C23. A trap from user space and the return from it: \<open>uservec\<close> enters the kernel with the stack,
  hart number, page table and handler that the trapframe names, and \<open>userret\<close> brings back all 31
  registers of the user program as they were at the trap, as long as the kernel leaves their slots
  in the trapframe alone.
\<close>

theorem user_trap_round_trip:
  assumes "csrs h Sscratch = TRAPFRAME" and "maps h TRAPFRAME p 288" and "\<not> mmode h"
    and enter: "execute call uservec h = (h', j)"
    and "regs k A0 = TRAPFRAME" and "\<And>off. unat off < 288 \<Longrightarrow> mmu k (regs k A1) (TRAPFRAME + off) = p + off"
    and "\<not> mmode k" and kept: "\<And>r. load64 (hmem k) (p + frame_off r) = load64 (hmem h') (p + frame_off r)"
    and leave: "execute call userret k = (k', j')"
  shows "regs h' SP = load64 (hmem h) (p + 8) \<and> regs h' TP = load64 (hmem h) (p + 32) \<and>
    csrs h' Satp = load64 (hmem h) p \<and> j = Jumps (load64 (hmem h) (p + 16)) \<and>
    j' = Sret \<and> regs k' = regs h \<and> csrs k' Sscratch = TRAPFRAME \<and> csrs k' Satp = regs k A1"
proof -
  note u = uservec_run [OF assms(1-3), of call]
  have h': "hmem h' = framed p h" using enter u by auto
  have "regs h' SP = load64 (hmem h) (p + 8) \<and> regs h' TP = load64 (hmem h) (p + 32) \<and>
    csrs h' Satp = load64 (hmem h) p \<and> j = Jumps (load64 (hmem h) (p + 16))"
    using enter u framed_kernel [of 0 p h] framed_kernel [of 8 p h] framed_kernel [of 16 p h] framed_kernel [of 32 p h]
    by auto
  moreover have "\<exists>k'. execute call userret k = (k', Sret) \<and> (\<forall>r. regs k' r = load64 (hmem k) (p + frame_off r)) \<and>
    csrs k' Sscratch = regs k A0 \<and> csrs k' Satp = regs k A1"
    by (rule userret_run) (use assms(5,6,7) in simp_all)
  ultimately show ?thesis using leave kept assms(5) by (auto simp: h' framed_reg fun_eq_iff)
qed

section \<open>Traps in the kernel\<close>

definition stack_slots :: "(reg \<times> u64) list" where
  "stack_slots = [(RA, 0), (SP, 8), (GP, 16), (TP, 24), (T0, 32), (T1, 40), (T2, 48), (S0, 56), (S1, 64), (A0, 72),
     (A1, 80), (A2, 88), (A3, 96), (A4, 104), (A5, 112), (A6, 120), (A7, 128), (S2, 136), (S3, 144), (S4, 152),
     (S5, 160), (S6, 168), (S7, 176), (S8, 184), (S9, 192), (S10, 200), (S11, 208), (T3, 216), (T4, 224), (T5, 232),
     (T6, 240)]"

lemma stack_slots_ok: "slots 248 stack_slots" "slots 248 (filter (\<lambda>(r, off). r \<noteq> TP) stack_slots)"
  by (simp_all add: slots_def stack_slots_def)

lemma stack_slot: "\<exists>off. (r, off) \<in> set stack_slots"
  by (cases r) (auto simp: stack_slots_def)

lemma kernelvec_eq:
  "kernelvec = ADDI SP SP (- 256) # save_code stack_slots SP @ CALL ''kerneltrap'' #
     load_code (filter (\<lambda>(r, off). r \<noteq> TP) stack_slots) SP @ [ADDI SP SP 256, SRET]"
  by (simp add: kernelvec_def save_code_def load_code_def stack_slots_def)

text \<open>
  C24. An interrupt of the kernel is transparent: when \<open>kerneltrap\<close> returns with the stack pointer it
  was called with and leaves the 248 bytes that \<open>kernelvec\<close> saved above it alone, every register
  but the hart number \<open>tp\<close> is back at its value at the interrupt.
\<close>

theorem kernelvec_transparent:
  assumes m: "maps h (regs h SP - 256) p 248"
    and call: "\<And>g. regs g SP = regs h SP - 256 \<Longrightarrow> regs (call ''kerneltrap'' g) SP = regs g SP \<and>
       maps (call ''kerneltrap'' g) (regs g SP) p 248 \<and>
       (\<forall>x. unat (x - p) < 248 \<longrightarrow> hmem (call ''kerneltrap'' g) x = hmem g x)"
  shows "\<exists>h'. execute call kernelvec h = (h', Sret) \<and> (\<forall>r. r \<noteq> TP \<longrightarrow> regs h' r = regs h r)"
proof -
  let ?R = "(regs h)(SP := regs h SP - 256)"
  let ?g = "h\<lparr>regs := ?R, hmem := saved stack_slots p ?R (hmem h)\<rparr>"
  let ?k = "call ''kerneltrap'' ?g"
  let ?L = "filter (\<lambda>(r, off). r \<noteq> TP) stack_slots"
  have k: "regs ?k SP = regs h SP - 256" "maps ?k (regs h SP - 256) p 248"
      "\<And>x. unat (x - p) < 248 \<Longrightarrow> hmem ?k x = hmem ?g x"
    using call [of ?g] by auto
  have load: "load64 (hmem ?k) (p + off) = ?R r" if "(r, off) \<in> set stack_slots" for r off
  proof -
    have off: "unat off + 8 \<le> 248" using stack_slots_ok(1) that by (force simp: slots_def)
    have "load64 (hmem ?k) (p + off) = load64 (hmem ?g) (p + off)"
    proof (rule load64_cong)
      fix i :: nat assume "i < 8"
      then have "unat (off + of_nat i) < 248" using off unat_add_of_nat [of off i] by simp
      then show "hmem ?k (p + off + of_nat i) = hmem ?g (p + off + of_nat i)" by (intro k(3)) (simp add: add.assoc)
    qed
    then show ?thesis by (simp add: load_saved [OF stack_slots_ok(1) that])
  qed
  have "execute call kernelvec h = execute call (save_code stack_slots SP @ CALL ''kerneltrap'' #
      load_code ?L SP @ [ADDI SP SP 256, SRET]) (h\<lparr>regs := ?R\<rparr>)"
    by (simp add: kernelvec_eq set_reg_def)
  also have "\<dots> = execute call (CALL ''kerneltrap'' # load_code ?L SP @ [ADDI SP SP 256, SRET])
      (h\<lparr>regs := ?R, hmem := saved stack_slots p (regs (h\<lparr>regs := ?R\<rparr>)) (hmem (h\<lparr>regs := ?R\<rparr>))\<rparr>)"
    by (rule execute_save [OF _ slots_less [OF stack_slots_ok(1)]]) (use m in \<open>simp add: maps_def\<close>)
  also have "\<dots> = execute call (load_code ?L SP @ [ADDI SP SP 256, SRET]) ?k" by simp
  also have "\<dots> = execute call [ADDI SP SP 256, SRET] (?k\<lparr>regs := loaded ?L p (hmem ?k) (regs ?k)\<rparr>)"
    by (rule execute_load [OF _ slots_less [OF stack_slots_ok(2)]]) (use k load in auto)
  finally have run: "execute call kernelvec h = (set_reg SP (loaded ?L p (hmem ?k) (regs ?k) SP + 256)
      (?k\<lparr>regs := loaded ?L p (hmem ?k) (regs ?k)\<rparr>), Sret)" by simp
  have "loaded ?L p (hmem ?k) (regs ?k) r = ?R r" if "r \<noteq> TP" for r
  proof -
    obtain off where off: "(r, off) \<in> set stack_slots" using stack_slot by blast
    with that have "(r, off) \<in> set ?L" by simp
    from loaded_slot [OF stack_slots_ok(2) this] load [OF off] show ?thesis by simp
  qed
  with run show ?thesis by (simp add: set_reg_def)
qed

section \<open>The timer interrupt and the boot stack\<close>

text \<open>
  C25. The timer interrupt handler leaves all registers as they were, advances the comparison
  register of the timer by the interval, raises the software interrupt that the kernel handles as
  a clock tick, and returns from machine mode.
\<close>

theorem timervec_ticks:
  assumes "mmode h" and sc: "csrs h Mscratch = sc" and c: "load64 (hmem h) (sc + 24) = c"
    and apart: "\<And>off. off \<in> {0, 8, 16} \<Longrightarrow> 8 \<le> unat (sc + off - c) \<and> 8 \<le> unat (c - (sc + off))"
  shows "\<exists>h'. execute call timervec h = (h', Mret) \<and> regs h' = regs h \<and> csrs h' = (csrs h)(Sip := 2) \<and>
    load64 (hmem h') c = load64 (hmem h) c + load64 (hmem h) (sc + 32)"
proof -
  let ?m1 = "store64 (hmem h) sc (regs h A1)"
  let ?m2 = "store64 ?m1 (sc + 8) (regs h A2)"
  let ?m3 = "store64 ?m2 (sc + 16) (regs h A3)"
  have sep: "8 \<le> unat (sc + a - (sc + b))" if "a \<in> {0, 8, 16, 24, 32}" "b \<in> {0, 8, 16, 24, 32}" "a \<noteq> b" for a b
    using that by (intro slots_apart) auto
  have other: "load64 (store64 m (sc + b) v) (sc + a) = load64 m (sc + a)"
    if "a \<in> {0, 8, 16, 24, 32}" "b \<in> {0, 8, 16, 24, 32}" "a \<noteq> b" for a b m v
    using sep [of a b] sep [of b a] that by (intro load64_store64_other) auto
  have far: "load64 (store64 m (sc + b) v) c = load64 m c" "load64 (store64 m c v) (sc + b) = load64 m (sc + b)"
    if "b \<in> {0, 8, 16}" for b m v
    using apart [OF that] by (auto intro: load64_store64_other)
  note rw = other [of 24 0] other [of 24 8] other [of 24 16] other [of 32 0] other [of 32 8] other [of 32 16]
    other [of 0 8] other [of 0 16] other [of 8 16] far [of 0] far [of 8] far [of 16]
  have m: "load64 ?m3 (sc + 24) = c" "load64 ?m3 (sc + 32) = load64 (hmem h) (sc + 32)" "load64 ?m3 c = load64 (hmem h) c"
    "load64 ?m3 sc = regs h A1" "load64 ?m3 (sc + 8) = regs h A2" "load64 ?m3 (sc + 16) = regs h A3"
    using rw c by simp_all
  let ?v = "load64 (hmem h) c + load64 (hmem h) (sc + 32)"
  let ?m4 = "store64 ?m3 c ?v"
  have m4: "load64 ?m4 sc = regs h A1" "load64 ?m4 (sc + 8) = regs h A2" "load64 ?m4 (sc + 16) = regs h A3"
    using far(2) [of 0 ?m3] far(2) [of 8 ?m3] far(2) [of 16 ?m3] m(4-6) by simp_all
  have same: "(regs h)(A0 := regs h A0, A1 := regs h A1, A2 := regs h A2, A3 := regs h A3) = regs h" by simp
  have "execute call timervec h = (h\<lparr>regs := regs h, csrs := (csrs h)(Sip := 2), hmem := ?m4\<rparr>, Mret)"
    using assms(1) sc m m4 by (simp add: timervec_def set_reg_def paddr_def fun_upd_twist fun_eq_iff)
  then show ?thesis by simp
qed

lemma entry_stack:
  "execute call entry_code h = (call ''start'' (h\<lparr>regs := (regs h)(SP := symbol h ''stack0'' + 4096 * (csrs h Mhartid + 1),
     A0 := 4096 * (csrs h Mhartid + 1), A1 := csrs h Mhartid + 1)\<rparr>), Falls)"
  by (simp add: entry_code_def set_reg_def fun_upd_twist)

section \<open>Concrete runs\<close>

definition demo_hart :: hart where
  "demo_hart = \<lparr>regs = (\<lambda>r. if r = A0 then 0x2000 else if r = A1 then 0x1000 else 7), csrs = (\<lambda>_. 0), hmem = (\<lambda>_. 0),
     mmu = (\<lambda>_ a. a), mmode = False, symbol = (\<lambda>_. 0)\<rparr>"

lemma demo_hart_maps: "maps (demo_hart\<lparr>regs := R, hmem := m, csrs := c\<rparr>) va va n"
  by (simp add: maps_def paddr_def demo_hart_def)

theorem swtch_round_trip_witness:
  "\<exists>h h' j g g' j' call. execute call swtch h = (h', j) \<and> execute call swtch g = (g', j') \<and> regs h S5 = 7 \<and>
     regs g S5 = 0 \<and> regs g' S5 = 7 \<and> j' = Jumps 7"
proof -
  let ?c = "\<lambda>_ h. h"
  let ?h = "demo_hart\<lparr>regs := regs demo_hart, hmem := \<lambda>_. 0, csrs := \<lambda>_. 0\<rparr>"
  obtain h' j where h': "execute ?c swtch ?h = (h', j)" by fastforce
  let ?R = "\<lambda>r. if r = A0 then 0x1000 else if r = A1 then 0x2000 else (0 :: u64)"
  let ?g = "demo_hart\<lparr>regs := ?R, hmem := hmem h', csrs := \<lambda>_. 0\<rparr>"
  obtain g' j' where g': "execute ?c swtch ?g = (g', j')" by fastforce
  have "j' = Jumps (regs ?h RA) \<and> (\<forall>r \<in> {RA, SP, S0, S1, S2, S3, S4, S5, S6, S7, S8, S9, S10, S11}. regs g' r = regs ?h r)"
  proof (rule swtch_round_trip [OF _ _ h' _ _ _ _ g', where old = "0x2000" and new = "0x1000" and other = "0x1000"])
    show "maps ?h (regs ?h A0) 0x2000 112" "maps ?h (regs ?h A1) 0x1000 112" "maps ?g (regs ?g A0) 0x1000 112"
      "maps ?g (regs ?g A1) 0x2000 112"
      using demo_hart_maps by (simp_all add: demo_hart_def)
    show "112 \<le> unat ((0x2000 :: u64) + of_nat k - 0x1000)" if "k < 112" for k
    proof -
      have "(0x2000 :: u64) + of_nat k - 0x1000 = 0x1000 + of_nat k" by simp
      moreover have "unat ((0x1000 :: u64) + of_nat k) = unat (0x1000 :: u64) + k" using that by (intro unat_add_of_nat) simp
      ultimately show ?thesis by (simp only:) simp
    qed
  qed simp
  then have "regs g' S5 = 7" "j' = Jumps 7" by (auto simp: demo_hart_def)
  moreover have "regs ?h S5 = 7" "regs ?g S5 = 0" by (simp_all add: demo_hart_def)
  ultimately show ?thesis using h' g' by blast
qed

theorem user_trap_round_trip_witness:
  "\<exists>h h' j k k' j' call. csrs h Sscratch = TRAPFRAME \<and> execute call uservec h = (h', j) \<and>
     execute call userret k = (k', j') \<and> regs k \<noteq> regs h \<and> regs k' = regs h \<and> j' = Sret"
proof -
  let ?c = "\<lambda>_ h. h"
  let ?h = "demo_hart\<lparr>regs := regs demo_hart, hmem := \<lambda>_. 0, csrs := \<lambda>_. TRAPFRAME\<rparr>"
  obtain h' j where h': "execute ?c uservec ?h = (h', j)" by fastforce
  let ?k = "demo_hart\<lparr>regs := \<lambda>r. if r = A0 then TRAPFRAME else 0, hmem := hmem h', csrs := \<lambda>_. 0\<rparr>"
  obtain k' j' where k': "execute ?c userret ?k = (k', j')" by fastforce
  have "regs h' SP = load64 (hmem ?h) (TRAPFRAME + 8) \<and> regs h' TP = load64 (hmem ?h) (TRAPFRAME + 32) \<and>
    csrs h' Satp = load64 (hmem ?h) TRAPFRAME \<and> j = Jumps (load64 (hmem ?h) (TRAPFRAME + 16)) \<and>
    j' = Sret \<and> regs k' = regs ?h \<and> csrs k' Sscratch = TRAPFRAME \<and> csrs k' Satp = regs ?k A1"
    by (rule user_trap_round_trip [OF _ _ _ h' _ _ _ _ k']) (use demo_hart_maps in \<open>simp_all add: demo_hart_def\<close>)
  moreover have "regs ?k S5 \<noteq> regs ?h S5" by (simp add: demo_hart_def)
  then have "regs ?k \<noteq> regs ?h" by metis
  moreover have "csrs ?h Sscratch = TRAPFRAME" by simp
  ultimately show ?thesis using h' k' by blast
qed

theorem kernelvec_transparent_witness:
  "\<exists>h h' call. regs (call ''kerneltrap'' h) S5 \<noteq> regs h S5 \<and> execute call kernelvec h = (h', Sret) \<and> regs h' S5 = regs h S5"
proof -
  let ?c = "\<lambda>(_ :: string) (g :: hart). g\<lparr>regs := (regs g)(S5 := 0), mmu := \<lambda>_ a. a\<rparr>"
  let ?h = "demo_hart\<lparr>regs := regs demo_hart, hmem := \<lambda>_. 0, csrs := \<lambda>_. 0\<rparr>"
  have id: "maps (?c ''kerneltrap'' g) va va k" for g va k by (simp add: maps_def paddr_def)
  have "\<exists>h'. execute ?c kernelvec ?h = (h', Sret) \<and> (\<forall>r. r \<noteq> TP \<longrightarrow> regs h' r = regs ?h r)"
  proof (rule kernelvec_transparent)
    show "maps ?h (regs ?h SP - 256) (regs ?h SP - 256) 248" by (rule demo_hart_maps)
    fix g :: hart
    assume "regs g SP = regs ?h SP - 256"
    then show "regs (?c ''kerneltrap'' g) SP = regs g SP \<and> maps (?c ''kerneltrap'' g) (regs g SP) (regs ?h SP - 256) 248 \<and>
       (\<forall>x. unat (x - (regs ?h SP - 256)) < 248 \<longrightarrow> hmem (?c ''kerneltrap'' g) x = hmem g x)"
      using id [of g "regs g SP" 248] by simp
  qed
  then obtain h' where "execute ?c kernelvec ?h = (h', Sret)" "regs h' S5 = regs ?h S5" by auto
  moreover have "regs (?c ''kerneltrap'' ?h) S5 \<noteq> regs ?h S5" by (simp add: demo_hart_def)
  ultimately show ?thesis by - (rule exI [of _ ?h], rule exI [of _ h'], rule exI [of _ ?c], simp)
qed

theorem timervec_ticks_witness:
  "\<exists>h h' call. csrs h Mscratch = 0x1000 \<and> load64 (hmem h) 0x2004000 = 0 \<and> execute call timervec h = (h', Mret) \<and>
     load64 (hmem h') 0x2004000 = 1000000 \<and> regs h' = regs h"
proof -
  let ?m = "store64 (store64 (\<lambda>_. 0) 0x1018 0x2004000) 0x1020 1000000"
  let ?h = "demo_hart\<lparr>hmem := ?m, csrs := \<lambda>_. 0x1000, mmode := True\<rparr>"
  have z: "load64 (\<lambda>_. 0) a = 0" for a by (rule load64_zero) simp
  have c: "load64 ?m 0x1018 = 0x2004000" "load64 ?m 0x1020 = 1000000" "load64 ?m 0x2004000 = 0"
    by (simp_all add: load64_store64_other z)
  have "\<exists>h'. execute (\<lambda>_ h. h) timervec ?h = (h', Mret) \<and> regs h' = regs ?h \<and> csrs h' = (csrs ?h)(Sip := 2) \<and>
    load64 (hmem h') 0x2004000 = load64 (hmem ?h) 0x2004000 + load64 (hmem ?h) (0x1000 + 32)"
    by (rule timervec_ticks) (use c in auto)
  then obtain h' where "execute (\<lambda>_ h. h) timervec ?h = (h', Mret)" "regs h' = regs ?h"
      "load64 (hmem h') 0x2004000 = 1000000"
    using c by auto
  moreover have "csrs ?h Mscratch = 0x1000" "load64 (hmem ?h) 0x2004000 = 0" using c by simp_all
  ultimately show ?thesis by blast
qed

end
