(* ===== verification/Spinlock.thy ===== *)
theory Spinlock
  imports Machine
begin

text \<open>
  Spin locks on several harts, \<open>kernel/spinlock.c\<close>. Here every hart has its \<open>struct cpu\<close> and its
  interrupt-enable bit, and a lock its \<open>locked\<close> word and the hart that holds it. The functions are
  the C functions run by one hart without interference; \<open>smp_step\<close> interleaves their atomic parts,
  one shared access at a time, among any number of harts.
\<close>

section \<open>State\<close>

text \<open>\<open>intr\<close> is the bit \<open>SIE\<close> of \<open>sstatus\<close>; \<open>lcpu\<close> is the field \<open>cpu\<close>, a pointer into \<open>cpus\<close>.\<close>

record cpu =
  noff :: int
  intena :: bool
  intr :: bool

record spinlock =
  locked :: bool
  lcpu :: "nat option"

record smp =
  cpus :: "nat \<Rightarrow> cpu"
  spins :: "lock \<Rightarrow> spinlock"

definition upd_cpu :: "nat \<Rightarrow> (cpu \<Rightarrow> cpu) \<Rightarrow> ('z smp_scheme, unit) kmon" where
  "upd_cpu c f = modify (\<lambda>s. s\<lparr>cpus := (cpus s)(c := f (cpus s c))\<rparr>)"

definition upd_spin :: "lock \<Rightarrow> (spinlock \<Rightarrow> spinlock) \<Rightarrow> ('z smp_scheme, unit) kmon" where
  "upd_spin lk f = modify (\<lambda>s. s\<lparr>spins := (spins s)(lk := f (spins s lk))\<rparr>)"

section \<open>The functions\<close>

definition initlock :: "lock \<Rightarrow> ('z smp_scheme, unit) kmon" where
  "initlock lk = upd_spin lk (\<lambda>_. \<lparr>locked = False, lcpu = None\<rparr>)"

definition spin_holding :: "nat \<Rightarrow> lock \<Rightarrow> 'z smp_scheme \<Rightarrow> bool" where
  "spin_holding c lk s \<longleftrightarrow> locked (spins s lk) \<and> lcpu (spins s lk) = Some c"

definition push_off :: "nat \<Rightarrow> ('z smp_scheme, unit) kmon" where
  "push_off c = bnd (gets (\<lambda>s. intr (cpus s c))) (\<lambda>old.
     bnd (upd_cpu c (\<lambda>u. u\<lparr>intr := False\<rparr>)) (\<lambda>_.
     bnd (gets (\<lambda>s. noff (cpus s c))) (\<lambda>n.
     bnd (guarded (n = 0) (upd_cpu c (\<lambda>u. u\<lparr>intena := old\<rparr>))) (\<lambda>_.
     upd_cpu c (\<lambda>u. u\<lparr>noff := noff u + 1\<rparr>)))))"

definition pop_off :: "nat \<Rightarrow> ('z smp_scheme, unit) kmon" where
  "pop_off c = bnd (gets (\<lambda>s. cpus s c)) (\<lambda>u.
     if intr u then panic ''pop_off - interruptible''
     else if noff u < 1 then panic ''pop_off''
     else bnd (upd_cpu c (\<lambda>u. u\<lparr>noff := noff u - 1\<rparr>)) (\<lambda>_.
       bnd (gets (\<lambda>s. cpus s c)) (\<lambda>u.
       guarded (noff u = 0 \<and> intena u) (upd_cpu c (\<lambda>u. u\<lparr>intr := True\<rparr>)))))"

text \<open>
  The parts of \<open>acquire\<close> and \<open>release\<close>: the check before the loop, one atomic swap (the result is
  the old value), the store to \<open>cpu\<close>; the check with the store to \<open>cpu\<close>, the unlocking store.
\<close>

definition acquire_enter :: "nat \<Rightarrow> lock \<Rightarrow> ('z smp_scheme, unit) kmon" where
  "acquire_enter c lk = bnd (push_off c) (\<lambda>_.
     bnd (gets (spin_holding c lk)) (\<lambda>h. if h then panic ''acquire'' else ret ()))"

definition test_and_set :: "lock \<Rightarrow> ('z smp_scheme, bool) kmon" where
  "test_and_set lk = bnd (gets (\<lambda>s. locked (spins s lk))) (\<lambda>old.
     bnd (upd_spin lk (\<lambda>l. l\<lparr>locked := True\<rparr>)) (\<lambda>_. ret old))"

definition set_holder :: "nat \<Rightarrow> lock \<Rightarrow> ('z smp_scheme, unit) kmon" where
  "set_holder c lk = upd_spin lk (\<lambda>l. l\<lparr>lcpu := Some c\<rparr>)"

definition clear_holder :: "nat \<Rightarrow> lock \<Rightarrow> ('z smp_scheme, unit) kmon" where
  "clear_holder c lk = bnd (gets (spin_holding c lk)) (\<lambda>h.
     if \<not> h then panic ''release'' else upd_spin lk (\<lambda>l. l\<lparr>lcpu := None\<rparr>))"

definition unlock :: "lock \<Rightarrow> ('z smp_scheme, unit) kmon" where
  "unlock lk = upd_spin lk (\<lambda>l. l\<lparr>locked := False\<rparr>)"

text \<open>The whole functions; a lock that another hart keeps makes the loop of \<open>acquire\<close> spin forever.\<close>

definition spin_acquire :: "nat \<Rightarrow> lock \<Rightarrow> ('z smp_scheme, unit) kmon" where
  "spin_acquire c lk = bnd (acquire_enter c lk) (\<lambda>_.
     bnd (test_and_set lk) (\<lambda>old.
     if old then stop (Blocked ''acquire'') else set_holder c lk))"

definition spin_release :: "nat \<Rightarrow> lock \<Rightarrow> ('z smp_scheme, unit) kmon" where
  "spin_release c lk = bnd (clear_holder c lk) (\<lambda>_. bnd (unlock lk) (\<lambda>_. pop_off c))"

lemmas spin_defs = push_off_def pop_off_def acquire_enter_def test_and_set_def set_holder_def clear_holder_def
  unlock_def spin_acquire_def spin_release_def upd_cpu_def upd_spin_def spin_holding_def

section \<open>Interleaving\<close>

text \<open>Where a hart is: outside, spinning for a lock, past the swap, past the clearing store, before \<open>pop_off\<close>.\<close>

datatype place = Out | Spinning lock | Won lock | Leaving lock | Popping

record system = smp +
  place :: "nat \<Rightarrow> place"

definition go :: "nat \<Rightarrow> place \<Rightarrow> system \<Rightarrow> system" where
  "go c pl s = s\<lparr>place := (place s)(c := pl)\<rparr>"

inductive smp_step :: "system \<Rightarrow> system \<Rightarrow> bool" where
  Enter: "place s c = Out \<Longrightarrow> acquire_enter c lk s = Ok () t \<Longrightarrow> smp_step s (go c (Spinning lk) t)"
| Spin: "place s c = Spinning lk \<Longrightarrow> test_and_set lk s = Ok True t \<Longrightarrow> smp_step s t"
| Win: "place s c = Spinning lk \<Longrightarrow> test_and_set lk s = Ok False t \<Longrightarrow> smp_step s (go c (Won lk) t)"
| Hold: "place s c = Won lk \<Longrightarrow> set_holder c lk s = Ok () t \<Longrightarrow> smp_step s (go c Out t)"
| Clear: "place s c = Out \<Longrightarrow> clear_holder c lk s = Ok () t \<Longrightarrow> smp_step s (go c (Leaving lk) t)"
| Unlock: "place s c = Leaving lk \<Longrightarrow> unlock lk s = Ok () t \<Longrightarrow> smp_step s (go c Popping t)"
| Pop: "place s c = Popping \<Longrightarrow> pop_off c s = Ok () t \<Longrightarrow> smp_step s (go c Out t)"
| Interrupts: "place s c = Out \<Longrightarrow> noff (cpus s c) = 0 \<Longrightarrow> smp_step s (s\<lparr>cpus := (cpus s)(c := (cpus s c)\<lparr>intr := b\<rparr>)\<rparr>)"

text \<open>The boot state: no lock is taken.\<close>

definition smp_init :: "system \<Rightarrow> bool" where
  "smp_init s \<longleftrightarrow> (\<forall>lk. spins s lk = \<lparr>locked = False, lcpu = None\<rparr>) \<and> (\<forall>c. place s c = Out \<and> noff (cpus s c) = 0)"

text \<open>A hart owns a lock from the winning swap to the unlocking store.\<close>

definition owns :: "system \<Rightarrow> nat \<Rightarrow> lock \<Rightarrow> bool" where
  "owns s c lk \<longleftrightarrow> lcpu (spins s lk) = Some c \<or> place s c = Won lk \<or> place s c = Leaving lk"

text \<open>The locks a hart is recorded as holding, and its nesting depth.\<close>

definition held_by :: "system \<Rightarrow> nat \<Rightarrow> lock set" where
  "held_by s c = {lk. lcpu (spins s lk) = Some c}"

text \<open>An owned lock is locked and has one owner, and its \<open>cpu\<close> field is empty around the stores.\<close>

definition locks_ok :: "system \<Rightarrow> bool" where
  "locks_ok s \<longleftrightarrow> (\<forall>c lk. owns s c lk \<longrightarrow> locked (spins s lk) \<and> (\<forall>d. owns s d lk \<longrightarrow> d = c)) \<and>
     (\<forall>c lk. place s c = Won lk \<or> place s c = Leaving lk \<longrightarrow> lcpu (spins s lk) = None)"

text \<open>The depth of a hart counts its locks and the call it is in, and interrupts are off below depth 0.\<close>

definition hart_ok :: "system \<Rightarrow> nat \<Rightarrow> bool" where
  "hart_ok s c \<longleftrightarrow> finite (held_by s c) \<and>
     noff (cpus s c) = int (card (held_by s c)) + (if place s c = Out then 0 else 1) \<and>
     (0 < noff (cpus s c) \<longrightarrow> \<not> intr (cpus s c))"

definition smp_inv :: "system \<Rightarrow> bool" where
  "smp_inv s \<longleftrightarrow> locks_ok s \<and> (\<forall>c. hart_ok s c)"

end
