(* ===== verification/Spinlock_Spec.thy ===== *)
theory Spinlock_Spec
  imports Spinlock "HOL-Library.Multiset"
begin

text \<open>
  Correctness of the spin locks: mutual exclusion among the harts with interrupts off, the interrupt
  state across nested critical sections, and the refinement to the list of held locks that the other
  theories work with.
\<close>

section \<open>What the functions do\<close>

definition pushed :: "cpu \<Rightarrow> cpu" where
  "pushed u = u\<lparr>intr := False, intena := (if noff u = 0 then intr u else intena u), noff := noff u + 1\<rparr>"

definition popped :: "cpu \<Rightarrow> cpu" where
  "popped u = (if noff u = 1 \<and> intena u then u\<lparr>noff := 0, intr := True\<rparr> else u\<lparr>noff := noff u - 1\<rparr>)"

lemma push_off_run: "push_off c s = Ok () (s\<lparr>cpus := (cpus s)(c := pushed (cpus s c))\<rparr>)"
  by (cases "noff (cpus s c) = 0") (simp_all add: spin_defs pushed_def)

lemma pop_off_Ok:
  "pop_off c s = Ok () t \<longleftrightarrow> \<not> intr (cpus s c) \<and> 1 \<le> noff (cpus s c) \<and> t = s\<lparr>cpus := (cpus s)(c := popped (cpus s c))\<rparr>"
  by (auto simp: spin_defs popped_def guarded_def split: if_splits)

lemma acquire_enter_Ok:
  "acquire_enter c lk s = Ok () t \<longleftrightarrow> \<not> spin_holding c lk s \<and> t = s\<lparr>cpus := (cpus s)(c := pushed (cpus s c))\<rparr>"
  by (auto simp: acquire_enter_def push_off_run spin_holding_def split: if_splits)

lemma test_and_set_Ok:
  "test_and_set lk s = Ok old t \<longleftrightarrow>
     old = locked (spins s lk) \<and> t = s\<lparr>spins := (spins s)(lk := (spins s lk)\<lparr>locked := True\<rparr>)\<rparr>"
  by (auto simp: spin_defs)

lemma set_holder_Ok: "set_holder c lk s = Ok () t \<longleftrightarrow> t = s\<lparr>spins := (spins s)(lk := (spins s lk)\<lparr>lcpu := Some c\<rparr>)\<rparr>"
  by (auto simp: spin_defs)

lemma clear_holder_Ok:
  "clear_holder c lk s = Ok () t \<longleftrightarrow>
     spin_holding c lk s \<and> t = s\<lparr>spins := (spins s)(lk := (spins s lk)\<lparr>lcpu := None\<rparr>)\<rparr>"
  by (auto simp: spin_defs split: if_splits)

lemma unlock_Ok: "unlock lk s = Ok () t \<longleftrightarrow> t = s\<lparr>spins := (spins s)(lk := (spins s lk)\<lparr>locked := False\<rparr>)\<rparr>"
  by (auto simp: spin_defs)

lemmas spin_effects = push_off_run pop_off_Ok acquire_enter_Ok test_and_set_Ok set_holder_Ok clear_holder_Ok unlock_Ok

section \<open>Mutual exclusion\<close>

lemma place_go [simp]: "place (go c pl s) = (place s)(c := pl)" "spins (go c pl s) = spins s" "cpus (go c pl s) = cpus s"
  by (simp_all add: go_def)

lemma held_by_go [simp]: "held_by (go c pl s) = held_by s"
  by (simp add: held_by_def fun_eq_iff)

lemma pushed_simps [simp]: "noff (pushed u) = noff u + 1" "\<not> intr (pushed u)"
  by (simp_all add: pushed_def)

lemma popped_simps [simp]:
  "noff (popped u) = noff u - 1" "0 < noff u - 1 \<Longrightarrow> intr (popped u) = intr u"
  by (simp_all add: popped_def)

lemma smp_inv_init: "smp_init s \<Longrightarrow> smp_inv s"
  by (auto simp: smp_init_def smp_inv_def locks_ok_def hart_ok_def owns_def held_by_def)

lemma hart_ok_cong:
  "place t d = place s d \<Longrightarrow> cpus t d = cpus s d \<Longrightarrow> held_by t d = held_by s d \<Longrightarrow> hart_ok t d = hart_ok s d"
  by (simp add: hart_ok_def)

text \<open>It suffices to consider the locks and the hart that takes the step.\<close>

lemma smp_inv_step:
  assumes "smp_inv s"
    and "\<And>d. d \<noteq> c \<Longrightarrow> place t d = place s d \<and> cpus t d = cpus s d \<and> held_by t d = held_by s d"
    and "locks_ok t" and "hart_ok t c"
  shows "smp_inv t"
  using assms hart_ok_cong [of t _ s] unfolding smp_inv_def by metis

lemma locks_ok_same:
  assumes "locks_ok s" and "owns t = owns s" and "spins t = spins s"
    and "\<And>c lk. place t c = Won lk \<or> place t c = Leaving lk \<Longrightarrow> place s c = place t c"
  shows "locks_ok t"
  using assms unfolding locks_ok_def by metis

lemma locks_okD:
  assumes "locks_ok s"
  shows "owns s c lk \<Longrightarrow> locked (spins s lk)" and "owns s c lk \<Longrightarrow> owns s d lk \<Longrightarrow> d = c"
    and "place s c = Won lk \<Longrightarrow> lcpu (spins s lk) = None" and "place s c = Leaving lk \<Longrightarrow> lcpu (spins s lk) = None"
  using assms unfolding locks_ok_def by blast+

text \<open>The steps on a lock: the winning swap, the store of the holder, its removal, the unlocking store.\<close>

lemma win_inv:
  assumes inv: "smp_inv s" and p: "place s c = Spinning lk" and f: "\<not> locked (spins s lk)"
    and t: "place t = (place s)(c := Won lk)" "spins t = (spins s)(lk := (spins s lk)\<lparr>locked := True\<rparr>)" "cpus t = cpus s"
  shows "smp_inv t"
proof -
  have L: "locks_ok s" and H: "hart_ok s c" using inv by (auto simp: smp_inv_def)
  have h: "held_by t = held_by s" by (auto simp: held_by_def t fun_eq_iff)
  have no: "\<not> owns s d lk" for d using locks_okD(1) [OF L] f by blast
  have e: "lcpu (spins s lk) = None" using no by (cases "lcpu (spins s lk)") (auto simp: owns_def)
  have o: "owns t d l = (if l = lk then d = c else owns s d l)" for d l
    using no e p by (auto simp: owns_def t)
  have "locks_ok t" using L e unfolding locks_ok_def by (auto simp: o t split: if_splits)
  then show ?thesis using H p by (intro smp_inv_step [OF inv, of c]) (auto simp: hart_ok_def h t)
qed

lemma hold_inv:
  assumes inv: "smp_inv s" and p: "place s c = Won lk"
    and t: "place t = (place s)(c := Out)" "spins t = (spins s)(lk := (spins s lk)\<lparr>lcpu := Some c\<rparr>)" "cpus t = cpus s"
  shows "smp_inv t"
proof -
  have L: "locks_ok s" and H: "hart_ok s c" using inv by (auto simp: smp_inv_def)
  have e: "lcpu (spins s lk) = None" and oc: "owns s c lk" using locks_okD(3) [OF L p] p by (auto simp: owns_def)
  have h: "held_by t d = (if d = c then insert lk (held_by s d) else held_by s d)" for d using e by (auto simp: held_by_def t)
  have u: "d = c" if "place s d = Won lk \<or> place s d = Leaving lk" for d
    using locks_okD(2) [OF L oc, of d] that by (auto simp: owns_def)
  then have o: "owns t = owns s" using p e by (auto simp: owns_def t fun_eq_iff)
  have "locks_ok t" using L u unfolding locks_ok_def by (auto simp: o t split: if_splits)
  moreover have "lk \<notin> held_by s c" using e by (simp add: held_by_def)
  ultimately show ?thesis using H p by (intro smp_inv_step [OF inv, of c]) (auto simp: hart_ok_def h t)
qed

lemma clear_inv:
  assumes inv: "smp_inv s" and p: "place s c = Out" and e: "lcpu (spins s lk) = Some c"
    and t: "place t = (place s)(c := Leaving lk)" "spins t = (spins s)(lk := (spins s lk)\<lparr>lcpu := None\<rparr>)" "cpus t = cpus s"
  shows "smp_inv t"
proof -
  have L: "locks_ok s" and H: "hart_ok s c" using inv by (auto simp: smp_inv_def)
  have h: "held_by t d = (if d = c then held_by s d - {lk} else held_by s d)" for d using e by (auto simp: held_by_def t)
  have u: "place s d \<noteq> Won lk" "place s d \<noteq> Leaving lk" for d using locks_okD(3,4) [OF L, of d lk] e by auto
  then have o: "owns t = owns s" using p e by (auto simp: owns_def t fun_eq_iff)
  have "locks_ok t" using L unfolding locks_ok_def by (auto simp: o t split: if_splits)
  moreover have i: "lk \<in> held_by s c" using e by (simp add: held_by_def)
  moreover from i have "0 < card (held_by s c)" using H by (auto simp: hart_ok_def card_gt_0_iff)
  moreover have "card (held_by s c - {lk}) = card (held_by s c) - 1" using i by simp
  ultimately show ?thesis using H p by (intro smp_inv_step [OF inv, of c]) (auto simp: hart_ok_def h t)
qed

lemma unlock_inv:
  assumes inv: "smp_inv s" and p: "place s c = Leaving lk"
    and t: "place t = (place s)(c := Popping)" "spins t = (spins s)(lk := (spins s lk)\<lparr>locked := False\<rparr>)" "cpus t = cpus s"
  shows "smp_inv t"
proof -
  have L: "locks_ok s" and H: "hart_ok s c" using inv by (auto simp: smp_inv_def)
  have h: "held_by t = held_by s" by (auto simp: held_by_def t fun_eq_iff)
  have e: "lcpu (spins s lk) = None" and oc: "owns s c lk" using locks_okD(4) [OF L p] p by (auto simp: owns_def)
  have u: "d = c" if "place s d = Won lk \<or> place s d = Leaving lk" for d
    using locks_okD(2) [OF L oc, of d] that by (auto simp: owns_def)
  then have o: "owns t d l = (l \<noteq> lk \<and> owns s d l)" for d l using p e by (auto simp: owns_def t)
  have "locks_ok t" using L unfolding locks_ok_def by (auto simp: o t split: if_splits)
  then show ?thesis using H p by (intro smp_inv_step [OF inv, of c]) (auto simp: hart_ok_def h t)
qed

text \<open>The other steps leave the locks alone.\<close>

lemma quiet_inv:
  assumes inv: "smp_inv s" and t: "spins t = spins s" "place t = (place s)(c := pl)" "cpus t = (cpus s)(c := u)"
    and quiet: "place s c \<in> {Out, Popping}" "pl \<notin> range Won \<union> range Leaving"
    and u: "noff u = int (card (held_by s c)) + (if pl = Out then 0 else 1)" "0 < noff u \<Longrightarrow> \<not> intr u"
  shows "smp_inv t"
proof -
  have L: "locks_ok s" and H: "hart_ok s c" using inv by (auto simp: smp_inv_def)
  have o: "owns t = owns s" and h: "held_by t = held_by s" using quiet by (auto simp: owns_def held_by_def t fun_eq_iff)
  have "locks_ok t" by (rule locks_ok_same [OF L o t(1)]) (use quiet in \<open>auto simp: t split: if_splits\<close>)
  then show ?thesis using H u by (intro smp_inv_step [OF inv, of c]) (auto simp: hart_ok_def h t)
qed

lemma smp_step_inv:
  assumes "smp_step s t" and inv: "smp_inv s"
  shows "smp_inv t"
proof -
  have H: "hart_ok s c" for c using inv by (simp add: smp_inv_def)
  from assms(1) show ?thesis
  proof cases
    case (Enter c lk t')
    then show ?thesis using H [of c]
      by (intro quiet_inv [OF inv, of t c "Spinning lk" "pushed (cpus s c)"]) (auto simp: acquire_enter_Ok hart_ok_def)
  next
    case (Spin c lk)
    then have t: "spins t = spins s" "cpus t = cpus s" "place t = place s" by (auto simp: test_and_set_Ok fun_eq_iff)
    then have "owns t = owns s" "held_by t = held_by s" by (auto simp: owns_def held_by_def fun_eq_iff)
    with inv t show ?thesis by (simp add: smp_inv_def locks_ok_def hart_ok_def)
  next
    case (Win c lk t')
    then show ?thesis by (intro win_inv [OF inv, of c lk]) (auto simp: test_and_set_Ok)
  next
    case (Hold c lk t')
    then show ?thesis by (intro hold_inv [OF inv, of c lk]) (auto simp: set_holder_Ok)
  next
    case (Clear c lk t')
    then show ?thesis by (intro clear_inv [OF inv, of c lk]) (auto simp: clear_holder_Ok spin_holding_def)
  next
    case (Unlock c lk t')
    then show ?thesis by (intro unlock_inv [OF inv, of c lk]) (auto simp: unlock_Ok)
  next
    case (Pop c t')
    then show ?thesis using H [of c]
      by (intro quiet_inv [OF inv, of t c Out "popped (cpus s c)"]) (auto simp: pop_off_Ok hart_ok_def)
  next
    case (Interrupts c b)
    then show ?thesis using H [of c]
      by (intro quiet_inv [OF inv, of t c Out "(cpus s c)\<lparr>intr := b\<rparr>"]) (auto simp: hart_ok_def)
  qed
qed

lemma smp_reachable_inv: "smp_step\<^sup>*\<^sup>* s t \<Longrightarrow> smp_init s \<Longrightarrow> smp_inv t"
  by (induction rule: rtranclp_induct) (auto intro: smp_inv_init smp_step_inv)


text \<open>
  C17. Mutual exclusion on any number of harts: whatever the interleaving of the accesses, a lock
  that a hart owns, from its winning swap to its unlocking store, is marked taken and owned by no
  other hart, and that hart has interrupts off; and the \<open>pop_off\<close> of a hart that releases a lock
  does not panic.
\<close>

theorem spinlock_mutual_exclusion:
  assumes "smp_init s" and "smp_step\<^sup>*\<^sup>* s t"
  shows "(owns t c lk \<longrightarrow> locked (spins t lk) \<and> \<not> intr (cpus t c) \<and> 0 < noff (cpus t c)) \<and>
    (owns t c lk \<and> owns t d lk \<longrightarrow> c = d) \<and> (place t c = Popping \<longrightarrow> (\<exists>u. pop_off c t = Ok () u))"
proof -
  have L: "locks_ok t" and H: "hart_ok t c" using smp_reachable_inv [OF assms(2,1)] by (auto simp: smp_inv_def)
  have "0 < noff (cpus t c)" if "owns t c lk"
  proof (cases "place t c = Out")
    case True
    then have "lk \<in> held_by t c" using that by (auto simp: owns_def held_by_def)
    then show ?thesis using H True by (auto simp: hart_ok_def card_gt_0_iff)
  qed (use H in \<open>simp add: hart_ok_def\<close>)
  then show ?thesis using locks_okD(1,2) [OF L] H by (auto simp: hart_ok_def pop_off_Ok)
qed

section \<open>Nested critical sections\<close>

text \<open>A hart as the functions keep it: interrupts are off below depth 0.\<close>

definition cpu_ok :: "cpu \<Rightarrow> bool" where
  "cpu_ok u \<longleftrightarrow> 0 \<le> noff u \<and> (0 < noff u \<longrightarrow> \<not> intr u)"

lemma spin_acquire_run:
  "spin_acquire c lk s =
     (if spin_holding c lk s then Halt (Panic ''acquire'') (s\<lparr>cpus := (cpus s)(c := pushed (cpus s c))\<rparr>)
      else if locked (spins s lk) then Halt (Blocked ''acquire'') (s\<lparr>cpus := (cpus s)(c := pushed (cpus s c))\<rparr>)
      else Ok () (s\<lparr>cpus := (cpus s)(c := pushed (cpus s c)), spins := (spins s)(lk := (spins s lk)\<lparr>locked := True, lcpu := Some c\<rparr>)\<rparr>))"
  by (auto simp: spin_acquire_def acquire_enter_def push_off_run test_and_set_def set_holder_def upd_spin_def
      spin_holding_def fun_upd_idem)

lemma spin_release_run:
  "spin_release c lk s =
     (if \<not> spin_holding c lk s then Halt (Panic ''release'') s
      else pop_off c (s\<lparr>spins := (spins s)(lk := \<lparr>locked = False, lcpu = None\<rparr>)\<rparr>))"
  by (cases "spins s lk") (auto simp: spin_release_def clear_holder_def unlock_def upd_spin_def)

lemma spin_acquire_all:
  assumes "distinct lks" and "\<And>lk. lk \<in> set lks \<Longrightarrow> \<not> locked (spins s lk)"
  shows "\<exists>t. for_each (spin_acquire c) lks s = Ok () t \<and> cpus t = (cpus s)(c := (pushed ^^ length lks) (cpus s c)) \<and>
    spins t = (\<lambda>lk. if lk \<in> set lks then \<lparr>locked = True, lcpu = Some c\<rparr> else spins s lk)"
  using assms
proof (induction lks arbitrary: s)
  case (Cons lk lks)
  let ?s = "s\<lparr>cpus := (cpus s)(c := pushed (cpus s c)), spins := (spins s)(lk := (spins s lk)\<lparr>locked := True, lcpu := Some c\<rparr>)\<rparr>"
  have "spin_acquire c lk s = Ok () ?s" using Cons.prems by (simp add: spin_acquire_run spin_holding_def)
  moreover have "\<not> locked (spins ?s l)" if "l \<in> set lks" for l using Cons.prems that by auto
  then obtain t where "for_each (spin_acquire c) lks ?s = Ok () t"
      "cpus t = (cpus ?s)(c := (pushed ^^ length lks) (cpus ?s c))"
      "spins t = (\<lambda>l. if l \<in> set lks then \<lparr>locked = True, lcpu = Some c\<rparr> else spins ?s l)"
    using Cons.IH [of ?s] Cons.prems(1) by (simp only: distinct.simps) blast
  ultimately show ?case by (cases "spins s lk", intro exI [of _ t]) (auto simp: funpow_swap1 fun_eq_iff)
qed (simp add: fun_eq_iff)

lemma spin_release_all:
  assumes "distinct lks" and "\<And>lk. lk \<in> set lks \<Longrightarrow> spins s lk = \<lparr>locked = True, lcpu = Some c\<rparr>"
    and "\<And>k. k < length lks \<Longrightarrow> \<not> intr ((popped ^^ k) (cpus s c))" and "int (length lks) \<le> noff (cpus s c)"
  shows "\<exists>t. for_each (spin_release c) lks s = Ok () t \<and> cpus t = (cpus s)(c := (popped ^^ length lks) (cpus s c)) \<and>
    spins t = (\<lambda>lk. if lk \<in> set lks then \<lparr>locked = False, lcpu = None\<rparr> else spins s lk)"
  using assms
proof (induction lks arbitrary: s)
  case (Cons lk lks)
  let ?s = "s\<lparr>spins := (spins s)(lk := \<lparr>locked = False, lcpu = None\<rparr>), cpus := (cpus s)(c := popped (cpus s c))\<rparr>"
  have "\<not> intr (cpus s c)" using Cons.prems(3) [of 0] by simp
  then have run: "spin_release c lk s = Ok () ?s" using Cons.prems(2,4) by (simp add: spin_release_run spin_holding_def pop_off_Ok)
  have "\<not> intr ((popped ^^ k) (cpus ?s c))" if "k < length lks" for k
    using Cons.prems(3) [of "Suc k"] that by (simp add: funpow_swap1)
  moreover have "spins ?s l = \<lparr>locked = True, lcpu = Some c\<rparr>" if "l \<in> set lks" for l using Cons.prems(1,2) that by auto
  moreover have "int (length lks) \<le> noff (cpus ?s c)" using Cons.prems(4) by simp
  ultimately obtain t where "for_each (spin_release c) lks ?s = Ok () t"
      "cpus t = (cpus ?s)(c := (popped ^^ length lks) (cpus ?s c))"
      "spins t = (\<lambda>l. if l \<in> set lks then \<lparr>locked = False, lcpu = None\<rparr> else spins ?s l)"
    using Cons.IH [of ?s] Cons.prems(1) by (simp only: distinct.simps) blast
  with run show ?case by (intro exI [of _ t]) (auto simp: funpow_swap1 fun_eq_iff)
qed (simp add: fun_eq_iff)

lemma pushed_depth:
  "0 < n \<Longrightarrow> 0 \<le> noff u \<Longrightarrow> noff ((pushed ^^ n) u) = noff u + int n \<and> \<not> intr ((pushed ^^ n) u) \<and>
    intena ((pushed ^^ n) u) = (if noff u = 0 then intr u else intena u)"
proof (induction n)
  case (Suc n)
  then show ?case by (cases n) (auto simp: pushed_def)
qed simp

lemma popped_depth:
  assumes "\<not> intr u" and "int k \<le> noff u"
  shows "noff ((popped ^^ k) u) = noff u - int k \<and> intena ((popped ^^ k) u) = intena u \<and>
    intr ((popped ^^ k) u) = (0 < k \<and> noff u = int k \<and> intena u)"
  using assms(2) by (induction k) (use assms(1) in \<open>auto simp: popped_def\<close>)

text \<open>
  C19. Critical sections nest: taking any free locks and releasing them in any order brings back the
  locks, the nesting depth and the interrupt state of the hart; in between interrupts are off.
\<close>

theorem critical_sections_nest:
  assumes "cpu_ok (cpus s c)" and "distinct lks" and "mset lks' = mset lks"
    and free: "\<And>lk. lk \<in> set lks \<Longrightarrow> spins s lk = \<lparr>locked = False, lcpu = None\<rparr>"
  shows "\<exists>t u. for_each (spin_acquire c) lks s = Ok () t \<and> (lks \<noteq> [] \<longrightarrow> \<not> intr (cpus t c)) \<and>
    for_each (spin_release c) lks' t = Ok () u \<and> spins u = spins s \<and>
    noff (cpus u c) = noff (cpus s c) \<and> intr (cpus u c) = intr (cpus s c) \<and> (\<forall>d. d \<noteq> c \<longrightarrow> cpus u d = cpus s d)"
proof -
  let ?n = "length lks" and ?v = "(pushed ^^ length lks) (cpus s c)"
  have ok: "0 \<le> noff (cpus s c)" "0 < noff (cpus s c) \<Longrightarrow> \<not> intr (cpus s c)" using assms(1) by (auto simp: cpu_ok_def)
  have l: "length lks' = ?n" "set lks' = set lks" "distinct lks'"
    using assms(2,3) by (auto dest: mset_eq_length mset_eq_setD mset_eq_imp_distinct_iff)
  obtain t where t: "for_each (spin_acquire c) lks s = Ok () t" "cpus t = (cpus s)(c := ?v)"
      "spins t = (\<lambda>lk. if lk \<in> set lks then \<lparr>locked = True, lcpu = Some c\<rparr> else spins s lk)"
    using spin_acquire_all [OF assms(2), of s c] free by auto
  show ?thesis
  proof (cases "lks = []")
    case False
    then have v: "noff ?v = noff (cpus s c) + int ?n" "\<not> intr ?v" "intena ?v = (if noff (cpus s c) = 0 then intr (cpus s c) else intena (cpus s c))"
      using pushed_depth [of ?n "cpus s c"] ok(1) by auto
    have p: "noff ((popped ^^ k) ?v) = noff ?v - int k \<and> intr ((popped ^^ k) ?v) = (0 < k \<and> noff ?v = int k \<and> intena ?v)" if "k \<le> ?n" for k
      using popped_depth [OF v(2), of k] that v(1) ok(1) by auto
    obtain u where "for_each (spin_release c) lks' t = Ok () u" "cpus u = (cpus t)(c := (popped ^^ ?n) ?v)"
        "spins u = (\<lambda>lk. if lk \<in> set lks then \<lparr>locked = False, lcpu = None\<rparr> else spins t lk)"
      using spin_release_all [OF l(3), of t c] p v ok(1) by (auto simp: l t)
    with t v p [of ?n] ok free False show ?thesis by (auto simp: fun_eq_iff)
  qed (use assms(3) t in auto)
qed

section \<open>The list of held locks\<close>

text \<open>The locks of a hart as \<open>Machine\<close> lists them.\<close>

definition hart_view :: "nat \<Rightarrow> 'z smp_scheme \<Rightarrow> lock list \<Rightarrow> bool" where
  "hart_view c s ls \<longleftrightarrow> distinct ls \<and> (\<forall>lk. spin_holding c lk s \<longleftrightarrow> lk \<in> set ls) \<and>
     noff (cpus s c) = int (length ls) \<and> (ls \<noteq> [] \<longrightarrow> \<not> intr (cpus s c))"

lemma hart_view_acquire:
  assumes "hart_view c s ls" and "spin_acquire c lk s = Ok () t"
  shows "lk \<notin> set ls \<and> hart_view c t (lk # ls)"
proof -
  have t: "\<not> spin_holding c lk s" "\<not> locked (spins s lk)"
      "t = s\<lparr>cpus := (cpus s)(c := pushed (cpus s c)), spins := (spins s)(lk := (spins s lk)\<lparr>locked := True, lcpu := Some c\<rparr>)\<rparr>"
    using assms(2) by (auto simp: spin_acquire_run split: if_splits)
  then have "spin_holding c l t \<longleftrightarrow> l = lk \<or> spin_holding c l s" for l by (simp add: spin_holding_def)
  with assms(1) t show ?thesis unfolding hart_view_def by simp
qed

lemma hart_view_release:
  assumes "hart_view c s ls" and "lk \<in> set ls"
  shows "\<exists>t. spin_release c lk s = Ok () t \<and> hart_view c t (remove1 lk ls)"
proof -
  let ?s = "s\<lparr>spins := (spins s)(lk := \<lparr>locked = False, lcpu = None\<rparr>)\<rparr>"
  let ?t = "?s\<lparr>cpus := (cpus s)(c := popped (cpus s c))\<rparr>"
  have v: "distinct ls" "\<And>l. spin_holding c l s = (l \<in> set ls)" "noff (cpus s c) = int (length ls)" "ls \<noteq> [] \<longrightarrow> \<not> intr (cpus s c)"
    using assms(1) unfolding hart_view_def by blast+
  have len: "0 < length ls" "ls \<noteq> []" using assms(2) by (cases ls; simp)+
  have run: "spin_release c lk s = Ok () ?t" using v(2) [of lk] v(3,4) assms(2) len by (simp add: spin_release_run pop_off_Ok Suc_le_eq)
  have "spin_holding c l ?t \<longleftrightarrow> l \<in> set (remove1 lk ls)" for l
    using v(1) v(2) [of l] by (cases "l = lk") (simp_all add: spin_holding_def)
  moreover have "noff (cpus ?t c) = int (length (remove1 lk ls))"
    using v(3) assms(2) len by (simp add: length_remove1 of_nat_diff Suc_le_eq)
  moreover have "\<not> intr (cpus ?t c)" if "remove1 lk ls \<noteq> []"
  proof -
    have "length ls \<noteq> 1" using that assms(2) by (cases ls) auto
    then show ?thesis using v(3,4) len by (simp add: popped_def)
  qed
  ultimately have "hart_view c ?t (remove1 lk ls)" using v(1) unfolding hart_view_def by (simp add: distinct_remove1)
  with run show ?thesis by blast
qed

lemma hart_view_other:
  assumes "hart_view d s ls" and "d \<noteq> c" and "spin_acquire c lk s = Ok () t \<or> spin_release c lk s = Ok () t"
  shows "hart_view d t ls"
proof -
  have "spin_holding d l t = spin_holding d l s" for l
    using assms(2,3) by (auto simp: spin_acquire_run spin_release_run pop_off_Ok spin_holding_def split: if_splits)
  moreover have "cpus t d = cpus s d"
    using assms(2,3) by (auto simp: spin_acquire_run spin_release_run pop_off_Ok split: if_splits)
  ultimately show ?thesis using assms(1) unfolding hart_view_def by simp
qed

text \<open>
  C18. The lock operations refine those on the list of held locks: on every branch \<open>acquire\<close> and
  \<open>release\<close> of a hart give what the operations on its list give, with the same panics and the list
  in step, and they leave the lists of the other harts alone; \<open>acquire\<close> waits only for a lock that
  is taken and not its own.
\<close>

theorem spinlock_refines_lock_list:
  assumes "hart_view c s (locks m)" and "d \<noteq> c" and "hart_view d s ls"
  shows "(case spin_acquire c lk s of
      Ok _ t \<Rightarrow> \<exists>n. acquire lk m = Ok () n \<and> hart_view c t (locks n) \<and> hart_view d t ls
    | Halt h t \<Rightarrow> acquire lk m = Halt h m \<or> h = Blocked ''acquire'' \<and> locked (spins s lk) \<and> \<not> spin_holding c lk s) \<and>
    (case spin_release c lk s of
      Ok _ t \<Rightarrow> \<exists>n. release lk m = Ok () n \<and> hart_view c t (locks n) \<and> hart_view d t ls
    | Halt h t \<Rightarrow> release lk m = Halt h m)"
proof
  have held: "spin_holding c lk s \<longleftrightarrow> lk \<in> set (locks m)" using assms(1) by (simp add: hart_view_def)
  show "case spin_acquire c lk s of
      Ok _ t \<Rightarrow> \<exists>n. acquire lk m = Ok () n \<and> hart_view c t (locks n) \<and> hart_view d t ls
    | Halt h t \<Rightarrow> acquire lk m = Halt h m \<or> h = Blocked ''acquire'' \<and> locked (spins s lk) \<and> \<not> spin_holding c lk s"
  proof (cases "spin_acquire c lk s")
    case (Ok x t)
    with hart_view_acquire [OF assms(1), of lk t] hart_view_other [OF assms(3,2), of lk t] show ?thesis
      by (simp add: acquire_run)
  next
    case (Halt h t)
    then show ?thesis using held acquire_held [of lk m] by (auto simp: spin_acquire_run split: if_splits)
  qed
  show "case spin_release c lk s of
      Ok _ t \<Rightarrow> \<exists>n. release lk m = Ok () n \<and> hart_view c t (locks n) \<and> hart_view d t ls
    | Halt h t \<Rightarrow> release lk m = Halt h m"
  proof (cases "lk \<in> set (locks m)")
    case True
    with hart_view_release [OF assms(1) True] hart_view_other [OF assms(3,2), of lk] show ?thesis
      by (auto simp: release_run)
  next
    case False
    then show ?thesis using held release_not_held [of lk m] by (simp add: spin_release_run)
  qed
qed

section \<open>Concrete harts\<close>

definition demo_smp :: system where
  "demo_smp = \<lparr>cpus = \<lambda>_. \<lparr>noff = 0, intena = False, intr = True\<rparr>, spins = \<lambda>_. \<lparr>locked = False, lcpu = None\<rparr>, place = \<lambda>_. Out\<rparr>"

definition demo_won :: system where
  "demo_won = demo_smp\<lparr>cpus := (cpus demo_smp)(0 := \<lparr>noff = 1, intena = True, intr = False\<rparr>),
     spins := (spins demo_smp)(Lock ''kmem'' 0 := \<lparr>locked = True, lcpu = None\<rparr>), place := (place demo_smp)(0 := Won (Lock ''kmem'' 0))\<rparr>"

lemma demo_won_reached: "smp_step\<^sup>*\<^sup>* demo_smp demo_won"
proof -
  let ?l = "Lock ''kmem'' 0"
  let ?t = "demo_smp\<lparr>cpus := (cpus demo_smp)(0 := \<lparr>noff = 1, intena = True, intr = False\<rparr>)\<rparr>"
  have "smp_step demo_smp (go 0 (Spinning ?l) ?t)"
    by (rule smp_step.Enter) (simp_all add: demo_smp_def acquire_enter_Ok spin_holding_def pushed_def)
  moreover have "smp_step (go 0 (Spinning ?l) ?t) (go 0 (Won ?l) (go 0 (Spinning ?l) ?t\<lparr>spins := (spins demo_smp)(?l := \<lparr>locked = True, lcpu = None\<rparr>)\<rparr>))"
    by (rule smp_step.Win) (simp_all add: demo_smp_def test_and_set_Ok go_def)
  moreover have "go 0 (Won ?l) (go 0 (Spinning ?l) ?t\<lparr>spins := (spins demo_smp)(?l := \<lparr>locked = True, lcpu = None\<rparr>)\<rparr>) = demo_won"
    by (simp add: demo_won_def demo_smp_def go_def)
  ultimately show ?thesis by (metis r_into_rtranclp rtranclp_trans)
qed

theorem spinlock_mutual_exclusion_witness:
  "\<exists>t. smp_step\<^sup>*\<^sup>* demo_smp t \<and> owns t 0 (Lock ''kmem'' 0) \<and> locked (spins t (Lock ''kmem'' 0)) \<and> \<not> owns t 1 (Lock ''kmem'' 0)"
proof -
  have i: "smp_init demo_smp" by (simp add: smp_init_def demo_smp_def)
  have o: "owns demo_won 0 (Lock ''kmem'' 0)" by (simp add: owns_def demo_won_def)
  show ?thesis using spinlock_mutual_exclusion [OF i demo_won_reached, of 0 "Lock ''kmem'' 0" 1] demo_won_reached o by auto
qed

theorem critical_sections_nest_witness:
  "\<exists>t u. for_each (spin_acquire 0) [Lock ''wait'' 0, Lock ''proc'' 3] demo_smp = Ok () t \<and> \<not> intr (cpus t 0) \<and>
    for_each (spin_release 0) [Lock ''wait'' 0, Lock ''proc'' 3] t = Ok () u \<and> intr (cpus u 0)"
  using critical_sections_nest [of demo_smp 0 "[Lock ''wait'' 0, Lock ''proc'' 3]" "[Lock ''wait'' 0, Lock ''proc'' 3]"]
  by (auto simp: demo_smp_def cpu_ok_def)

theorem spinlock_refines_lock_list_witness:
  "\<exists>t n. spin_acquire 0 (Lock ''kmem'' 0) demo_smp = Ok () t \<and>
    acquire (Lock ''kmem'' 0) \<lparr>mem = \<lambda>_. 0, locks = []\<rparr> = Ok () n \<and> hart_view 0 t (locks n) \<and> hart_view 1 t []"
proof -
  have "hart_view c demo_smp []" for c by (simp add: hart_view_def demo_smp_def spin_holding_def)
  then show ?thesis
    using spinlock_refines_lock_list [of 0 demo_smp "\<lparr>mem = \<lambda>_. 0, locks = []\<rparr>" 1 "[]" "Lock ''kmem'' 0"]
    by (auto simp: spin_acquire_run demo_smp_def spin_holding_def split: if_splits)
qed

end
