(* ===== verification/Virtio_Spec.thy ===== *)
theory Virtio_Spec
  imports Proc_Spec
begin

text \<open>
  The disk driver implements a block device: a request of \<open>virtio_disk_rw\<close> that finds the rings
  idle goes through the descriptors, the device, the interrupt and back, and has transferred the
  block when it returns.
\<close>

declare fun_upd_apply [simp del] fun_upd_same [simp] fun_upd_other [simp]

section \<open>Waiting for a device\<close>

lemma sleep_until_run:
  assumes cur: "cur s = Some p" and held: "locks s = [lk]" and lk: "lk \<noteq> plock p"
    and ev: "ev (s\<lparr>locks := [], proc := (proc s)(p := (proc s p)\<lparr>chan := Some ch, state := SLEEPING\<rparr>), cur := None\<rparr>) = Ok () u"
    and u: "locks u = []" "state (proc u p) = RUNNABLE"
  shows "sleep_until ch lk ev s =
    Ok () (u\<lparr>locks := [lk], cur := Some p, proc := (proc u)(p := (proc u p)\<lparr>state := RUNNING, chan := None\<rparr>)\<rparr>)"
proof -
  let ?a = "s\<lparr>locks := [], proc := (proc s)(p := (proc s p)\<lparr>chan := Some ch, state := SLEEPING\<rparr>), cur := None\<rparr>"
  let ?u = "u\<lparr>locks := [lk], cur := Some p, proc := (proc u)(p := (proc u p)\<lparr>state := RUNNING, chan := None\<rparr>)\<rparr>"
  have enter: "bnd (sleep_enter ch lk) (\<lambda>_. switch_out p) s = Ok () ?a"
    using cur held lk by (simp add: sleep_enter_def switch_out_def sched_def myproc_def get_proc_def upd_proc_def
      holding_def lock_runs)
  have leave: "bnd (switch_in p) (\<lambda>_. sleep_return lk) u = Ok () ?u"
    using u lk by (simp add: switch_in_def sleep_return_def resume_def myproc_def get_proc_def upd_proc_def lock_runs)
  show ?thesis
    using cur enter [unfolded bnd_eq_Ok] ev leave [unfolded bnd_eq_Ok] by (auto simp: sleep_until_def myproc_def)
qed

section \<open>A request\<close>

text \<open>No request is in flight.\<close>

definition vq_idle :: "'z vdisk_scheme \<Rightarrow> bool" where
  "vq_idle s \<longleftrightarrow> (\<forall>i < NUM. vfree s i) \<and> avail_idx s = dev_avail s \<and> used_idx s = seen_idx s"

definition sector_of :: "u32 \<Rightarrow> u64" where
  "sector_of bn = ucast (bn * 2)"

lemma alloc_desc_from_run:
  assumes "vfree s i"
  shows "\<forall>j \<in> set js. \<not> vfree s j \<Longrightarrow>
    alloc_desc_from (js @ i # ks) s = Ok (Some i) (s\<lparr>vfree := (vfree s)(i := False)\<rparr>)"
  by (induction js) (simp_all add: straight assms)

lemma alloc_desc_run:
  assumes "i < NUM" and "vfree s i" and "\<And>j. j < i \<Longrightarrow> \<not> vfree s j"
  shows "alloc_desc s = Ok (Some i) (s\<lparr>vfree := (vfree s)(i := False)\<rparr>)"
proof -
  have "[0..<NUM] = [0..<i] @ i # [Suc i..<NUM]"
    using assms(1) upt_add_eq_append [of 0 i "NUM - i"] upt_conv_Cons [of i NUM] by (simp del: NUM_def)
  then show ?thesis unfolding alloc_desc_def by (simp only:) (rule alloc_desc_from_run, use assms in auto)
qed

lemma alloc3_run:
  assumes "vq_idle s"
  shows "alloc3_desc s = Ok (Some [0, 1, 2]) (s\<lparr>vfree := (vfree s)(0 := False, 1 := False, 2 := False)\<rparr>)"
proof -
  let ?s0 = "s\<lparr>vfree := (vfree s)(0 := False)\<rparr>"
  let ?s1 = "?s0\<lparr>vfree := (vfree ?s0)(1 := False)\<rparr>"
  have f: "vfree s i" if "i < NUM" for i using assms that by (simp add: vq_idle_def)
  have "alloc_desc s = Ok (Some 0) ?s0" by (rule alloc_desc_run) (use f in simp_all)
  moreover have "alloc_desc ?s0 = Ok (Some 1) ?s1" by (rule alloc_desc_run) (use f in simp_all)
  moreover have "alloc_desc ?s1 = Ok (Some 2) (?s1\<lparr>vfree := (vfree ?s1)(2 := False)\<rparr>)"
    by (rule alloc_desc_run) (use f in \<open>auto simp: less_2_cases_iff\<close>)
  ultimately show ?thesis by (simp add: alloc3_desc_def numeral_3_eq_3)
qed

lemma wake_free:
  assumes "locks s = [vdisk_lock]"
  shows "wakeup ch s = Ok () (s\<lparr>proc := woken ch s [0..<NPROC]\<rparr>)"
  by (rule wakeup_run) (simp add: assms)

lemma woken_cur: "cur s = Some p \<Longrightarrow> woken ch s ps p = proc s p"
  by (simp add: woken_def)

text \<open>Returning the three descriptors.\<close>

lemma free_desc_run:
  assumes "locks s = [vdisk_lock]" and "i < NUM" and "\<not> vfree s i" and "cur s = Some p"
  shows "\<exists>f. free_desc i s = Ok () (s\<lparr>desc := (desc s)(i := \<lparr>daddr = Null, dlen = 0, flags = 0, dnext = 0\<rparr>),
    vfree := (vfree s)(i := True), proc := f\<rparr>) \<and> f p = proc s p"
  using assms by (auto simp: free_desc_def upd_desc_def wake_free woken_cur)

lemma free_chain_three:
  assumes "locks s = [vdisk_lock]" and "cur s = Some p" and "\<not> vfree s 0" "\<not> vfree s 1" "\<not> vfree s 2"
    and "flags (desc s 0) AND VRING_DESC_F_NEXT \<noteq> 0" "dnext (desc s 0) = 1"
    and "flags (desc s 1) AND VRING_DESC_F_NEXT \<noteq> 0" "dnext (desc s 1) = 2"
    and "flags (desc s 2) AND VRING_DESC_F_NEXT = 0"
  shows "\<exists>d f. free_chain 0 s = Ok () (s\<lparr>desc := d, vfree := (vfree s)(0 := True, 1 := True, 2 := True), proc := f\<rparr>) \<and>
    f p = proc s p"
proof -
  obtain f0 where f0: "free_desc 0 s = Ok () (s\<lparr>desc := (desc s)(0 := \<lparr>daddr = Null, dlen = 0, flags = 0, dnext = 0\<rparr>),
      vfree := (vfree s)(0 := True), proc := f0\<rparr>)" (is "_ = Ok () ?s0") "f0 p = proc s p"
    using free_desc_run [of s 0 p] assms by auto
  obtain f1 where f1: "free_desc 1 ?s0 = Ok () (?s0\<lparr>desc := (desc ?s0)(1 := \<lparr>daddr = Null, dlen = 0, flags = 0, dnext = 0\<rparr>),
      vfree := (vfree ?s0)(1 := True), proc := f1\<rparr>)" (is "_ = Ok () ?s1") "f1 p = proc ?s0 p"
    using free_desc_run [of ?s0 1 p] assms by auto
  obtain f2 where f2: "free_desc 2 ?s1 = Ok () (?s1\<lparr>desc := (desc ?s1)(2 := \<lparr>daddr = Null, dlen = 0, flags = 0, dnext = 0\<rparr>),
      vfree := (vfree ?s1)(2 := True), proc := f2\<rparr>)" (is "_ = Ok () ?s2") "f2 p = proc ?s1 p"
    using free_desc_run [of ?s1 2 p] assms by auto
  have "free_chain 2 ?s1 = Ok () ?s2" using f2(1) assms(10) by (subst free_chain.simps) simp
  then have "free_chain 1 ?s0 = Ok () ?s2" using f1(1) assms(8,9) by (subst free_chain.simps) simp
  then have "free_chain 0 s = Ok () ?s2" using f0(1) assms(6,7) by (subst free_chain.simps) simp
  then show ?thesis using f0(2) f1(2) f2(2) by (intro exI [of _ "desc ?s2"] exI [of _ f2]) simp
qed

text \<open>The request in the rings, as \<open>virtio_format\<close> leaves it.\<close>

definition posted :: "nat \<Rightarrow> bool \<Rightarrow> 'z vdisk_scheme \<Rightarrow> 'z vdisk_scheme" where
  "posted b w s = s\<lparr>
     ops := (ops s)(0 := \<lparr>rtype = (if w then VIRTIO_BLK_T_OUT else VIRTIO_BLK_T_IN), reserved = 0, sector = sector_of (blockno (bufs s b))\<rparr>),
     desc := (desc s)(0 := \<lparr>daddr = OpsAddr 0, dlen = 16, flags = VRING_DESC_F_NEXT, dnext = 1\<rparr>,
       1 := \<lparr>daddr = DataAddr b, dlen = of_nat BSIZE, flags = (if w then 0 else VRING_DESC_F_WRITE) OR VRING_DESC_F_NEXT, dnext = 2\<rparr>,
       2 := \<lparr>daddr = StatusAddr 0, dlen = 1, flags = VRING_DESC_F_WRITE, dnext = 0\<rparr>),
     bufs := (bufs s)(b := (bufs s b)\<lparr>bdisk := True\<rparr>),
     info := (info s)(0 := (info s 0)\<lparr>info_status := 0xff, info_b := Some b\<rparr>),
     avail_ring := (avail_ring s)(unat (avail_idx s) mod NUM := 0),
     avail_idx := avail_idx s + 1\<rparr>"

lemma virtio_format_run: "virtio_format b w 0 1 2 s = Ok () (posted b w s)"
  by (cases w) (simp_all add: virtio_format_def straight get_buf_def upd_desc_def upd_buf_def posted_def sector_of_def)

text \<open>The device serves it, and the interrupt handler marks the buffer done and wakes the process.\<close>

lemma served:
  assumes "blk_device (serve s)" and "avail_idx s = dev_avail s" and "length (data (bufs s b)) = BSIZE"
    and sec: "sector_of (blockno (bufs s b)) = sec"
  shows "device_serve (posted b w s) = Ok () ((posted b w s)\<lparr>
     platter := (if w then (platter s)(sec := data (bufs s b)) else platter s),
     written := written s @ (if w then [(sec, data (bufs s b))] else []),
     bufs := (bufs s)(b := (bufs s b)\<lparr>bdisk := True, data := (if w then data (bufs s b) else platter s sec)\<rparr>),
     info := (info s)(0 := (info s 0)\<lparr>info_b := Some b, info_status := 0\<rparr>),
     used_ring := (used_ring s)(unat (used_idx s) mod NUM := 0), used_idx := used_idx s + 1, dev_avail := dev_avail s + 1\<rparr>)"
  using assms by (cases w) (simp_all add: device_serve_def posted_def blk_device_def)

lemma virtio_disk_intr_run:
  assumes "locks s = []" and "used_idx s = seen_idx s + 1" and "used_ring s (unat (seen_idx s) mod NUM) = 0"
    and "info_b (info s 0) = Some b" and "info_status (info s 0) = 0"
  shows "virtio_disk_intr s = Ok () (s\<lparr>bufs := (bufs s)(b := (bufs s b)\<lparr>bdisk := False\<rparr>),
    proc := woken (Chan ''buf'' b) s [0..<NPROC], seen_idx := seen_idx s + 1\<rparr>)"
proof -
  let ?s = "s\<lparr>locks := [vdisk_lock], bufs := (bufs s)(b := (bufs s b)\<lparr>bdisk := False\<rparr>)\<rparr>"
  have "woken (Chan ''buf'' b) ?s [0..<NPROC] = woken (Chan ''buf'' b) s [0..<NPROC]" by (rule woken_cong) simp_all
  then have w: "wakeup (Chan ''buf'' b) ?s = Ok () (?s\<lparr>proc := woken (Chan ''buf'' b) s [0..<NPROC]\<rparr>)"
    using wake_free [of ?s "Chan ''buf'' b"] by simp
  let ?t = "?s\<lparr>proc := woken (Chan ''buf'' b) s [0..<NPROC], seen_idx := seen_idx s + 1\<rparr>"
  have last: "virtio_disk_intr_loop ?t = Ok () ?t" using assms(2) by (subst virtio_disk_intr_loop.simps) simp
  have one: "bnd (upd_buf b (\<lambda>x. x\<lparr>bdisk := False\<rparr>)) (\<lambda>_. wakeup (Chan ''buf'' b)) (s\<lparr>locks := [vdisk_lock]\<rparr>) =
      Ok () (?s\<lparr>proc := woken (Chan ''buf'' b) s [0..<NPROC]\<rparr>)"
    using w by (simp add: straight upd_buf_def del: NPROC_def)
  have "seen_idx s \<noteq> used_idx s" using assms(2) by simp
  then have "virtio_disk_intr_loop (s\<lparr>locks := [vdisk_lock]\<rparr>) = virtio_disk_intr_loop ?t"
    using assms(3-5) by (subst virtio_disk_intr_loop.simps) (simp add: one del: NPROC_def)
  with last assms(1) show ?thesis by (simp add: virtio_disk_intr_def lock_runs del: NPROC_def)
qed

section \<open>The block device\<close>

text \<open>The state without what the disk driver, the buffers and their sleep locks use.\<close>

definition core :: "'z vdisk_scheme \<Rightarrow> 'z vdisk_scheme" where
  "core s = s\<lparr>proc := \<lambda>_. undefined, sleeplocks := \<lambda>_. undefined, bufs := \<lambda>_. undefined, desc := \<lambda>_. undefined,
     avail_idx := 0, avail_ring := \<lambda>_. 0, used_idx := 0, used_ring := \<lambda>_. 0, vfree := \<lambda>_. False, seen_idx := 0,
     info := \<lambda>_. undefined, ops := \<lambda>_. undefined, dev_avail := 0, platter := \<lambda>_. [], written := []\<rparr>"

lemma core_upd [simp]:
  "core (s\<lparr>proc := a1\<rparr>) = core s" "core (s\<lparr>sleeplocks := a2\<rparr>) = core s" "core (s\<lparr>bufs := a3\<rparr>) = core s"
  "core (s\<lparr>desc := a4\<rparr>) = core s" "core (s\<lparr>avail_idx := a5\<rparr>) = core s" "core (s\<lparr>avail_ring := a6\<rparr>) = core s"
  "core (s\<lparr>used_idx := a7\<rparr>) = core s" "core (s\<lparr>used_ring := a8\<rparr>) = core s" "core (s\<lparr>vfree := a9\<rparr>) = core s"
  "core (s\<lparr>seen_idx := b1\<rparr>) = core s" "core (s\<lparr>info := b2\<rparr>) = core s" "core (s\<lparr>ops := b3\<rparr>) = core s"
  "core (s\<lparr>dev_avail := b4\<rparr>) = core s" "core (s\<lparr>platter := b5\<rparr>) = core s" "core (s\<lparr>written := b6\<rparr>) = core s"
  by (simp_all add: core_def)

lemma core_sel:
  assumes "core t = core s"
  shows "locks t = locks s" and "cur t = cur s" and "serve t = serve s" and "mem t = mem s" and "vdisk.more t = vdisk.more s"
    and "freelist t = freelist s" and "runs t = runs s" and "nextpid t = nextpid s" and "ticks t = ticks s"
proof -
  have "locks (core t) = locks (core s)" "cur (core t) = cur (core s)" "serve (core t) = serve (core s)"
    "mem (core t) = mem (core s)" "vdisk.more (core t) = vdisk.more (core s)" "freelist (core t) = freelist (core s)"
    "runs (core t) = runs (core s)" "nextpid (core t) = nextpid (core s)" "ticks (core t) = ticks (core s)"
    by (simp_all only: assms)
  then show "locks t = locks s" and "cur t = cur s" and "serve t = serve s" and "mem t = mem s" and "vdisk.more t = vdisk.more s"
    and "freelist t = freelist s" and "runs t = runs s" and "nextpid t = nextpid s" and "ticks t = ticks s"
    by (simp_all add: core_def)
qed

lemma posted_simps [simp]:
  "locks (posted b w s) = locks s" "cur (posted b w s) = cur s" "proc (posted b w s) = proc s" "sleeplocks (posted b w s) = sleeplocks s" "vfree (posted b w s) = vfree s"
  "seen_idx (posted b w s) = seen_idx s" "used_idx (posted b w s) = used_idx s" "bdisk (bufs (posted b w s) b)"
  "core (posted b w s) = core s"
  by (simp_all add: posted_def)

lemma disk_event:
  fixes s :: "'z vdisk_scheme"
  assumes idle: "avail_idx s = dev_avail s" "used_idx s = seen_idx s" and "blk_device (serve s)" and held: "locks s = []"
    and len: "length (data (bufs s b)) = BSIZE"
  defines "sec \<equiv> sector_of (blockno (bufs s b))"
  shows "\<exists>u. bnd device_serve (\<lambda>_. virtio_disk_intr) (posted b w s) = Ok () u \<and> core u = core s \<and> locks u = [] \<and>
    proc u = woken (Chan ''buf'' b) s [0..<NPROC] \<and> sleeplocks u = sleeplocks s \<and> vfree u = vfree s \<and> desc u = desc (posted b w s) \<and>
    avail_idx u = dev_avail u \<and> used_idx u = seen_idx u \<and>
    platter u = (if w then (platter s)(sec := data (bufs s b)) else platter s) \<and>
    written u = written s @ (if w then [(sec, data (bufs s b))] else []) \<and>
    bufs u = (bufs s)(b := (bufs s b)\<lparr>data := (if w then data (bufs s b) else platter s sec), bdisk := False\<rparr>)"
proof -
  let ?a = "(posted b w s)\<lparr>
     platter := (if w then (platter s)(sec := data (bufs s b)) else platter s),
     written := written s @ (if w then [(sec, data (bufs s b))] else []),
     bufs := (bufs s)(b := (bufs s b)\<lparr>bdisk := True, data := (if w then data (bufs s b) else platter s sec)\<rparr>),
     info := (info s)(0 := (info s 0)\<lparr>info_b := Some b, info_status := 0\<rparr>),
     used_ring := (used_ring s)(unat (used_idx s) mod NUM := 0), used_idx := used_idx s + 1, dev_avail := dev_avail s + 1\<rparr>"
  have "device_serve (posted b w s) = Ok () ?a" using assms by (intro served) simp_all
  moreover have "virtio_disk_intr ?a = Ok () (?a\<lparr>bufs := (bufs ?a)(b := (bufs ?a b)\<lparr>bdisk := False\<rparr>),
      proc := woken (Chan ''buf'' b) ?a [0..<NPROC], seen_idx := seen_idx ?a + 1\<rparr>)" (is "_ = Ok () ?u")
    using idle held by (intro virtio_disk_intr_run) simp_all
  moreover have "woken (Chan ''buf'' b) ?a [0..<NPROC] = woken (Chan ''buf'' b) s [0..<NPROC]" by (rule woken_cong) simp_all
  moreover have "avail_idx (posted b w s) = avail_idx s + 1" by (simp add: posted_def)
  ultimately show ?thesis using idle held by (intro exI [of _ ?u]) (simp del: NPROC_def NUM_def)
qed

lemma posted_upd: "(posted b w s)\<lparr>locks := l, proc := f, cur := c\<rparr> = posted b w (s\<lparr>locks := l, proc := f, cur := c\<rparr>)"
  by (simp add: posted_def)

lemma core_cur: "core (s\<lparr>cur := c\<rparr>) = (core s)\<lparr>cur := c\<rparr>" "core (s\<lparr>locks := l\<rparr>) = (core s)\<lparr>locks := l\<rparr>"
  by (simp_all add: core_def)

lemma virtio_disk_rw_run:
  fixes s :: "'z vdisk_scheme"
  assumes idle: "vq_idle s" and dev: "blk_device (serve s)" and held: "locks s = []" and cur: "cur s = Some p" "p < NPROC"
    and len: "length (data (bufs s b)) = BSIZE"
  defines "sec \<equiv> sector_of (blockno (bufs s b))"
  shows "\<exists>t. virtio_disk_rw b w s = Ok () t \<and> core t = core s \<and> vq_idle t \<and>
    proc t p = (proc s p)\<lparr>state := RUNNING, chan := None\<rparr> \<and> sleeplocks t = sleeplocks s \<and>
    platter t = (if w then (platter s)(sec := data (bufs s b)) else platter s) \<and>
    written t = written s @ (if w then [(sec, data (bufs s b))] else []) \<and>
    bufs t = (bufs s)(b := (bufs s b)\<lparr>data := (if w then data (bufs s b) else platter s sec), bdisk := False\<rparr>)"
proof -
  let ?ch = "Chan ''buf'' b"
  let ?s = "s\<lparr>locks := [vdisk_lock], vfree := (vfree s)(0 := False, 1 := False, 2 := False)\<rparr>"
  let ?q = "(proc s)(p := (proc s p)\<lparr>chan := Some ?ch, state := SLEEPING\<rparr>)"
  let ?a = "?s\<lparr>locks := [], proc := ?q, cur := None\<rparr>"
  have i: "avail_idx s = dev_avail s" "used_idx s = seen_idx s" using idle by (simp_all add: vq_idle_def)
  have "vq_idle (s\<lparr>locks := [vdisk_lock]\<rparr>)" using idle by (simp add: vq_idle_def)
  from alloc3_run [OF this] have alloc: "alloc3_desc (s\<lparr>locks := [vdisk_lock]\<rparr>) = Ok (Some [0, 1, 2]) ?s" by simp
  obtain u where u: "bnd device_serve (\<lambda>_. virtio_disk_intr) (posted b w ?a) = Ok () u" "core u = core ?a" "locks u = []"
      "proc u = woken ?ch ?a [0..<NPROC]" "vfree u = vfree ?a" "desc u = desc (posted b w ?a)"
      "avail_idx u = dev_avail u" "used_idx u = seen_idx u" "sleeplocks u = sleeplocks s"
      "platter u = (if w then (platter s)(sec := data (bufs s b)) else platter s)"
      "written u = written s @ (if w then [(sec, data (bufs s b))] else [])"
      "bufs u = (bufs s)(b := (bufs s b)\<lparr>data := (if w then data (bufs s b) else platter s sec), bdisk := False\<rparr>)"
    using disk_event [of ?a b w] i dev len by (auto simp: sec_def)
  have up: "proc u p = (proc s p)\<lparr>chan := Some ?ch, state := RUNNABLE\<rparr>"
    using cur(2) unfolding u(4) by (simp add: woken_def wakeup1_def)
  let ?t = "u\<lparr>locks := [vdisk_lock], cur := Some p, proc := (proc u)(p := (proc u p)\<lparr>state := RUNNING, chan := None\<rparr>)\<rparr>"
  have sl: "sleep_until ?ch vdisk_lock (bnd device_serve (\<lambda>_. virtio_disk_intr)) (posted b w ?s) = Ok () ?t"
    by (rule sleep_until_run) (use cur u(1,3) up in \<open>simp_all add: posted_upd\<close>)
  let ?v = "?t\<lparr>info := (info u)(0 := (info u 0)\<lparr>info_b := None\<rparr>)\<rparr>"
  have "\<exists>d f. free_chain 0 ?v = Ok () (?v\<lparr>desc := d, vfree := (vfree ?v)(0 := True, 1 := True, 2 := True), proc := f\<rparr>) \<and> f p = proc ?v p"
    by (rule free_chain_three) (simp_all add: u(5,6) posted_def)
  then obtain d f where f: "free_chain 0 ?v = Ok () (?v\<lparr>desc := d, vfree := (vfree ?v)(0 := True, 1 := True, 2 := True), proc := f\<rparr>)"
      "f p = proc ?v p" by blast
  let ?w = "?v\<lparr>desc := d, vfree := (vfree ?v)(0 := True, 1 := True, 2 := True), proc := f, locks := []\<rparr>"
  have "virtio_disk_rw b w s = Ok () ?w"
    using held sl f(1) u(12) by (simp add: virtio_disk_rw_def alloc virtio_format_run [simplified] straight get_buf_def lock_runs)
  moreover have "core ?w = core s" using u(2) held cur by (simp add: core_cur) (simp add: core_def)
  moreover have "vq_idle ?w" using idle u(5,7,8) by (auto simp: vq_idle_def fun_upd_apply)
  ultimately show ?thesis using f(2) up u(9-12) by (intro exI [of _ ?w]) simp
qed

end
