(* ===== verification/Bio_Spec.thy ===== *)
theory Bio_Spec
  imports Virtio_Spec
begin

text \<open>
  The buffer cache is a coherent view of the disk: the ring of buffers is well formed and keeps its
  order, a block has at most one buffer, a buffer that may be recycled has nothing the disk lacks,
  and the operations read and write the contents of blocks through it.
\<close>

section \<open>The ring of buffers\<close>

primrec links :: "(nat \<Rightarrow> buf) \<Rightarrow> nat \<Rightarrow> nat list \<Rightarrow> nat \<Rightarrow> bool" where
  "links bs a [] z \<longleftrightarrow> bnext (bs a) = z \<and> bprev (bs z) = a"
| "links bs a (x # xs) z \<longleftrightarrow> bnext (bs a) = x \<and> bprev (bs x) = a \<and> links bs x xs z"

lemma links_append: "links bs a (xs @ y # ys) z \<longleftrightarrow> links bs a xs y \<and> links bs y ys z"
  by (induction xs arbitrary: a) auto

lemma links_cong:
  assumes "\<And>x. x \<in> set (a # xs) \<Longrightarrow> bnext (bs' x) = bnext (bs x)"
    and "\<And>x. x \<in> set (xs @ [z]) \<Longrightarrow> bprev (bs' x) = bprev (bs x)"
  shows "links bs' a xs z = links bs a xs z"
  using assms by (induction xs arbitrary: a) auto

lemma links_first: "links bs a xs z \<Longrightarrow> bnext (bs a) = hd (xs @ [z])"
  by (cases xs) auto

lemma links_last: "links bs a xs z \<Longrightarrow> bprev (bs z) = last (a # xs)"
  by (induction xs arbitrary: a) auto

text \<open>The two loops of \<open>bget\<close> go through the list forwards and backwards.\<close>

lemma search_forward:
  assumes "links bs a xs BHEAD" and "BHEAD \<notin> set xs" and "length xs < n"
  shows "buf_search n bnext P bs (bnext (bs a)) = Some (find (\<lambda>x. P (bs x)) xs)"
  using assms
proof (induction xs arbitrary: a n)
  case Nil
  then show ?case by (cases n) auto
next
  case (Cons x xs)
  then obtain m where n: "n = Suc m" "length xs < m" by (cases n) auto
  have "buf_search m bnext P bs (bnext (bs x)) = Some (find (\<lambda>x. P (bs x)) xs)"
    using Cons.prems n by (intro Cons.IH) auto
  then show ?case using Cons.prems n by auto
qed

lemma search_backward:
  assumes "links bs BHEAD xs z" and "BHEAD \<notin> set xs" and "length xs < n"
  shows "buf_search n bprev P bs (bprev (bs z)) = Some (find (\<lambda>x. P (bs x)) (rev xs))"
  using assms
proof (induction xs arbitrary: z n rule: rev_induct)
  case Nil
  then show ?case by (cases n) auto
next
  case (snoc x xs)
  then obtain m where n: "n = Suc m" "length xs < m" by (cases n) auto
  have l: "links bs BHEAD xs x" "bprev (bs z) = x" using snoc.prems(1) by (auto simp: links_append)
  then have "buf_search m bprev P bs (bprev (bs x)) = Some (find (\<lambda>x. P (bs x)) (rev xs))"
    using snoc.prems n by (intro snoc.IH) auto
  then show ?case using snoc.prems n l by auto
qed

text \<open>Moving a buffer to the front.\<close>

definition ring_ok :: "(nat \<Rightarrow> buf) \<Rightarrow> nat list \<Rightarrow> bool" where
  "ring_ok bs ord \<longleftrightarrow> distinct ord \<and> set ord = {..<NBUF} \<and> links bs BHEAD ord BHEAD"

lemma ring_ok_cong:
  "(\<And>i. bnext (bs' i) = bnext (bs i) \<and> bprev (bs' i) = bprev (bs i)) \<Longrightarrow> ring_ok bs' ord = ring_ok bs ord"
  unfolding ring_ok_def using links_cong [of BHEAD ord bs' bs BHEAD] by simp

definition relink :: "nat \<Rightarrow> nat \<Rightarrow> (nat \<Rightarrow> buf) \<Rightarrow> (nat \<Rightarrow> buf)" where
  "relink p n bs = (let bs1 = bs(n := (bs n)\<lparr>bprev := p\<rparr>) in bs1(p := (bs1 p)\<lparr>bnext := n\<rparr>))"

lemma relink_simps:
  "bnext (relink p n bs i) = (if i = p then n else bnext (bs i))"
  "bprev (relink p n bs i) = (if i = n then p else bprev (bs i))"
  by (auto simp: relink_def Let_def fun_upd_apply)

lemma links_relink_left:
  "links bs a xs b \<Longrightarrow> distinct (a # xs) \<Longrightarrow> n \<notin> set xs \<Longrightarrow> links (relink (last (a # xs)) n bs) a xs n"
proof (induction xs arbitrary: a)
  case (Cons x xs)
  have "a \<noteq> last (x # xs)" using Cons.prems(2) last_in_set [of "x # xs"] by (metis distinct.simps(2) list.distinct(1))
  then show ?case using Cons by (simp add: relink_simps)
qed (simp add: relink_simps)

lemma links_relink:
  assumes "links bs a xs b" and "links bs b ys z" and d: "distinct (a # xs @ b # ys)" and "z = a"
  shows "links (relink (last (a # xs)) (hd (ys @ [z])) bs) a (xs @ ys) z"
proof (cases ys)
  case Nil
  then show ?thesis using links_relink_left [OF assms(1), of z] assms by simp
next
  case (Cons y ys')
  let ?bs = "relink (last (a # xs)) y bs"
  have p: "last (a # xs) \<in> insert a (set xs)" using last_in_set [of "a # xs"] by simp
  have "links bs y ys' z" using assms(2) Cons by simp
  moreover have "links ?bs y ys' z = links bs y ys' z"
    by (rule links_cong) (use d p Cons assms(4) in \<open>auto simp: relink_simps\<close>)
  moreover have "links ?bs a xs y" using links_relink_left [OF assms(1), of y] d Cons by auto
  ultimately show ?thesis using Cons by (simp add: links_append)
qed

definition front :: "nat \<Rightarrow> (nat \<Rightarrow> buf) \<Rightarrow> (nat \<Rightarrow> buf)" where
  "front b bs = (let h = bnext (bs BHEAD); bs1 = bs(b := (bs b)\<lparr>bnext := h, bprev := BHEAD\<rparr>);
     bs2 = bs1(h := (bs1 h)\<lparr>bprev := b\<rparr>) in bs2(BHEAD := (bs2 BHEAD)\<lparr>bnext := b\<rparr>))"

lemma front_simps:
  assumes "b \<noteq> BHEAD" and "bnext (bs BHEAD) \<noteq> b"
  shows "bnext (front b bs i) = (if i = BHEAD then b else if i = b then bnext (bs BHEAD) else bnext (bs i))"
    and "bprev (front b bs i) = (if i = bnext (bs BHEAD) then b else if i = b then BHEAD else bprev (bs i))"
  using assms by (auto simp: front_def Let_def fun_upd_apply)

lemma links_front:
  assumes "links bs BHEAD xs BHEAD" and "distinct (b # xs)" and "BHEAD \<notin> set (b # xs)"
  shows "links (front b bs) BHEAD (b # xs) BHEAD"
proof -
  have h: "bnext (bs BHEAD) = hd (xs @ [BHEAD])" by (rule links_first [OF assms(1)])
  then have ne: "b \<noteq> BHEAD" "bnext (bs BHEAD) \<noteq> b" using assms(2,3) by (cases xs; auto)+
  note f = front_simps [where bs = bs, OF ne]
  show ?thesis
  proof (cases xs)
    case Nil
    then show ?thesis using ne h by (simp add: f)
  next
    case (Cons y ys)
    have "links (front b bs) y ys BHEAD = links bs y ys BHEAD"
      by (rule links_cong) (use assms Cons h ne in \<open>auto simp: f\<close>)
    then show ?thesis using assms Cons h ne by (auto simp: f)
  qed
qed

text \<open>What the two operations leave of a buffer.\<close>

definition payload :: "buf \<Rightarrow> u32 \<times> u32 \<times> bool \<times> u8 list \<times> bool \<times> u32" where
  "payload x = (dev x, blockno x, valid x, data x, bdisk x, refcnt x)"

lemma payload_relink [simp]: "payload (relink p n bs i) = payload (bs i)" "payload (front b bs i) = payload (bs i)"
  by (auto simp: payload_def relink_def front_def Let_def fun_upd_apply)

lemma unlink_buf_run: "unlink_buf b s = Ok () (s\<lparr>bufs := relink (bprev (bufs s b)) (bnext (bufs s b)) (bufs s)\<rparr>)"
proof -
  have "bprev (((bufs s)(n := (bufs s n)\<lparr>bprev := p\<rparr>)) b) = p" if "p = bprev (bufs s b)" for n p
    using that by (cases "b = n") simp_all
  moreover have "bnext (((bufs s)(n := (bufs s n)\<lparr>bprev := p\<rparr>)) b) = bnext (bufs s b)" for n p
    by (cases "b = n") simp_all
  ultimately show ?thesis by (simp add: unlink_buf_def get_buf_def upd_buf_def straight relink_def Let_def)
qed

lemma push_front_run:
  assumes "b \<noteq> BHEAD"
  shows "push_front b s = Ok () (s\<lparr>bufs := front b (bufs s)\<rparr>)"
  using assms by (simp add: push_front_def get_buf_def upd_buf_def straight front_def Let_def)

lemma ring_move:
  assumes "ring_ok bs ord" and "b < NBUF"
  shows "ring_ok (front b (relink (bprev (bs b)) (bnext (bs b)) bs)) (b # remove1 b ord)"
proof -
  have r: "distinct ord" "set ord = {..<NBUF}" "links bs BHEAD ord BHEAD" using assms(1) by (auto simp: ring_ok_def)
  then obtain xs ys where o: "ord = xs @ b # ys" using assms(2) by (metis lessThan_iff split_list)
  have l: "links bs BHEAD xs b" "links bs b ys BHEAD" using r(3) by (auto simp: o links_append)
  have p: "bprev (bs b) = last (BHEAD # xs)" "bnext (bs b) = hd (ys @ [BHEAD])"
    using links_last [OF l(1)] links_first [OF l(2)] by auto
  have h: "BHEAD \<notin> set ord" using r(2) by auto
  have "links (relink (bprev (bs b)) (bnext (bs b)) bs) BHEAD (xs @ ys) BHEAD"
    unfolding p using l r(1) h by (intro links_relink) (auto simp: o)
  then have "links (front b (relink (bprev (bs b)) (bnext (bs b)) bs)) BHEAD (b # xs @ ys) BHEAD"
    using r(1) h by (intro links_front) (auto simp: o)
  moreover have "remove1 b ord = xs @ ys" using r(1) by (simp add: o remove1_append)
  ultimately show ?thesis using r(1,2) o unfolding ring_ok_def by auto
qed

section \<open>The process that uses the cache\<close>

text \<open>
  \<open>io_ok p s\<close>: process \<open>p\<close> runs with no spin lock held and the disk is idle. \<open>calm p s t\<close>: an operation
  led from \<open>s\<close> to \<open>t\<close> and touched only the disk, the buffers and their sleep locks; processes that
  slept may have been woken.
\<close>

definition io_ok :: "nat \<Rightarrow> 'z vdisk_scheme \<Rightarrow> bool" where
  "io_ok p s \<longleftrightarrow> locks s = [] \<and> cur s = Some p \<and> p < NPROC \<and> state (proc s p) = RUNNING \<and> chan (proc s p) = None \<and>
     vq_idle s \<and> blk_device (serve s)"

definition calm :: "nat \<Rightarrow> 'z vdisk_scheme \<Rightarrow> 'z vdisk_scheme \<Rightarrow> bool" where
  "calm p s t \<longleftrightarrow> core t = core s \<and> io_ok p t \<and> proc t p = proc s p \<and>
     (\<forall>l. l \<notin> range buf_lock \<longrightarrow> sleeplocks t l = sleeplocks s l)"

lemma calm_trans: "calm p s t \<Longrightarrow> calm p t u \<Longrightarrow> calm p s u"
  by (simp add: calm_def)

lemma calmI:
  assumes "io_ok p s" and "core t = core s" and "proc t p = proc s p" and "vq_idle t"
    and "\<And>l. l \<notin> range buf_lock \<Longrightarrow> sleeplocks t l = sleeplocks s l"
  shows "calm p s t"
  using assms core_sel(1-3) [OF assms(2)] by (auto simp: calm_def io_ok_def)

lemma calm_io: "calm p s t \<Longrightarrow> io_ok p t"
  by (simp add: calm_def)

lemma calm_refl: "io_ok p s \<Longrightarrow> calm p s s"
  by (simp add: calm_def)

lemma vq_idle_upd [simp]:
  "vq_idle (s\<lparr>bufs := a\<rparr>) = vq_idle s" "vq_idle (s\<lparr>sleeplocks := b\<rparr>) = vq_idle s" "vq_idle (s\<lparr>locks := c\<rparr>) = vq_idle s"
  "vq_idle (s\<lparr>proc := d\<rparr>) = vq_idle s"
  by (simp_all add: vq_idle_def)

section \<open>Sleep locks of an uncontended buffer\<close>

lemma acquiresleep_run:
  assumes "io_ok p s" and "\<not> sl_locked (sleeplocks s l)"
  shows "acquiresleep l s = Ok () (s\<lparr>sleeplocks := (sleeplocks s)(l := (sleeplocks s l)\<lparr>sl_locked := True, sl_pid := pid (proc s p)\<rparr>)\<rparr>)"
proof -
  have i: "locks s = []" "cur s = Some p" using assms(1) by (auto simp: io_ok_def)
  show ?thesis using assms(2) by (simp add: acquiresleep_def i straight myproc_def get_proc_def upd_sl_def lock_runs)
qed

lemma inner_plock: "plock q \<noteq> inner l"
  by (cases l) (simp add: inner_def)

lemma releasesleep_run:
  assumes "io_ok p s"
  shows "\<exists>f. releasesleep l s = Ok () (s\<lparr>sleeplocks := (sleeplocks s)(l := (sleeplocks s l)\<lparr>sl_locked := False, sl_pid := 0\<rparr>), proc := f\<rparr>) \<and>
    f p = proc s p"
proof -
  have i: "locks s = []" "cur s = Some p" using assms by (auto simp: io_ok_def)
  let ?s = "s\<lparr>locks := [inner l], sleeplocks := (sleeplocks s)(l := (sleeplocks s l)\<lparr>sl_locked := False, sl_pid := 0\<rparr>)\<rparr>"
  have "wakeup (sl_chan l) ?s = Ok () (?s\<lparr>proc := woken (sl_chan l) ?s [0..<NPROC]\<rparr>)"
    by (rule wakeup_run) (simp add: inner_plock)
  then show ?thesis
    by (intro exI [of _ "woken (sl_chan l) ?s [0..<NPROC]"])
       (simp add: i releasesleep_def straight upd_sl_def lock_runs woken_cur del: NPROC_def)
qed

lemma holdingsleep_run:
  assumes "io_ok p s"
  shows "holdingsleep l s = Ok (sl_locked (sleeplocks s l) \<and> sl_pid (sleeplocks s l) = pid (proc s p)) s"
proof -
  have i: "locks s = []" "cur s = Some p" using assms by (auto simp: io_ok_def)
  then have "s\<lparr>locks := []\<rparr> = s" by simp
  then show ?thesis
    by (cases "sl_locked (sleeplocks s l)") (simp_all add: i holdingsleep_def straight myproc_def get_proc_def lock_runs)
qed

section \<open>Coherence\<close>

text \<open>Blocks below \<open>2 ^ 31\<close> have their own sectors; the driver multiplies in 32 bits.\<close>

lemma sector_of_inj:
  assumes "a < 0x80000000" and "b < 0x80000000" and "sector_of a = sector_of b"
  shows "a = b"
proof -
  have u: "unat (sector_of x) = 2 * unat x" if "x < 0x80000000" for x
  proof -
    have "unat x < 2 ^ 31" using that by (simp add: word_less_nat_alt)
    then have "unat (x * 2) = 2 * unat x" by (simp add: unat_word_ariths mod_less)
    moreover have "2 * unat x < 2 ^ 64" using \<open>unat x < 2 ^ 31\<close> by simp
    ultimately show ?thesis by (simp add: sector_of_def unsigned_ucast_eq take_bit_nat_eq_self_iff)
  qed
  then show ?thesis using u [OF assms(1)] u [OF assms(2)] assms(3) by (simp add: word_unat_eq_iff)
qed

text \<open>
  \<open>cache_ok p d H P s\<close>: process \<open>p\<close> holds the buffers \<open>H\<close>, the log has pinned the buffers \<open>P\<close>, all blocks
  are of device \<open>d\<close>. \<open>content\<close> is what a block holds for a reader: its buffer if it has a valid one.
\<close>

definition cached :: "u32 \<Rightarrow> (nat \<Rightarrow> buf) \<Rightarrow> u32 \<Rightarrow> nat \<Rightarrow> bool" where
  "cached d bs bn i \<longleftrightarrow> dev (bs i) = d \<and> blockno (bs i) = bn \<and> valid (bs i)"

definition content :: "u32 \<Rightarrow> 'z vdisk_scheme \<Rightarrow> u32 \<Rightarrow> u8 list" where
  "content d s bn = (case find (cached d (bufs s) bn) [0..<NBUF] of
     Some i \<Rightarrow> data (bufs s i) | None \<Rightarrow> platter s (sector_of bn))"

definition buf_ok :: "u32 \<Rightarrow> nat set \<Rightarrow> nat set \<Rightarrow> (u64 \<Rightarrow> u8 list) \<Rightarrow> nat \<Rightarrow> buf \<Rightarrow> bool" where
  "buf_ok d H P pl i x \<longleftrightarrow> length (data x) = BSIZE \<and> \<not> bdisk x \<and>
     refcnt x = (if i \<in> H then 1 else 0) + (if i \<in> P then 1 else 0) \<and>
     (dev x = d \<longrightarrow> blockno x < 0x80000000) \<and> (i \<in> H \<union> P \<longrightarrow> dev x = d \<and> valid x) \<and>
     (i \<notin> H \<union> P \<and> dev x = d \<and> valid x \<longrightarrow> data x = pl (sector_of (blockno x)))"

definition unique_blocks :: "u32 \<Rightarrow> (nat \<Rightarrow> buf) \<Rightarrow> bool" where
  "unique_blocks d bs \<longleftrightarrow> (\<forall>i < NBUF. \<forall>j < NBUF. dev (bs i) = d \<and> dev (bs j) = d \<and> blockno (bs i) = blockno (bs j) \<longrightarrow> i = j)"

definition cache_ok :: "nat \<Rightarrow> u32 \<Rightarrow> nat set \<Rightarrow> nat set \<Rightarrow> 'z vdisk_scheme \<Rightarrow> bool" where
  "cache_ok p d H P s \<longleftrightarrow> io_ok p s \<and> (\<exists>ord. ring_ok (bufs s) ord) \<and> H \<union> P \<subseteq> {..<NBUF} \<and>
     (\<forall>i < NBUF. buf_ok d H P (platter s) i (bufs s i) \<and> (sl_locked (sleeplocks s (buf_lock i)) \<longleftrightarrow> i \<in> H)) \<and>
     (\<forall>i \<in> H. sl_pid (sleeplocks s (buf_lock i)) = pid (proc s p)) \<and> unique_blocks d (bufs s) \<and>
     (\<forall>sec. length (platter s sec) = BSIZE)"

lemma cache_okD:
  assumes "cache_ok p d H P s"
  shows "io_ok p s" and "\<exists>ord. ring_ok (bufs s) ord" and "i \<in> H \<Longrightarrow> i < NBUF" and "i \<in> P \<Longrightarrow> i < NBUF"
    and "i < NBUF \<Longrightarrow> buf_ok d H P (platter s) i (bufs s i)"
    and "i < NBUF \<Longrightarrow> sl_locked (sleeplocks s (buf_lock i)) \<longleftrightarrow> i \<in> H"
    and "i \<in> H \<Longrightarrow> sl_pid (sleeplocks s (buf_lock i)) = pid (proc s p)" and "unique_blocks d (bufs s)"
    and "length (platter s sec) = BSIZE"
  using assms unfolding cache_ok_def by auto

lemma find_SomeD: "find Q xs = Some x \<Longrightarrow> x \<in> set xs \<and> Q x"
  by (auto simp: find_Some_iff)

lemma content_cached:
  assumes "unique_blocks d (bufs s)" and "i < NBUF" and "cached d (bufs s) bn i"
  shows "content d s bn = data (bufs s i)"
proof (cases "find (cached d (bufs s) bn) [0..<NBUF]")
  case None
  then show ?thesis using assms(2,3) by (auto simp: find_None_iff simp del: NBUF_def)
next
  case (Some j)
  then have "j < NBUF" "cached d (bufs s) bn j"
    by (auto simp: find_Some_iff simp del: NBUF_def)
  then have "j = i" using assms unfolding unique_blocks_def cached_def by blast
  then show ?thesis using Some by (simp add: content_def del: NBUF_def)
qed

lemma content_uncached:
  "(\<And>i. i < NBUF \<Longrightarrow> \<not> cached d (bufs s) bn i) \<Longrightarrow> content d s bn = platter s (sector_of bn)"
  unfolding content_def by (auto simp: find_None_iff split: option.splits simp del: NBUF_def) (metis find_None_iff atLeastLessThan_iff option.distinct(1) set_upt)

lemma content_cong:
  assumes "\<And>i. i < NBUF \<Longrightarrow> dev (bufs t i) = dev (bufs s i) \<and> blockno (bufs t i) = blockno (bufs s i) \<and>
      valid (bufs t i) = valid (bufs s i) \<and> data (bufs t i) = data (bufs s i)"
    and "platter t (sector_of bn) = platter s (sector_of bn)"
  shows "content d t bn = content d s bn"
proof -
  have "find (cached d (bufs t) bn) [0..<NBUF] = find (cached d (bufs s) bn) [0..<NBUF]"
    by (rule find_cong) (use assms(1) in \<open>auto simp: cached_def\<close>)
  then show ?thesis using assms(2) find_SomeD [of "cached d (bufs s) bn" "[0..<NBUF]"] assms(1)
    unfolding content_def by (cases "find (cached d (bufs s) bn) [0..<NBUF]") (simp_all del: NBUF_def)
qed

section \<open>bget and bread\<close>

lemma buf_search_ring:
  assumes "ring_ok bs ord"
  shows "buf_search (Suc NBUF) bnext Q bs (bnext (bs BHEAD)) = Some (find (\<lambda>x. Q (bs x)) ord)"
    and "buf_search (Suc NBUF) bprev Q bs (bprev (bs BHEAD)) = Some (find (\<lambda>x. Q (bs x)) (rev ord))"
proof -
  have r: "distinct ord" "set ord = {..<NBUF}" "links bs BHEAD ord BHEAD" using assms by (auto simp: ring_ok_def)
  have "length ord = NBUF" using distinct_card [OF r(1)] r(2) by simp
  moreover have "BHEAD \<notin> set ord" using r(2) by auto
  ultimately show "buf_search (Suc NBUF) bnext Q bs (bnext (bs BHEAD)) = Some (find (\<lambda>x. Q (bs x)) ord)"
    and "buf_search (Suc NBUF) bprev Q bs (bprev (bs BHEAD)) = Some (find (\<lambda>x. Q (bs x)) (rev ord))"
    using search_forward [OF r(3)] search_backward [OF r(3)] by (simp_all del: NBUF_def buf_search.simps)
qed

text \<open>The buffer \<open>bget\<close> returns: the one of the block, or the least recently used free one.\<close>

definition taken :: "u32 \<Rightarrow> u32 \<Rightarrow> buf \<Rightarrow> buf" where
  "taken d bn x = (if dev x = d \<and> blockno x = bn then x\<lparr>refcnt := refcnt x + 1\<rparr>
     else x\<lparr>dev := d, blockno := bn, valid := False, refcnt := 1\<rparr>)"

lemma bget_run:
  assumes c: "cache_ok p d H P s" and free: "\<exists>i < NBUF. i \<notin> H \<union> P \<or> dev (bufs s i) = d \<and> blockno (bufs s i) = bn"
    and no: "\<And>i. i \<in> H \<Longrightarrow> blockno (bufs s i) \<noteq> bn"
  shows "\<exists>b. bget d bn s = Ok b (s\<lparr>bufs := (bufs s)(b := taken d bn (bufs s b)),
      sleeplocks := (sleeplocks s)(buf_lock b := (sleeplocks s (buf_lock b))\<lparr>sl_locked := True, sl_pid := pid (proc s p)\<rparr>)\<rparr>) \<and>
    b < NBUF \<and> b \<notin> H \<and>
    ((dev (bufs s b) = d \<and> blockno (bufs s b) = bn) \<or>
     b \<notin> P \<and> (\<forall>i < NBUF. \<not> (dev (bufs s i) = d \<and> blockno (bufs s i) = bn)))"
proof -
  obtain ord where r: "ring_ok (bufs s) ord" using cache_okD(2) [OF c] by blast
  have set_ord: "set ord = {..<NBUF}" using r by (simp add: ring_ok_def)
  have io: "io_ok p s" and held: "locks s = []" using cache_okD(1) [OF c] by (auto simp: io_ok_def)
  note srch = buf_search_ring [OF r]
  have unl: "\<not> sl_locked (sleeplocks s (buf_lock b))" if "b < NBUF" "b \<notin> H" for b
    using cache_okD(6) [OF c that(1)] that(2) by simp
  have sl: "acquiresleep (buf_lock b) (s\<lparr>bufs := X\<rparr>) = Ok () (s\<lparr>bufs := X,
      sleeplocks := (sleeplocks s)(buf_lock b := (sleeplocks s (buf_lock b))\<lparr>sl_locked := True, sl_pid := pid (proc s p)\<rparr>)\<rparr>)"
    if "b < NBUF" "b \<notin> H" for b X
    using acquiresleep_run [of p "s\<lparr>bufs := X\<rparr>" "buf_lock b"] io unl [OF that] by (simp add: io_ok_def)
  have fin: "bnd (upd_buf b f) (\<lambda>_. bnd (release bcache_lock) (\<lambda>_. bnd (acquiresleep (buf_lock b)) (\<lambda>_. ret b))) (s\<lparr>locks := [bcache_lock]\<rparr>) =
      Ok b (s\<lparr>bufs := (bufs s)(b := f (bufs s b)),
        sleeplocks := (sleeplocks s)(buf_lock b := (sleeplocks s (buf_lock b))\<lparr>sl_locked := True, sl_pid := pid (proc s p)\<rparr>)\<rparr>)"
    if "b < NBUF" "b \<notin> H" for b f
  proof -
    have "s\<lparr>bufs := X, locks := []\<rparr> = s\<lparr>bufs := X\<rparr>" for X using held by simp
    then show ?thesis using sl [OF that] by (simp add: upd_buf_def straight lock_runs)
  qed
  show ?thesis
  proof (cases "find (\<lambda>x. dev (bufs s x) = d \<and> blockno (bufs s x) = bn) ord")
    case (Some b)
    then have b: "b < NBUF" "dev (bufs s b) = d" "blockno (bufs s b) = bn"
      using find_SomeD [OF Some] set_ord by auto
    then have "b \<notin> H" using no by blast
    then show ?thesis using fin [OF b(1), of "\<lambda>x. x\<lparr>refcnt := refcnt x + 1\<rparr>"] b Some held
      by (intro exI [of _ b]) (simp add: bget_def straight lock_runs srch taken_def del: NBUF_def buf_search.simps)
  next
    case None
    then have miss: "\<not> (dev (bufs s i) = d \<and> blockno (bufs s i) = bn)" if "i < NBUF" for i
      using that set_ord by (auto simp: find_None_iff)
    have zero: "refcnt (bufs s i) = 0 \<longleftrightarrow> i \<notin> H \<union> P" if "i < NBUF" for i
      using cache_okD(5) [OF c that] by (auto simp: buf_ok_def)
    obtain b where b: "find (\<lambda>x. refcnt (bufs s x) = 0) (rev ord) = Some b"
      using free zero miss set_ord by (cases "find (\<lambda>x. refcnt (bufs s x) = 0) (rev ord)") (auto simp: find_None_iff)
    then have bb: "b < NBUF" "b \<notin> H \<union> P" using find_SomeD [OF b] set_ord zero by auto
    then have "taken d bn (bufs s b) = (bufs s b)\<lparr>dev := d, blockno := bn, valid := False, refcnt := 1\<rparr>"
      using miss [OF bb(1)] by (auto simp: taken_def)
    with bb show ?thesis using fin [of b "\<lambda>x. x\<lparr>dev := d, blockno := bn, valid := False, refcnt := 1\<rparr>"] b None miss held
      by (intro exI [of _ b]) (simp add: bget_def straight lock_runs srch del: NBUF_def buf_search.simps)
  qed
qed

lemma disk_read_run:
  assumes "io_ok p s" and "length (data (bufs s b)) = BSIZE"
  shows "\<exists>t. virtio_disk_rw b False s = Ok () t \<and> calm p s t \<and> platter t = platter s \<and> written t = written s \<and>
    sleeplocks t = sleeplocks s \<and>
    bufs t = (bufs s)(b := (bufs s b)\<lparr>data := platter s (sector_of (blockno (bufs s b))), bdisk := False\<rparr>)"
proof -
  have i: "vq_idle s" "blk_device (serve s)" "locks s = []" "cur s = Some p" "p < NPROC"
      "state (proc s p) = RUNNING" "chan (proc s p) = None" using assms(1) by (auto simp: io_ok_def)
  have "(proc s p)\<lparr>state := RUNNING, chan := None\<rparr> = proc s p" using i(6,7) by simp
  with virtio_disk_rw_run [OF i(1-5) assms(2), of False] show ?thesis
    by (auto intro!: calmI assms(1))
qed

lemma disk_write_run:
  assumes "io_ok p s" and "length (data (bufs s b)) = BSIZE" and "\<not> bdisk (bufs s b)"
  shows "\<exists>t. virtio_disk_rw b True s = Ok () t \<and> calm p s t \<and>
    platter t = (platter s)(sector_of (blockno (bufs s b)) := data (bufs s b)) \<and>
    written t = written s @ [(sector_of (blockno (bufs s b)), data (bufs s b))] \<and>
    sleeplocks t = sleeplocks s \<and> bufs t = bufs s"
proof -
  have i: "vq_idle s" "blk_device (serve s)" "locks s = []" "cur s = Some p" "p < NPROC"
      "state (proc s p) = RUNNING" "chan (proc s p) = None" using assms(1) by (auto simp: io_ok_def)
  have "(proc s p)\<lparr>state := RUNNING, chan := None\<rparr> = proc s p" using i(6,7) by simp
  moreover have "(bufs s)(b := (bufs s b)\<lparr>bdisk := False\<rparr>) = bufs s" using assms(3) by (cases "bufs s b") (simp add: fun_eq_iff fun_upd_apply)
  ultimately show ?thesis using virtio_disk_rw_run [OF i(1-5) assms(2), of True]
    by (auto intro!: calmI assms(1))
qed

text \<open>Taking a buffer for a block keeps the cache coherent and the contents of all blocks.\<close>

lemma cache_ok_take:
  assumes c: "cache_ok p d H P s" and b: "b < NBUF" "b \<notin> H" and t: "calm p s t" "platter t = platter s" "bufs t = (bufs s)(b := y)"
      "sleeplocks t = (sleeplocks s)(buf_lock b := l)" "sl_locked l" "sl_pid l = pid (proc s p)"
    and y: "dev y = d" "blockno y = bn" "valid y" "\<not> bdisk y" "length (data y) = BSIZE" "refcnt y = 1 + (if b \<in> P then 1 else 0)"
      "bnext y = bnext (bufs s b)" "bprev y = bprev (bufs s b)" and bn: "bn < 0x80000000"
    and other: "\<And>i. i < NBUF \<Longrightarrow> i \<noteq> b \<Longrightarrow> \<not> (dev (bufs s i) = d \<and> blockno (bufs s i) = bn)"
  shows "cache_ok p d (insert b H) P t"
proof -
  have pid: "proc t p = proc s p" and io: "io_ok p t" using t(1) by (auto simp: calm_def)
  obtain ord where "ring_ok (bufs s) ord" using cache_okD(2) [OF c] by blast
  then have "ring_ok (bufs t) ord" using ring_ok_cong [of "bufs t" "bufs s"] y(7,8) by (simp add: t(3) fun_upd_apply)
  moreover have "unique_blocks d (bufs t)"
    unfolding unique_blocks_def
  proof (intro allI impI)
    fix i j assume "i < NBUF" "j < NBUF" "dev (bufs t i) = d \<and> dev (bufs t j) = d \<and> blockno (bufs t i) = blockno (bufs t j)"
    then show "i = j" using cache_okD(8) [OF c] other [of i] other [of j] y(1,2)
      by (cases "i = b"; cases "j = b") (auto simp: unique_blocks_def t(3))
  qed
  moreover have "buf_ok d (insert b H) P (platter t) i (bufs t i)" if "i < NBUF" for i
    using cache_okD(5) [OF c that] y b bn by (cases "i = b") (auto simp: t(2,3) buf_ok_def)
  moreover have "sl_locked (sleeplocks t (buf_lock i)) \<longleftrightarrow> i \<in> insert b H" if "i < NBUF" for i
    using cache_okD(6) [OF c that] by (cases "i = b") (simp_all add: t(4,5))
  moreover have "sl_pid (sleeplocks t (buf_lock i)) = pid (proc t p)" if "i \<in> insert b H" for i
    using cache_okD(7) [OF c] that by (cases "i = b") (simp_all add: t(4,6) pid)
  ultimately show ?thesis using io c b(1) unfolding cache_ok_def by (auto simp: t(2))
qed

lemma content_take:
  assumes c: "cache_ok p d H P s" and b: "b < NBUF" and u: "unique_blocks d (bufs t)" and t: "platter t = platter s" "bufs t = (bufs s)(b := y)"
    and y: "dev y = d" "blockno y = bn" "valid y" "data y = content d s bn"
    and hit: "dev (bufs s b) = d \<and> blockno (bufs s b) = bn \<or> b \<notin> H \<union> P"
  shows "content d t = content d s"
proof
  fix k
  show "content d t k = content d s k"
  proof (cases "k = bn")
    case True
    then show ?thesis using content_cached [OF u b, of bn] y by (simp add: cached_def t)
  next
    case False
    have nb: "\<not> cached d (bufs t) k b" using y False by (simp add: cached_def t)
    show ?thesis
    proof (cases "\<exists>i < NBUF. cached d (bufs t) k i")
      case True
      then obtain i where i: "i < NBUF" "cached d (bufs t) k i" "i \<noteq> b" using nb by auto
      then have "cached d (bufs s) k i" by (simp add: cached_def t)
      then show ?thesis using content_cached [OF u i(1,2)] content_cached [OF cache_okD(8) [OF c] i(1)] i(3) by (simp add: t)
    next
      case False
      then have ct: "content d t k = platter s (sector_of k)" using content_uncached [of d t k] t by auto
      show ?thesis
      proof (cases "cached d (bufs s) k b")
        case True
        then have "b \<notin> H \<union> P" "data (bufs s b) = platter s (sector_of k)"
          using hit \<open>k \<noteq> bn\<close> cache_okD(5) [OF c b] by (auto simp: cached_def buf_ok_def)
        then show ?thesis using content_cached [OF cache_okD(8) [OF c] b True] ct by simp
      next
        case nc: False
        have "\<not> cached d (bufs s) k i" if "i < NBUF" for i
          using False nc that by (cases "i = b") (auto simp: cached_def t dest!: spec [of _ i])
        then show ?thesis using content_uncached [of d s k] ct by simp
      qed
    qed
  qed
qed

lemma bread_run:
  assumes c: "cache_ok p d H P s" and free: "\<exists>i < NBUF. i \<notin> H \<union> P \<or> dev (bufs s i) = d \<and> blockno (bufs s i) = bn"
    and no: "\<And>i. i \<in> H \<Longrightarrow> blockno (bufs s i) \<noteq> bn" and bn: "bn < 0x80000000"
  shows "\<exists>b t. bread d bn s = Ok b t \<and> b < NBUF \<and> b \<notin> H \<and> cache_ok p d (insert b H) P t \<and> calm p s t \<and>
    platter t = platter s \<and> written t = written s \<and> blockno (bufs t b) = bn \<and> data (bufs t b) = content d s bn \<and>
    content d t = content d s \<and> (\<forall>i. i \<noteq> b \<longrightarrow> bufs t i = bufs s i) \<and> (b \<in> P \<longrightarrow> blockno (bufs s b) = bn)"
proof -
  obtain b where b: "b < NBUF" "b \<notin> H"
    and hit: "(dev (bufs s b) = d \<and> blockno (bufs s b) = bn) \<or>
       b \<notin> P \<and> (\<forall>i < NBUF. \<not> (dev (bufs s i) = d \<and> blockno (bufs s i) = bn))"
    and get: "bget d bn s = Ok b (s\<lparr>bufs := (bufs s)(b := taken d bn (bufs s b)),
      sleeplocks := (sleeplocks s)(buf_lock b := (sleeplocks s (buf_lock b))\<lparr>sl_locked := True, sl_pid := pid (proc s p)\<rparr>)\<rparr>)"
      (is "_ = Ok b ?u")
    using bget_run [OF c free no] by blast
  let ?x = "taken d bn (bufs s b)"
  have io: "io_ok p s" by (rule cache_okD(1) [OF c])
  have cu: "calm p s ?u" using io by (intro calmI) (auto simp: io_ok_def fun_upd_apply)
  have ok: "buf_ok d H P (platter s) b (bufs s b)" by (rule cache_okD(5) [OF c b(1)])
  have x: "dev ?x = d" "blockno ?x = bn" "length (data ?x) = BSIZE" "\<not> bdisk ?x" "refcnt ?x = 1 + (if b \<in> P then 1 else 0)"
      "bnext ?x = bnext (bufs s b)" "bprev ?x = bprev (bufs s b)"
    using ok b hit by (auto simp: taken_def buf_ok_def)
  have other: "\<not> (dev (bufs s i) = d \<and> blockno (bufs s i) = bn)" if "i < NBUF" "i \<noteq> b" for i
    using hit cache_okD(8) [OF c] b(1) that unfolding unique_blocks_def by blast
  have miss: "content d s bn = platter s (sector_of bn)" if "\<not> valid ?x"
  proof (rule content_uncached)
    fix i assume "i < NBUF"
    show "\<not> cached d (bufs s) bn i"
      using that other [OF \<open>i < NBUF\<close>] by (cases "i = b") (auto simp: cached_def taken_def split: if_splits)
  qed
  have last: ?thesis if t: "bread d bn s = Ok b t" "calm p s t" "platter t = platter s" "written t = written s" "bufs t = (bufs s)(b := y)"
      "sleeplocks t = sleeplocks ?u" and y: "dev y = d" "blockno y = bn" "valid y" "\<not> bdisk y" "length (data y) = BSIZE"
      "refcnt y = 1 + (if b \<in> P then 1 else 0)" "bnext y = bnext (bufs s b)" "bprev y = bprev (bufs s b)" "data y = content d s bn" for t y
  proof -
    have ct: "cache_ok p d (insert b H) P t"
      by (rule cache_ok_take [OF c b t(2,3,5), where l = "(sleeplocks s (buf_lock b))\<lparr>sl_locked := True, sl_pid := pid (proc s p)\<rparr>"])
        (use t(6) y other bn in simp_all)
    have "content d t = content d s"
      by (rule content_take [OF c b(1) cache_okD(8) [OF ct] t(3,5) y(1-3,9)]) (use hit b in auto)
    moreover have "\<forall>i. i \<noteq> b \<longrightarrow> bufs t i = bufs s i" using t(5) by simp
    moreover have "blockno (bufs t b) = bn" "data (bufs t b) = content d s bn" using t(5) y by simp_all
    moreover have "b \<in> P \<longrightarrow> blockno (bufs s b) = bn" using hit by blast
    ultimately show ?thesis using t(1-4) b ct by blast
  qed
  show ?thesis
  proof (cases "valid ?x")
    case True
    then have hv: "valid (bufs s b)" "dev (bufs s b) = d" "blockno (bufs s b) = bn" by (auto simp: taken_def split: if_splits)
    then have "content d s bn = data (bufs s b)" using content_cached [OF cache_okD(8) [OF c] b(1)] by (simp add: cached_def)
    then have "data ?x = content d s bn" using hv by (simp add: taken_def)
    then show ?thesis using x True by (intro last [of ?u ?x] cu) (simp_all add: bread_def get straight get_buf_def)
  next
    case False
    obtain t where t: "virtio_disk_rw b False ?u = Ok () t" "calm p ?u t" "platter t = platter s" "written t = written s"
        "sleeplocks t = sleeplocks ?u" "bufs t = (bufs ?u)(b := (bufs ?u b)\<lparr>data := platter s (sector_of bn), bdisk := False\<rparr>)"
      using disk_read_run [OF calm_io [OF cu], of b] x(2,3) by auto
    let ?y = "?x\<lparr>data := platter s (sector_of bn), bdisk := False, valid := True\<rparr>"
    let ?t = "t\<lparr>bufs := (bufs s)(b := ?y)\<rparr>"
    have "bread d bn s = Ok b ?t" using False t(1,6) by (simp add: bread_def get straight get_buf_def upd_buf_def)
    moreover have "calm p t ?t" using calm_io [OF t(2)] by (intro calmI) (simp_all add: io_ok_def)
    then have "calm p s ?t" using cu t(2) calm_trans by blast
    ultimately show ?thesis using x t(3-5) miss [OF False] cache_okD(9) [OF c, of "sector_of bn"]
      by (intro last [of ?t ?y]) simp_all
  qed
qed

section \<open>The other operations\<close>

text \<open>Changing the buffers of a coherent cache: the ring and the locks stay, each buffer stays well formed.\<close>

lemma cache_ok_change:
  assumes c: "cache_ok p d H P s" and t: "calm p s t" "H' \<union> P' \<subseteq> {..<NBUF}" "\<exists>ord. ring_ok (bufs t) ord"
      "\<And>i. i < NBUF \<Longrightarrow> dev (bufs t i) = dev (bufs s i) \<and> blockno (bufs t i) = blockno (bufs s i)"
      "\<And>i. i < NBUF \<Longrightarrow> buf_ok d H' P' (platter t) i (bufs t i)"
      "\<And>i. i < NBUF \<Longrightarrow> sl_locked (sleeplocks t (buf_lock i)) \<longleftrightarrow> i \<in> H'"
      "\<And>i. i \<in> H' \<Longrightarrow> sl_pid (sleeplocks t (buf_lock i)) = pid (proc s p)"
      "\<And>sec. length (platter t sec) = BSIZE"
  shows "cache_ok p d H' P' t"
proof -
  have "unique_blocks d (bufs t)" using cache_okD(8) [OF c] t(4) unfolding unique_blocks_def by metis
  then show ?thesis using t calm_io [OF t(1)] unfolding cache_ok_def calm_def by auto
qed

lemma content_update:
  assumes c: "cache_ok p d H P s" and b: "b < NBUF" "dev (bufs s b) = d" "valid (bufs s b)" and bs: "length bs = BSIZE" and h: "b \<in> H"
  shows "cache_ok p d H P (s\<lparr>bufs := (bufs s)(b := (bufs s b)\<lparr>data := bs\<rparr>)\<rparr>) \<and>
    content d (s\<lparr>bufs := (bufs s)(b := (bufs s b)\<lparr>data := bs\<rparr>)\<rparr>) = (content d s)(blockno (bufs s b) := bs)"
    (is "cache_ok p d H P ?t \<and> _")
proof
  have sel: "dev (bufs ?t i) = dev (bufs s i) \<and> blockno (bufs ?t i) = blockno (bufs s i) \<and> valid (bufs ?t i) = valid (bufs s i)" for i
    by (simp add: fun_upd_apply)
  obtain ord where "ring_ok (bufs s) ord" using cache_okD(2) [OF c] by blast
  then have "ring_ok (bufs ?t) ord" using ring_ok_cong [of "bufs ?t" "bufs s"] by (simp add: fun_upd_apply)
  moreover have "buf_ok d H P (platter ?t) i (bufs ?t i)" if "i < NBUF" for i
    using cache_okD(5) [OF c that] bs h by (cases "i = b") (simp_all add: buf_ok_def)
  moreover have "calm p s ?t" using cache_okD(1) [OF c] by (intro calmI) (simp_all add: io_ok_def)
  ultimately show ct: "cache_ok p d H P ?t"
    using cache_okD(3,4,6,7,9) [OF c] sel by (intro cache_ok_change [OF c]) auto
  show "content d ?t = (content d s)(blockno (bufs s b) := bs)"
  proof
    fix k
    show "content d ?t k = ((content d s)(blockno (bufs s b) := bs)) k"
    proof (cases "k = blockno (bufs s b)")
      case True
      then have "cached d (bufs ?t) k b" using b by (simp add: cached_def)
      then show ?thesis using content_cached [OF cache_okD(8) [OF ct] b(1)] True by simp
    next
      case False
      have eq: "cached d (bufs ?t) k = cached d (bufs s) k" using sel by (simp add: cached_def fun_eq_iff)
      have "i \<noteq> b" if "cached d (bufs s) k i" for i using False that by (auto simp: cached_def)
      then have "content d ?t k = content d s k" unfolding content_def eq
        by (cases "find (cached d (bufs s) k) [0..<NBUF]") (auto dest!: find_SomeD simp del: NBUF_def)
      then show ?thesis using False by simp
    qed
  qed
qed

lemma holding_buf:
  assumes "cache_ok p d H P s" and "b \<in> H"
  shows "holdingsleep (buf_lock b) s = Ok True s"
  using holdingsleep_run [OF cache_okD(1) [OF assms(1)], of "buf_lock b"] cache_okD(3,6,7) [OF assms(1), of b] assms(2) by simp

lemma bwrite_run:
  assumes c: "cache_ok p d H P s" and b: "b \<in> H"
  defines "bn \<equiv> blockno (bufs s b)"
  shows "\<exists>t. bwrite b s = Ok () t \<and> cache_ok p d H P t \<and> calm p s t \<and> bufs t = bufs s \<and>
    platter t = (platter s)(sector_of bn := data (bufs s b)) \<and> written t = written s @ [(sector_of bn, data (bufs s b))] \<and>
    (\<forall>k < 0x80000000. content d t k = content d s k)"
proof -
  have bl: "b < NBUF" by (rule cache_okD(3) [OF c b])
  have ok: "buf_ok d H P (platter s) b (bufs s b)" by (rule cache_okD(5) [OF c bl])
  obtain t where t: "virtio_disk_rw b True s = Ok () t" "calm p s t" "platter t = (platter s)(sector_of bn := data (bufs s b))"
      "written t = written s @ [(sector_of bn, data (bufs s b))]" "sleeplocks t = sleeplocks s" "bufs t = bufs s"
    using disk_write_run [OF cache_okD(1) [OF c], of b] ok by (auto simp: buf_ok_def bn_def)
  have "bwrite b s = Ok () t" using t(1) holding_buf [OF c b] by (simp add: bwrite_def)
  have bb: "dev (bufs s b) = d" "valid (bufs s b)" "bn < 0x80000000" "length (data (bufs s b)) = BSIZE"
    using ok b by (auto simp: buf_ok_def bn_def)
  have pl: "platter t (sector_of k) = platter s (sector_of k)" if "k < 0x80000000" "k \<noteq> bn" for k
    using sector_of_inj [OF that(1) bb(3)] that(2) t(3) by (auto simp: fun_upd_apply)
  have "buf_ok d H P (platter t) i (bufs t i)" if "i < NBUF" for i
  proof (cases "i = b")
    case False
    then have "dev (bufs s i) = d \<Longrightarrow> blockno (bufs s i) \<noteq> bn"
      using cache_okD(8) [OF c] bl that bb(1) unfolding unique_blocks_def bn_def by blast
    then show ?thesis using cache_okD(5) [OF c that] pl [of "blockno (bufs s i)"] by (auto simp: buf_ok_def t(6))
  qed (use ok b in \<open>simp add: buf_ok_def t(6)\<close>)
  then have ct: "cache_ok p d H P t"
    using cache_okD(2,3,4,6,7,9) [OF c] bb(4) by (intro cache_ok_change [OF c t(2)]) (auto simp: t(3,5,6) fun_upd_apply)
  have "content d t k = content d s k" if "k < 0x80000000" for k
  proof (cases "k = bn")
    case True
    then have "cached d (bufs s) k b" "cached d (bufs t) k b" using bb by (auto simp: cached_def t(6) bn_def)
    then show ?thesis using content_cached [OF cache_okD(8) [OF ct] bl] content_cached [OF cache_okD(8) [OF c] bl] t(6) by simp
  next
    case False
    then show ?thesis by (intro content_cong) (simp_all add: t(6) pl that)
  qed
  then show ?thesis using ct t \<open>bwrite b s = Ok () t\<close> by blast
qed

definition dropped :: "nat \<Rightarrow> (nat \<Rightarrow> buf) \<Rightarrow> (nat \<Rightarrow> buf)" where
  "dropped b bs = (let bs1 = bs(b := (bs b)\<lparr>refcnt := refcnt (bs b) - 1\<rparr>) in
     if refcnt (bs b) = 1 then front b (relink (bprev (bs1 b)) (bnext (bs1 b)) bs1) else bs1)"

lemma dropped_fields:
  "dev (dropped b bs i) = dev (bs i)" "blockno (dropped b bs i) = blockno (bs i)" "valid (dropped b bs i) = valid (bs i)"
  "data (dropped b bs i) = data (bs i)" "bdisk (dropped b bs i) = bdisk (bs i)"
  "refcnt (dropped b bs i) = (if i = b then refcnt (bs b) - 1 else refcnt (bs i))"
proof -
  have "payload (dropped b bs i) = payload ((bs(b := (bs b)\<lparr>refcnt := refcnt (bs b) - 1\<rparr>)) i)"
    by (simp add: dropped_def Let_def)
  then show "dev (dropped b bs i) = dev (bs i)" "blockno (dropped b bs i) = blockno (bs i)" "valid (dropped b bs i) = valid (bs i)"
    "data (dropped b bs i) = data (bs i)" "bdisk (dropped b bs i) = bdisk (bs i)"
    "refcnt (dropped b bs i) = (if i = b then refcnt (bs b) - 1 else refcnt (bs i))"
    by (cases "i = b"; simp add: payload_def)+
qed

lemma dropped_ring:
  assumes "ring_ok bs ord" and "b < NBUF"
  shows "\<exists>ord. ring_ok (dropped b bs) ord"
proof -
  let ?bs = "bs(b := (bs b)\<lparr>refcnt := refcnt (bs b) - 1\<rparr>)"
  have "ring_ok ?bs ord" using assms(1) ring_ok_cong [of ?bs bs] by (simp add: fun_upd_apply)
  then show ?thesis using ring_move [of ?bs ord b] assms(2) by (auto simp: dropped_def Let_def)
qed

lemma brelse_run:
  assumes c: "cache_ok p d H P s" and b: "b \<in> H"
    and clean: "b \<in> P \<or> data (bufs s b) = platter s (sector_of (blockno (bufs s b)))"
  shows "\<exists>t. brelse b s = Ok () t \<and> cache_ok p d (H - {b}) P t \<and> calm p s t \<and> platter t = platter s \<and> written t = written s \<and>
    content d t = content d s \<and> bufs t = dropped b (bufs s)"
proof -
  have bl: "b < NBUF" by (rule cache_okD(3) [OF c b])
  have io: "io_ok p s" by (rule cache_okD(1) [OF c])
  have held: "locks s = []" using io by (simp add: io_ok_def)
  obtain f where f: "releasesleep (buf_lock b) s = Ok () (s\<lparr>sleeplocks := (sleeplocks s)(buf_lock b := (sleeplocks s (buf_lock b))\<lparr>sl_locked := False, sl_pid := 0\<rparr>), proc := f\<rparr>)"
      (is "_ = Ok () ?u") "f p = proc s p"
    using releasesleep_run [OF io, of "buf_lock b"] by blast
  let ?t = "?u\<lparr>bufs := dropped b (bufs s)\<rparr>"
  have run: "brelse b s = Ok () ?t"
  proof -
    have e: "s\<lparr>sleeplocks := l, proc := f, locks := [], bufs := Y\<rparr> = s\<lparr>sleeplocks := l, proc := f, bufs := Y\<rparr>"
        "s\<lparr>sleeplocks := l, proc := f, bufs := Y, locks := []\<rparr> = s\<lparr>sleeplocks := l, proc := f, bufs := Y\<rparr>" for l Y
      using held by simp_all
    have ne: "b \<noteq> BHEAD" using bl by simp
    show ?thesis
      using held holding_buf [OF c b] f(1) e
      by (cases "refcnt (bufs s b) = 1")
         (simp_all add: brelse_def straight upd_buf_def get_buf_def lock_runs unlink_buf_run push_front_run [OF ne] dropped_def Let_def)
  qed
  have calm: "calm p s ?t" using f(2) io by (intro calmI) (auto simp: io_ok_def fun_upd_apply)
  have "\<exists>ord. ring_ok (bufs ?t) ord" using cache_okD(2) [OF c] dropped_ring bl by auto
  moreover have "buf_ok d (H - {b}) P (platter ?t) i (bufs ?t i)" if "i < NBUF" for i
    using cache_okD(5) [OF c that] b clean by (cases "i = b") (auto simp: buf_ok_def dropped_fields)
  moreover have "sl_locked (sleeplocks ?t (buf_lock i)) \<longleftrightarrow> i \<in> H - {b}" if "i < NBUF" for i
    using cache_okD(6) [OF c that] by (cases "i = b") simp_all
  moreover have "sl_pid (sleeplocks ?t (buf_lock i)) = pid (proc s p)" if "i \<in> H - {b}" for i
    using cache_okD(7) [OF c] that by simp
  ultimately have "cache_ok p d (H - {b}) P ?t"
    using cache_okD(3,4,9) [OF c] by (intro cache_ok_change [OF c calm]) (auto simp: dropped_fields)
  moreover have "content d ?t = content d s" by (intro ext content_cong) (simp_all add: dropped_fields)
  ultimately show ?thesis using run calm by (intro exI [of _ ?t]) simp
qed

text \<open>Pinning and unpinning change the reference count only.\<close>

lemma pin_run:
  assumes c: "cache_ok p d H P s" and b: "b \<in> H"
  shows "b \<notin> P \<Longrightarrow> bpin b s = Ok () (s\<lparr>bufs := (bufs s)(b := (bufs s b)\<lparr>refcnt := refcnt (bufs s b) + 1\<rparr>)\<rparr>) \<and>
      cache_ok p d H (insert b P) (s\<lparr>bufs := (bufs s)(b := (bufs s b)\<lparr>refcnt := refcnt (bufs s b) + 1\<rparr>)\<rparr>)"
    and "b \<in> P \<Longrightarrow> bunpin b s = Ok () (s\<lparr>bufs := (bufs s)(b := (bufs s b)\<lparr>refcnt := refcnt (bufs s b) - 1\<rparr>)\<rparr>) \<and>
      cache_ok p d H (P - {b}) (s\<lparr>bufs := (bufs s)(b := (bufs s b)\<lparr>refcnt := refcnt (bufs s b) - 1\<rparr>)\<rparr>)"
proof -
  have bl: "b < NBUF" by (rule cache_okD(3) [OF c b])
  have io: "io_ok p s" by (rule cache_okD(1) [OF c])
  have held: "locks s = []" using io by (simp add: io_ok_def)
  have e: "s\<lparr>bufs := Y, locks := []\<rparr> = s\<lparr>bufs := Y\<rparr>" for Y using held by simp
  obtain ord where r: "ring_ok (bufs s) ord" using cache_okD(2) [OF c] by blast
  have ok: "cache_ok p d H P' (s\<lparr>bufs := (bufs s)(b := (bufs s b)\<lparr>refcnt := n\<rparr>)\<rparr>)" (is "cache_ok p d H P' ?t")
    if P': "P' \<subseteq> {..<NBUF}" "P' - {b} = P - {b}" "n = (if b \<in> P' then 2 else 1)" for P' n
  proof (rule cache_ok_change [OF c])
    show "calm p s ?t" using io by (intro calmI) (simp_all add: io_ok_def)
    have "ring_ok (bufs ?t) ord" using r ring_ok_cong [of "bufs ?t" "bufs s"] by (simp add: fun_upd_apply)
    then show "\<exists>ord. ring_ok (bufs ?t) ord" by blast
    show "buf_ok d H P' (platter ?t) i (bufs ?t i)" if "i < NBUF" for i
    proof (cases "i = b")
      case False
      then have "i \<in> P' \<longleftrightarrow> i \<in> P" using P'(2) by blast
      then show ?thesis using cache_okD(5) [OF c that] False by (simp add: buf_ok_def)
    qed (use cache_okD(5) [OF c bl] b P'(3) in \<open>simp add: buf_ok_def\<close>)
  qed (use P'(1) cache_okD(3,6,7,9) [OF c] in \<open>auto simp: fun_upd_apply\<close>)
  have P: "P \<subseteq> {..<NBUF}" using cache_okD(4) [OF c] by auto
  have rb: "refcnt (bufs s b) = 1 + (if b \<in> P then 1 else 0)" using cache_okD(5) [OF c bl] b by (simp add: buf_ok_def)
  show "b \<notin> P \<Longrightarrow> bpin b s = Ok () (s\<lparr>bufs := (bufs s)(b := (bufs s b)\<lparr>refcnt := refcnt (bufs s b) + 1\<rparr>)\<rparr>) \<and>
      cache_ok p d H (insert b P) (s\<lparr>bufs := (bufs s)(b := (bufs s b)\<lparr>refcnt := refcnt (bufs s b) + 1\<rparr>)\<rparr>)"
    using held e ok [of "insert b P"] P bl rb by (auto simp: bpin_def upd_buf_def straight lock_runs)
  show "b \<in> P \<Longrightarrow> bunpin b s = Ok () (s\<lparr>bufs := (bufs s)(b := (bufs s b)\<lparr>refcnt := refcnt (bufs s b) - 1\<rparr>)\<rparr>) \<and>
      cache_ok p d H (P - {b}) (s\<lparr>bufs := (bufs s)(b := (bufs s b)\<lparr>refcnt := refcnt (bufs s b) - 1\<rparr>)\<rparr>)"
    using held e ok [of "P - {b}"] P bl rb by (auto simp: bunpin_def upd_buf_def straight lock_runs)
qed

section \<open>Initialisation\<close>

lemma binit_list:
  assumes "links (bufs s) BHEAD xs BHEAD" and "distinct (ys @ xs)" and "BHEAD \<notin> set (ys @ xs)"
  shows "\<exists>bs sl. for_each (\<lambda>b. bnd (push_front b) (\<lambda>_. initsleeplock (buf_lock b))) ys s = Ok () (s\<lparr>bufs := bs, sleeplocks := sl\<rparr>) \<and>
    links bs BHEAD (rev ys @ xs) BHEAD \<and> (\<forall>i. payload (bs i) = payload (bufs s i)) \<and>
    (\<forall>i. sl (buf_lock i) = (if i \<in> set ys then \<lparr>sl_locked = False, sl_pid = 0\<rparr> else sleeplocks s (buf_lock i)))"
  using assms
proof (induction ys arbitrary: s xs)
  case Nil
  then show ?case by (intro exI [of _ "bufs s"] exI [of _ "sleeplocks s"]) simp
next
  case (Cons b ys)
  let ?s = "s\<lparr>bufs := front b (bufs s), sleeplocks := (sleeplocks s)(buf_lock b := \<lparr>sl_locked = False, sl_pid = 0\<rparr>)\<rparr>"
  have ne: "b \<noteq> BHEAD" using Cons.prems(3) by auto
  have one: "bnd (push_front b) (\<lambda>_. initsleeplock (buf_lock b)) s = Ok () ?s"
    by (simp add: push_front_run [OF ne] initsleeplock_def upd_sl_def)
  have "links (bufs ?s) BHEAD (b # xs) BHEAD" using links_front [OF Cons.prems(1)] Cons.prems(2,3) by auto
  then obtain bs sl where r: "for_each (\<lambda>b. bnd (push_front b) (\<lambda>_. initsleeplock (buf_lock b))) ys ?s = Ok () (?s\<lparr>bufs := bs, sleeplocks := sl\<rparr>)"
      "links bs BHEAD (rev ys @ b # xs) BHEAD" "\<forall>i. payload (bs i) = payload (bufs ?s i)"
      "\<forall>i. sl (buf_lock i) = (if i \<in> set ys then \<lparr>sl_locked = False, sl_pid = 0\<rparr> else sleeplocks ?s (buf_lock i))"
    using Cons.IH [of ?s "b # xs"] Cons.prems(2,3) by auto
  have "for_each (\<lambda>b. bnd (push_front b) (\<lambda>_. initsleeplock (buf_lock b))) (b # ys) s = Ok () (s\<lparr>bufs := bs, sleeplocks := sl\<rparr>)"
    using one r(1) by simp
  then show ?case using r(2-4) by (intro exI [of _ bs] exI [of _ sl]) (simp add: fun_upd_apply)
qed

lemma binit_run:
  "\<exists>bs sl. binit s = Ok () (s\<lparr>bufs := bs, sleeplocks := sl\<rparr>) \<and> ring_ok bs (rev [0..<NBUF]) \<and>
    (\<forall>i. payload (bs i) = payload (bufs s i)) \<and> (\<forall>i < NBUF. \<not> sl_locked (sl (buf_lock i)))"
proof -
  let ?s = "s\<lparr>bufs := (bufs s)(BHEAD := (bufs s BHEAD)\<lparr>bprev := BHEAD, bnext := BHEAD\<rparr>)\<rparr>"
  have "links (bufs ?s) BHEAD [] BHEAD" by simp
  from binit_list [OF this, of "[0..<NBUF]"] obtain bs sl
    where r: "for_each (\<lambda>b. bnd (push_front b) (\<lambda>_. initsleeplock (buf_lock b))) [0..<NBUF] ?s = Ok () (?s\<lparr>bufs := bs, sleeplocks := sl\<rparr>)"
      "links bs BHEAD (rev [0..<NBUF]) BHEAD" "\<forall>i. payload (bs i) = payload (bufs ?s i)"
      "\<forall>i. sl (buf_lock i) = (if i \<in> set [0..<NBUF] then \<lparr>sl_locked = False, sl_pid = 0\<rparr> else sleeplocks ?s (buf_lock i))"
    by (auto simp del: NBUF_def)
  have "binit s = Ok () (s\<lparr>bufs := bs, sleeplocks := sl\<rparr>)"
    using r(1) by (simp add: binit_def upd_buf_def straight del: NBUF_def)
  moreover have "ring_ok bs (rev [0..<NBUF])" using r(2) by (auto simp: ring_ok_def simp del: NBUF_def)
  moreover have "payload (bs i) = payload (bufs s i)" for i using r(3) by (simp add: payload_def fun_upd_apply)
  ultimately show ?thesis using r(4) by (intro exI [of _ bs] exI [of _ sl]) (simp del: NBUF_def)
qed

section \<open>The cache as a store of blocks\<close>

text \<open>The blocks that can be addressed, and the state between two uses of the cache.\<close>

definition blocks :: "u32 \<Rightarrow> 'z vdisk_scheme \<Rightarrow> u32 \<Rightarrow> u8 list" where
  "blocks d s k = (if k < 0x80000000 then content d s k else [])"

lemma blocks_clean:
  assumes "cache_ok p d {} P s" and "\<And>i. i \<in> P \<Longrightarrow> blockno (bufs s i) \<noteq> k" and "k < 0x80000000"
  shows "blocks d s k = platter s (sector_of k)"
proof (cases "\<exists>i < NBUF. cached d (bufs s) k i")
  case True
  then obtain i where i: "i < NBUF" "cached d (bufs s) k i" by blast
  then have "i \<notin> P" using assms(2) [of i] by (auto simp: cached_def)
  then show ?thesis using content_cached [OF cache_okD(8) [OF assms(1)] i] cache_okD(5) [OF assms(1) i(1)] i assms(3)
    by (simp add: blocks_def cached_def buf_ok_def)
qed (use assms content_uncached [of d s k] in \<open>auto simp: blocks_def\<close>)

lemma bread_blocks:
  assumes "cache_ok p d H P s" and "\<exists>i < NBUF. i \<notin> H \<union> P \<or> dev (bufs s i) = d \<and> blockno (bufs s i) = bn"
    and "\<And>i. i \<in> H \<Longrightarrow> blockno (bufs s i) \<noteq> bn" and bn: "bn < 0x80000000"
  obtains b t where "bread d bn s = Ok b t" "b < NBUF" "b \<notin> H" "cache_ok p d (insert b H) P t" "calm p s t"
    "platter t = platter s" "written t = written s" "blockno (bufs t b) = bn" "data (bufs t b) = blocks d s bn"
    "blocks d t = blocks d s" "\<forall>i. i \<noteq> b \<longrightarrow> bufs t i = bufs s i" "b \<in> P \<longrightarrow> blockno (bufs s b) = bn"
proof -
  obtain b t where r: "bread d bn s = Ok b t" "b < NBUF" "b \<notin> H" "cache_ok p d (insert b H) P t" "calm p s t"
    "platter t = platter s" "written t = written s" "blockno (bufs t b) = bn" "data (bufs t b) = content d s bn"
    "content d t = content d s" "\<forall>i. i \<noteq> b \<longrightarrow> bufs t i = bufs s i" "b \<in> P \<longrightarrow> blockno (bufs s b) = bn"
    using bread_run [OF assms] by blast
  show ?thesis
  proof (rule that [OF r(1-8) _ _ r(11,12)])
    show "data (bufs t b) = blocks d s bn" using r(9) bn by (simp add: blocks_def)
    show "blocks d t = blocks d s" using r(10) by (simp add: blocks_def fun_eq_iff)
  qed
qed

lemma set_data_blocks:
  assumes c: "cache_ok p d H P s" and b: "b \<in> H" and bs: "length bs = BSIZE"
  obtains t where "set_data b bs s = Ok () t" "cache_ok p d H P t" "calm p s t" "platter t = platter s" "written t = written s"
    "blocks d t = (blocks d s)(blockno (bufs s b) := bs)" "bufs t = (bufs s)(b := (bufs s b)\<lparr>data := bs\<rparr>)"
proof -
  have bl: "b < NBUF" by (rule cache_okD(3) [OF c b])
  have ok: "dev (bufs s b) = d" "valid (bufs s b)" "blockno (bufs s b) < 0x80000000"
    using cache_okD(5) [OF c bl] b by (auto simp: buf_ok_def)
  let ?t = "s\<lparr>bufs := (bufs s)(b := (bufs s b)\<lparr>data := bs\<rparr>)\<rparr>"
  note u = content_update [OF c bl ok(1,2) bs b]
  show ?thesis
  proof (rule that [of ?t])
    show "set_data b bs s = Ok () ?t" by (simp add: set_data_def upd_buf_def)
    show "calm p s ?t" using cache_okD(1) [OF c] by (intro calmI) (simp_all add: io_ok_def)
    show "blocks d ?t = (blocks d s)(blockno (bufs s b) := bs)" using u ok(3) by (auto simp: blocks_def fun_eq_iff fun_upd_apply)
  qed (use u in simp_all)
qed

lemma bwrite_blocks:
  assumes "cache_ok p d H P s" and "b \<in> H"
  obtains t where "bwrite b s = Ok () t" "cache_ok p d H P t" "calm p s t" "bufs t = bufs s" "blocks d t = blocks d s"
    "platter t = (platter s)(sector_of (blockno (bufs s b)) := data (bufs s b))"
    "written t = written s @ [(sector_of (blockno (bufs s b)), data (bufs s b))]"
  using bwrite_run [OF assms] by (auto simp: blocks_def fun_eq_iff)

lemma brelse_blocks:
  assumes "cache_ok p d H P s" and "b \<in> H"
    and "b \<in> P \<or> data (bufs s b) = platter s (sector_of (blockno (bufs s b)))"
  obtains t where "brelse b s = Ok () t" "cache_ok p d (H - {b}) P t" "calm p s t" "platter t = platter s" "written t = written s"
    "blocks d t = blocks d s" "bufs t = dropped b (bufs s)"
  using brelse_run [OF assms] by (auto simp: blocks_def fun_eq_iff)

text \<open>
  C7. The buffer cache implements a store of blocks: a block that is read, changed, written and
  released has its new contents on the disk and for every later reader, and all other blocks keep
  theirs, whichever buffers were recycled.
\<close>

theorem buffer_cache_coherent:
  assumes "cache_ok p d {} P s" and free: "\<exists>i < NBUF. i \<notin> P" and bn: "bn < 0x80000000" "k < 0x80000000" and bs: "length bs = BSIZE"
  shows "\<exists>b t b' u. bnd (bread d bn) (\<lambda>b. bnd (set_data b bs) (\<lambda>_. bnd (bwrite b) (\<lambda>_. bnd (brelse b) (\<lambda>_. ret b)))) s = Ok b t \<and>
    cache_ok p d {} P t \<and> platter t = (platter s)(sector_of bn := bs) \<and> blocks d t = (blocks d s)(bn := bs) \<and>
    bread d k t = Ok b' u \<and> data (bufs u b') = ((blocks d s)(bn := bs)) k"
proof -
  have f: "\<exists>i < NBUF. i \<notin> {} \<union> P \<or> Q i" for Q using free by auto
  obtain b s1 where 1: "bread d bn s = Ok b s1" "cache_ok p d {b} P s1" "platter s1 = platter s" "blockno (bufs s1 b) = bn" "blocks d s1 = blocks d s"
    by (rule bread_blocks [OF assms(1) f _ bn(1)]) (simp, blast)
  obtain s2 where 2: "set_data b bs s1 = Ok () s2" "cache_ok p d {b} P s2" "platter s2 = platter s1" "blocks d s2 = (blocks d s1)(bn := bs)"
      "bufs s2 = (bufs s1)(b := (bufs s1 b)\<lparr>data := bs\<rparr>)"
    using set_data_blocks [OF 1(2) _ bs, of b] 1(4) by auto
  obtain s3 where 3: "bwrite b s2 = Ok () s3" "cache_ok p d {b} P s3" "bufs s3 = bufs s2" "blocks d s3 = blocks d s2"
      "platter s3 = (platter s2)(sector_of bn := bs)"
    using bwrite_blocks [OF 2(2), of b] 1(4) by (auto simp: 2(5))
  obtain t where 4: "brelse b s3 = Ok () t" "cache_ok p d {} P t" "platter t = platter s3" "blocks d t = blocks d s3"
    using brelse_blocks [OF 3(2), of b] 1(4) by (auto simp: 3(3,5) 2(5))
  obtain b' u where "bread d k t = Ok b' u" "data (bufs u b') = blocks d t k"
    by (rule bread_blocks [OF 4(2) f _ bn(2)]) (simp, blast)
  then show ?thesis using 1 2 3 4 by (intro exI [of _ b] exI [of _ t] exI [of _ b'] exI [of _ u]) simp
qed

section \<open>A concrete cache\<close>

lemma demo_cache:
  assumes pl: "\<And>sec. length (pl sec) = BSIZE"
  obtains t where "binit ((demo_on k)\<lparr>platter := pl\<rparr>) = Ok () t" "cache_ok 0 1 {} {} t" "platter t = pl" "core t = core (demo_on k)"
proof -
  let ?s = "(demo_on k)\<lparr>platter := pl\<rparr>"
  obtain bs sl where r: "binit ?s = Ok () (?s\<lparr>bufs := bs, sleeplocks := sl\<rparr>)" "ring_ok bs (rev [0..<NBUF])"
      "\<forall>i. payload (bs i) = payload (bufs ?s i)" "\<forall>i < NBUF. \<not> sl_locked (sl (buf_lock i))"
    using binit_run by blast
  have pay: "payload (bs i) = (0, 0, False, replicate 1024 0, False, 0)" for i using r(3) by (simp add: demo_on_def demo_buf_def payload_def)
  have "buf_ok 1 {} {} pl i (bs i)" for i using pay [of i] by (simp add: payload_def buf_ok_def)
  moreover have "unique_blocks 1 bs" using pay by (simp add: unique_blocks_def payload_def)
  moreover have "io_ok 0 (?s\<lparr>bufs := bs, sleeplocks := sl\<rparr>)"
    by (simp add: io_ok_def demo_on_def demo_proc_def vq_idle_def demo_serve_device)
  ultimately have "cache_ok 0 1 {} {} (?s\<lparr>bufs := bs, sleeplocks := sl\<rparr>)"
    using r(2,4) pl by (auto simp: cache_ok_def)
  then show ?thesis using r(1) by (intro that [of "?s\<lparr>bufs := bs, sleeplocks := sl\<rparr>"]) simp_all
qed

theorem buffer_cache_coherent_witness:
  "\<exists>(s :: vstate) b t b' u. cache_ok 0 1 {} {} s \<and>
    bnd (bread 1 7) (\<lambda>b. bnd (set_data b (replicate 1024 5)) (\<lambda>_. bnd (bwrite b) (\<lambda>_. bnd (brelse b) (\<lambda>_. ret b)))) s = Ok b t \<and>
    bread 1 7 t = Ok b' u \<and> data (bufs u b') = replicate 1024 5"
proof -
  obtain k :: kmem where True by simp
  obtain s :: vstate where s: "cache_ok 0 1 {} {} s" by (rule demo_cache [of "\<lambda>_. replicate BSIZE 0" k]) simp_all
  have "\<exists>i < NBUF. i \<notin> {}" by (intro exI [of _ 0]) simp
  with buffer_cache_coherent [OF s this, of 7 7 "replicate 1024 5"] s show ?thesis by fastforce
qed

end
