(* ===== verification/Log_Spec.thy ===== *)
theory Log_Spec
  imports Bio_Spec
begin

text \<open>
  The write-ahead log makes a group of block writes atomic: \<open>commit\<close> writes the blocks to the log,
  then the header, then the blocks in place, then an empty header, and after a crash between any two
  of these writes \<open>recover_from_log\<close> finds either all of the new blocks or none of them.
\<close>

section \<open>Copying one block\<close>

lemma core_log:
  fixes s t :: "'z log_scheme"
  assumes c: "core t = core s"
  shows "log_start t = log_start s" and "log_size t = log_size s" and "outstanding t = outstanding s" and "committing t = committing s"
    and "log_dev t = log_dev s" and "log_n t = log_n s" and "log_blocks t = log_blocks s"
proof -
  have "log_start (core t) = log_start (core s)" "log_size (core t) = log_size (core s)" "outstanding (core t) = outstanding (core s)"
    "committing (core t) = committing (core s)" "log_dev (core t) = log_dev (core s)" "log_n (core t) = log_n (core s)"
    "log_blocks (core t) = log_blocks (core s)"
    by (simp_all only: c)
  then show "log_start t = log_start s" and "log_size t = log_size s" and "outstanding t = outstanding s" and "committing t = committing s"
    and "log_dev t = log_dev s" and "log_n t = log_n s" and "log_blocks t = log_blocks s"
    by (simp_all add: core_def)
qed

lemmas calm_log = core_log [OF conjunct1 [OF calm_def [THEN iffD1]]]

text \<open>Pinned buffers stay where they are.\<close>

definition pins_kept :: "nat set \<Rightarrow> 'z vdisk_scheme \<Rightarrow> 'z vdisk_scheme \<Rightarrow> bool" where
  "pins_kept P s t \<longleftrightarrow> (\<forall>i \<in> P. blockno (bufs t i) = blockno (bufs s i))"

text \<open>The two buffers of a copy: room for both, or the second is pinned.\<close>

lemma bread_two:
  assumes c: "cache_ok p d {} P s" and free: "\<exists>i < NBUF. i \<notin> P" and ab: "a \<noteq> b" "a < 0x80000000" "b < 0x80000000"
    and snd: "(\<exists>i \<in> P. blockno (bufs s i) = b) \<or> P = {}"
  obtains x y s1 t where "bread d a s = Ok x s1" "bread d b s1 = Ok y t" "x \<noteq> y" "cache_ok p d {x, y} P t" "calm p s s1" "calm p s t"
    "platter t = platter s" "written t = written s" "blocks d t = blocks d s" "blockno (bufs t x) = a" "blockno (bufs t y) = b"
    "data (bufs t x) = blocks d s a" "data (bufs t y) = blocks d s b" "pins_kept P s t"
    "x \<in> P \<longrightarrow> blockno (bufs s x) = a" "P \<noteq> {} \<longrightarrow> y \<in> P"
proof -
  have f: "\<exists>i < NBUF. i \<notin> {} \<union> P \<or> Q i" for Q using free by auto
  obtain x s1 where 1: "bread d a s = Ok x s1" "x < NBUF" "cache_ok p d {x} P s1" "calm p s s1" "platter s1 = platter s" "written s1 = written s"
      "blockno (bufs s1 x) = a" "data (bufs s1 x) = blocks d s a" "blocks d s1 = blocks d s" "\<forall>i. i \<noteq> x \<longrightarrow> bufs s1 i = bufs s i"
      "x \<in> P \<longrightarrow> blockno (bufs s x) = a"
    by (rule bread_blocks [OF c f _ ab(2)]) (simp, blast)
  have pin: "i \<noteq> x \<and> i < NBUF \<and> dev (bufs s1 i) = d \<and> blockno (bufs s1 i) = b" if "i \<in> P" "blockno (bufs s i) = b" for i
  proof -
    have "i \<noteq> x" using 1(11) that ab(1) by auto
    then show ?thesis using 1(10) that cache_okD(4) [OF c that(1)] cache_okD(5) [OF 1(3), of i] by (simp add: buf_ok_def)
  qed
  have "\<exists>i < NBUF. i \<notin> {x} \<union> P \<or> dev (bufs s1 i) = d \<and> blockno (bufs s1 i) = b"
  proof (cases "P = {}")
    case True
    then show ?thesis by (intro exI [of _ "if x = 0 then 1 else 0"]) simp
  qed (use snd pin in blast)
  moreover have "\<And>i. i \<in> {x} \<Longrightarrow> blockno (bufs s1 i) \<noteq> b" using 1(7) ab(1) by simp
  ultimately obtain y t where 2: "bread d b s1 = Ok y t" "y < NBUF" "y \<notin> {x}" "cache_ok p d (insert y {x}) P t" "calm p s1 t" "platter t = platter s1"
      "written t = written s1" "blockno (bufs t y) = b" "data (bufs t y) = blocks d s1 b" "blocks d t = blocks d s1"
      "\<forall>i. i \<noteq> y \<longrightarrow> bufs t i = bufs s1 i" "y \<in> P \<longrightarrow> blockno (bufs s1 y) = b"
    by (rule bread_blocks [OF 1(3) _ _ ab(3)]) blast+
  have "blockno (bufs t i) = blockno (bufs s i)" if "i \<in> P" for i
    using 1(7,10,11) 2(3,8,11,12) that by (cases "i = x"; cases "i = y") auto
  then have "pins_kept P s t" by (simp add: pins_kept_def)
  moreover have "y \<in> P" if ne: "P \<noteq> {}"
  proof -
    obtain i where i: "i \<in> P" "blockno (bufs s i) = b" using snd ne by blast
    note pi = pin [OF i]
    have "i = y"
    proof (rule ccontr)
      assume "i \<noteq> y"
      then have "bufs t i = bufs s1 i" using 2(11) by simp
      moreover have "dev (bufs t y) = d" using cache_okD(5) [OF 2(4,2)] by (simp add: buf_ok_def)
      ultimately show False using cache_okD(8) [OF 2(4)] pi 2(2,8) \<open>i \<noteq> y\<close> unfolding unique_blocks_def by auto
    qed
    then show ?thesis using i by simp
  qed
  moreover have "bufs t x = bufs s1 x" using 2(3,11) by auto
  ultimately show ?thesis using 1 2 calm_trans [OF 1(4) 2(5)]
    by (intro that [of x s1 y t]) (auto simp: insert_commute)
qed

lemma copy_block:
  assumes c: "cache_ok p d H P s" and xy: "x \<in> H" "y \<in> H" "x \<noteq> y"
  obtains s1 t where "set_data y (data (bufs s x)) s = Ok () s1" "bwrite y s1 = Ok () t" "cache_ok p d H P t" "calm p s t"
    "platter t = (platter s)(sector_of (blockno (bufs s y)) := data (bufs s x))"
    "written t = written s @ [(sector_of (blockno (bufs s y)), data (bufs s x))]"
    "blocks d t = (blocks d s)(blockno (bufs s y) := data (bufs s x))"
    "bufs t = (bufs s)(y := (bufs s y)\<lparr>data := data (bufs s x)\<rparr>)"
proof -
  have "length (data (bufs s x)) = BSIZE" using cache_okD(5) [OF c cache_okD(3) [OF c xy(1)]] by (simp add: buf_ok_def)
  then obtain s1 where 1: "set_data y (data (bufs s x)) s = Ok () s1" "cache_ok p d H P s1" "calm p s s1" "platter s1 = platter s" "written s1 = written s"
      "blocks d s1 = (blocks d s)(blockno (bufs s y) := data (bufs s x))" "bufs s1 = (bufs s)(y := (bufs s y)\<lparr>data := data (bufs s x)\<rparr>)"
    by (rule set_data_blocks [OF c xy(2)])
  obtain t where 2: "bwrite y s1 = Ok () t" "cache_ok p d H P t" "calm p s1 t" "bufs t = bufs s1" "blocks d t = blocks d s1"
      "platter t = (platter s1)(sector_of (blockno (bufs s1 y)) := data (bufs s1 y))"
      "written t = written s1 @ [(sector_of (blockno (bufs s1 y)), data (bufs s1 y))]"
    by (rule bwrite_blocks [OF 1(2) xy(2)])
  show ?thesis using 1 2 calm_trans [OF 1(3) 2(3)] by (intro that [of s1 t]) simp_all
qed

text \<open>The place of block \<open>i\<close> of the log.\<close>

definition slot :: "nat \<Rightarrow> nat \<Rightarrow> u32" where
  "slot st i = word_of_int (int st + int i + 1)"

lemma write_log_one_run:
  fixes s :: "'z log_scheme"
  assumes c: "cache_ok p d {} P s" and free: "\<exists>i < NBUF. i \<notin> P" and lg: "log_dev s = d" "log_start s = int st" "i < length (log_blocks s)"
    and bn: "log_blocks s ! i = bn" "bn < 0x80000000" "slot st i < 0x80000000" "slot st i \<noteq> bn" and pin: "\<exists>j \<in> P. blockno (bufs s j) = bn"
  shows "\<exists>t. write_log_one i s = Ok () t \<and> cache_ok p d {} P t \<and> calm p s t \<and> pins_kept P s t \<and>
    platter t = (platter s)(sector_of (slot st i) := blocks d s bn) \<and> written t = written s @ [(sector_of (slot st i), blocks d s bn)] \<and>
    blocks d t = (blocks d s)(slot st i := blocks d s bn)"
proof -
  obtain x y s1 s2 where 1: "bread d (slot st i) s = Ok x s1" "bread d bn s1 = Ok y s2" "x \<noteq> y" "cache_ok p d {x, y} P s2" "calm p s s1" "calm p s s2"
      "platter s2 = platter s" "written s2 = written s" "blocks d s2 = blocks d s" "blockno (bufs s2 x) = slot st i" "blockno (bufs s2 y) = bn"
      "data (bufs s2 x) = blocks d s (slot st i)" "data (bufs s2 y) = blocks d s bn" "pins_kept P s s2" "P \<noteq> {} \<longrightarrow> y \<in> P"
    by (rule bread_two [OF c free bn(4,3,2) disjI1 [OF pin]]) blast
  obtain s3 s4 where 2: "set_data x (data (bufs s2 y)) s2 = Ok () s3" "bwrite x s3 = Ok () s4" "cache_ok p d {x, y} P s4" "calm p s2 s4"
      "platter s4 = (platter s2)(sector_of (blockno (bufs s2 x)) := data (bufs s2 y))"
      "written s4 = written s2 @ [(sector_of (blockno (bufs s2 x)), data (bufs s2 y))]"
      "blocks d s4 = (blocks d s2)(blockno (bufs s2 x) := data (bufs s2 y))"
      "bufs s4 = (bufs s2)(x := (bufs s2 x)\<lparr>data := data (bufs s2 y)\<rparr>)"
    by (rule copy_block [OF 1(4) insertI2 [OF insertI1] insertI1 1(3) [symmetric]])
  have "y \<in> P" using 1(15) pin by blast
  then obtain s5 where 3: "brelse y s4 = Ok () s5" "cache_ok p d ({x, y} - {y}) P s5" "calm p s4 s5" "platter s5 = platter s4" "written s5 = written s4"
      "blocks d s5 = blocks d s4" "bufs s5 = dropped y (bufs s4)"
    using brelse_blocks [OF 2(3), of y] by blast
  have "{x, y} - {y} = {x}" using 1(3) by auto
  moreover have "data (bufs s5 x) = platter s5 (sector_of (blockno (bufs s5 x)))"
    by (simp add: 3(4,7) dropped_fields 2(5,8))
  ultimately obtain t where 4: "brelse x s5 = Ok () t" "cache_ok p d ({x} - {x}) P t" "calm p s5 t" "platter t = platter s5" "written t = written s5"
      "blocks d t = blocks d s5" "bufs t = dropped x (bufs s5)"
    using brelse_blocks [of p d "{x}" P s5 x] 3(2) by auto
  have calm: "calm p s t" using 1(6) 2(4) 3(3) 4(3) calm_trans by blast
  have kept: "pins_kept P s t"
    using 1(14) by (simp add: pins_kept_def 4(7) 3(7) dropped_fields 2(8) fun_upd_apply)
  have "write_log_one i s = Ok () t"
    using 1(1,2) 2(1,2) 3(1) 4(1) lg bn(1) calm_log [OF 1(5)]
    by (simp add: write_log_one_def straight log_block_def get_buf_def slot_def)
  then show ?thesis using calm kept 4(2,4-6) 3(4-6) 2(5-7) 1(7-13) by (intro exI [of _ t]) simp
qed

lemma blocks_refcnt: "blocks d (s\<lparr>bufs := (bufs s)(y := (bufs s y)\<lparr>refcnt := n\<rparr>)\<rparr>) = blocks d s"
proof -
  have "content d (s\<lparr>bufs := (bufs s)(y := (bufs s y)\<lparr>refcnt := n\<rparr>)\<rparr>) k = content d s k" for k
    by (rule content_cong) (simp_all add: fun_upd_apply)
  then show ?thesis by (simp add: blocks_def fun_eq_iff)
qed

lemma install_one_run:
  fixes s :: "'z log_scheme"
  assumes c: "cache_ok p d {} P s" and free: "\<exists>i < NBUF. i \<notin> P" and lg: "log_dev s = d" "log_start s = int st" "i < length (log_blocks s)"
    and bn: "log_blocks s ! i = bn" "bn < 0x80000000" "slot st i < 0x80000000" "slot st i \<noteq> bn"
    and pin: "if recovering then P = {} else \<exists>j \<in> P. blockno (bufs s j) = bn" and unpinned: "\<And>j. j \<in> P \<Longrightarrow> blockno (bufs s j) \<noteq> slot st i"
  shows "\<exists>t. install_one recovering i s = Ok () t \<and> cache_ok p d {} (P - {j. blockno (bufs s j) = bn}) t \<and> calm p s t \<and> pins_kept P s t \<and>
    platter t = (platter s)(sector_of bn := blocks d s (slot st i)) \<and> written t = written s @ [(sector_of bn, blocks d s (slot st i))] \<and>
    blocks d t = (blocks d s)(bn := blocks d s (slot st i))"
proof -
  have pin': "(\<exists>j \<in> P. blockno (bufs s j) = bn) \<or> P = {}" using pin by (auto split: if_splits)
  obtain x y s1 s2 where 1: "bread d (slot st i) s = Ok x s1" "bread d bn s1 = Ok y s2" "x \<noteq> y" "cache_ok p d {x, y} P s2" "calm p s s1" "calm p s s2"
      "platter s2 = platter s" "written s2 = written s" "blocks d s2 = blocks d s" "blockno (bufs s2 x) = slot st i" "blockno (bufs s2 y) = bn"
      "data (bufs s2 x) = blocks d s (slot st i)" "pins_kept P s s2" "P \<noteq> {} \<longrightarrow> y \<in> P"
    by (rule bread_two [OF c free bn(4,3,2) pin']) blast
  obtain s3 s4 where 2: "set_data y (data (bufs s2 x)) s2 = Ok () s3" "bwrite y s3 = Ok () s4" "cache_ok p d {x, y} P s4" "calm p s2 s4"
      "platter s4 = (platter s2)(sector_of (blockno (bufs s2 y)) := data (bufs s2 x))"
      "written s4 = written s2 @ [(sector_of (blockno (bufs s2 y)), data (bufs s2 x))]"
      "blocks d s4 = (blocks d s2)(blockno (bufs s2 y) := data (bufs s2 x))"
      "bufs s4 = (bufs s2)(y := (bufs s2 y)\<lparr>data := data (bufs s2 x)\<rparr>)"
    by (rule copy_block [OF 1(4) insertI1 insertI2 [OF insertI1] 1(3)])
  let ?P = "P - {y}"
  obtain s5 where 5: "guarded (\<not> recovering) (bunpin y) s4 = Ok () s5" "cache_ok p d {x, y} ?P s5" "calm p s4 s5" "platter s5 = platter s4"
      "written s5 = written s4" "blocks d s5 = blocks d s4"
      "\<And>j. blockno (bufs s5 j) = blockno (bufs s4 j) \<and> data (bufs s5 j) = data (bufs s4 j)"
  proof (cases recovering)
    case True
    then show ?thesis using that [of s4] 2(3) pin calm_refl [OF cache_okD(1) [OF 2(3)]] by simp
  next
    case False
    then have "y \<in> P" using pin 1(14) by auto
    note u = pin_run(2) [OF 2(3), of y, simplified, OF this]
    show ?thesis
    proof (rule that)
      show "calm p s4 (s4\<lparr>bufs := (bufs s4)(y := (bufs s4 y)\<lparr>refcnt := refcnt (bufs s4 y) - 1\<rparr>)\<rparr>)"
        using cache_okD(1) [OF 2(3)] by (intro calmI) (simp_all add: io_ok_def)
      show "blocks d (s4\<lparr>bufs := (bufs s4)(y := (bufs s4 y)\<lparr>refcnt := refcnt (bufs s4 y) - 1\<rparr>)\<rparr>) = blocks d s4"
        by (rule blocks_refcnt)
    qed (use u False in \<open>auto simp: fun_upd_apply\<close>)
  qed
  have sec: "sector_of (slot st i) \<noteq> sector_of bn" using sector_of_inj [OF bn(3,2)] bn(4) by blast
  have "blocks d s (slot st i) = platter s (sector_of (slot st i))" by (rule blocks_clean [OF c unpinned bn(3)])
  then have cx: "data (bufs s5 x) = platter s5 (sector_of (blockno (bufs s5 x)))"
    using 1(3) sec by (simp add: 5(4,7) 2(5,8) 1)
  obtain s6 where 6: "brelse x s5 = Ok () s6" "cache_ok p d ({x, y} - {x}) ?P s6" "calm p s5 s6" "platter s6 = platter s5" "written s6 = written s5"
      "blocks d s6 = blocks d s5" "bufs s6 = dropped x (bufs s5)"
    using brelse_blocks [OF 5(2), of x] cx by blast
  have "data (bufs s6 y) = platter s6 (sector_of (blockno (bufs s6 y)))"
    by (simp add: 6(4,7) dropped_fields 5(4,7) 2(5,8) 1)
  moreover have "{x, y} - {x} = {y}" using 1(3) by auto
  ultimately obtain t where 7: "brelse y s6 = Ok () t" "cache_ok p d ({y} - {y}) ?P t" "calm p s6 t" "platter t = platter s6" "written t = written s6"
      "blocks d t = blocks d s6" "bufs t = dropped y (bufs s6)"
    using brelse_blocks [of p d "{y}" ?P s6 y] 6(2) by auto
  have calm: "calm p s t" using 1(6) 2(4) 5(3) 6(3) 7(3) calm_trans by blast
  have kept: "pins_kept P s t"
    using 1(13) 5(7) by (simp add: pins_kept_def 7(7) 6(7) dropped_fields 2(8) fun_upd_apply)
  have "?P = P - {j. blockno (bufs s j) = bn}"
  proof -
    have "j = y" if "j \<in> P" "blockno (bufs s j) = bn" for j
    proof -
      have "j < NBUF" "y < NBUF" using cache_okD(4) [OF c that(1)] cache_okD(3) [OF 1(4), of y] by auto
      moreover have "blockno (bufs s2 j) = bn" using 1(13) that by (simp add: pins_kept_def)
      moreover have "dev (bufs s2 j) = d" "dev (bufs s2 y) = d"
        using cache_okD(5) [OF 1(4)] calculation(1,2) that(1) by (auto simp: buf_ok_def)
      ultimately show ?thesis using cache_okD(8) [OF 1(4)] 1(11) unfolding unique_blocks_def by metis
    qed
    moreover have "blockno (bufs s y) = bn" if "y \<in> P" using 1(11,13) that by (simp add: pins_kept_def)
    ultimately show ?thesis by blast
  qed
  moreover have "install_one recovering i s = Ok () t"
    using 1(1,2) 2(1,2) 5(1) 6(1) 7(1) lg bn(1) calm_log [OF 1(5)]
    by (simp add: install_one_def straight log_block_def get_buf_def slot_def del: guarded_run)
  ultimately show ?thesis using calm kept 7(2,4-6) 6(4-6) 5(4-6) 2(5-7) 1(7-12) by (intro exI [of _ t]) simp
qed

section \<open>The loops over the log\<close>

definition apply_writes :: "(u64 \<times> u8 list) list \<Rightarrow> (u64 \<Rightarrow> u8 list) \<Rightarrow> (u64 \<Rightarrow> u8 list)" where
  "apply_writes ws pl = fold (\<lambda>(sec, bs) q. q(sec := bs)) ws pl"

lemma apply_writes_simps [simp]:
  "apply_writes [] pl = pl" "apply_writes ((sec, bs) # ws) pl = apply_writes ws (pl(sec := bs))"
  "apply_writes (ws @ vs) pl = apply_writes vs (apply_writes ws pl)"
  by (simp_all add: apply_writes_def)

text \<open>The log area: the header at \<open>st\<close> and the slots after it.\<close>

definition in_log :: "nat \<Rightarrow> u32 \<Rightarrow> bool" where
  "in_log st k \<longleftrightarrow> st \<le> unat k \<and> unat k \<le> st + LOGSIZE"

definition head :: "nat \<Rightarrow> u32" where
  "head st = word_of_int (int st)"

lemma unat_log_places:
  assumes "st + LOGSIZE < 2 ^ 31"
  shows "unat (head st) = st" and "i < LOGSIZE \<Longrightarrow> unat (slot st i) = st + i + 1"
proof -
  have u: "unat (word_of_int (int n) :: u32) = n" if "n < 2 ^ 32" for n
    using that by (simp add: unsigned_of_nat take_bit_nat_eq_self)
  show "unat (head st) = st" unfolding head_def by (rule u) (use assms in simp)
  have "int st + int i + 1 = int (st + i + 1)" by simp
  then show "unat (slot st i) = st + i + 1" if "i < LOGSIZE" unfolding slot_def
    by (simp only:) (rule u, use assms that in simp)
qed

lemma log_places:
  assumes st: "st + LOGSIZE < 2 ^ 31" and i: "i < LOGSIZE"
  shows "slot st i < 0x80000000" and "in_log st (slot st i)" and "j < LOGSIZE \<Longrightarrow> slot st i = slot st j \<longleftrightarrow> i = j" and "slot st i \<noteq> head st"
    and "head st < 0x80000000" and "in_log st (head st)"
proof -
  have uh: "unat (head st) = st" and ui: "unat (slot st i) = st + i + 1"
    by (rule unat_log_places(1) [OF st], rule unat_log_places(2) [OF st i])
  have "unat (slot st i) < 2 ^ 31" "unat (head st) < 2 ^ 31" unfolding uh ui using st i by simp_all
  then show "slot st i < 0x80000000" "head st < 0x80000000" by (simp_all add: word_less_nat_alt)
  show "in_log st (slot st i)" "in_log st (head st)" unfolding in_log_def uh ui using i by simp_all
  show "slot st i = slot st j \<longleftrightarrow> i = j" if "j < LOGSIZE"
  proof -
    have "unat (slot st j) = st + j + 1" by (rule unat_log_places(2) [OF st that])
    then show ?thesis using ui by auto
  qed
  show "slot st i \<noteq> head st" using uh ui by auto
qed

text \<open>The state of the log between its operations: \<open>bls\<close> are the blocks in it, all outside the log area.\<close>

definition log_ctx :: "nat \<Rightarrow> u32 \<Rightarrow> nat \<Rightarrow> u32 list \<Rightarrow> nat set \<Rightarrow> 'z log_scheme \<Rightarrow> bool" where
  "log_ctx p d st bls P s \<longleftrightarrow> cache_ok p d {} P s \<and> (\<exists>i < NBUF. i \<notin> P) \<and> log_dev s = d \<and> log_start s = int st \<and>
     st + LOGSIZE < 2 ^ 31 \<and> log_n s = int (length bls) \<and> length (log_blocks s) = LOGSIZE \<and> length bls \<le> LOGSIZE \<and>
     take (length bls) (log_blocks s) = bls \<and> (\<forall>bn \<in> set bls. bn < 0x80000000 \<and> \<not> in_log st bn) \<and>
     (\<forall>j \<in> P. \<not> in_log st (blockno (bufs s j)))"

lemma log_ctxD:
  assumes "log_ctx p d st bls P s"
  shows "cache_ok p d {} P s" and "\<exists>i < NBUF. i \<notin> P" and "log_dev s = d" and "log_start s = int st" and "st + LOGSIZE < 2 ^ 31"
    and "log_n s = int (length bls)" and "length (log_blocks s) = LOGSIZE" and "length bls \<le> LOGSIZE"
    and "i < length bls \<Longrightarrow> log_blocks s ! i = bls ! i" and "bn \<in> set bls \<Longrightarrow> bn < 0x80000000 \<and> \<not> in_log st bn"
    and "j \<in> P \<Longrightarrow> \<not> in_log st (blockno (bufs s j))" and "take (length bls) (log_blocks s) = bls"
proof -
  show "log_blocks s ! i = bls ! i" if "i < length bls"
    using assms that unfolding log_ctx_def by (metis nth_take)
qed (use assms in \<open>auto simp: log_ctx_def\<close>)

lemma log_ctx_step:
  assumes "log_ctx p d st bls P s" and "cache_ok p d {} P' t" and "calm p s t" and "pins_kept P s t" and "P' \<subseteq> P"
  shows "log_ctx p d st bls P' t"
  using assms calm_log [OF assms(3)] unfolding log_ctx_def pins_kept_def by auto

lemma write_log_list:
  fixes s :: "'z log_scheme"
  assumes "log_ctx p d st bls P s" and "\<forall>i \<in> set js. i < length bls" and "distinct js" and "\<forall>bn \<in> set bls. \<exists>j \<in> P. blockno (bufs s j) = bn"
  shows "\<exists>t. for_each write_log_one js s = Ok () t \<and> log_ctx p d st bls P t \<and> calm p s t \<and> pins_kept P s t \<and>
    platter t = apply_writes (map (\<lambda>i. (sector_of (slot st i), blocks d s (bls ! i))) js) (platter s) \<and>
    written t = written s @ map (\<lambda>i. (sector_of (slot st i), blocks d s (bls ! i))) js \<and>
    (\<forall>i \<in> set js. blocks d t (slot st i) = blocks d s (bls ! i)) \<and> (\<forall>k. k \<notin> slot st ` set js \<longrightarrow> blocks d t k = blocks d s k)"
  using assms
proof (induction js arbitrary: s)
  case Nil
  then show ?case using calm_refl [OF cache_okD(1) [OF log_ctxD(1) [OF Nil.prems(1)]]]
    by (intro exI [of _ s]) (simp add: pins_kept_def)
next
  case (Cons i js)
  note c = log_ctxD [OF Cons.prems(1)]
  have i: "i < length bls" "i < LOGSIZE" "bls ! i \<in> set bls" using Cons.prems(2) c(8) by auto
  note pl = log_places [OF c(5) i(2)]
  have il: "i < length (log_blocks s)" and ne: "slot st i \<noteq> bls ! i" and small: "bls ! i < 0x80000000" and pin: "\<exists>j \<in> P. blockno (bufs s j) = bls ! i"
    using pl(2) c(7) c(10) [OF i(3)] i(2,3) Cons.prems(4) by auto
  obtain u where u: "write_log_one i s = Ok () u" "cache_ok p d {} P u" "calm p s u" "pins_kept P s u"
      "platter u = (platter s)(sector_of (slot st i) := blocks d s (bls ! i))" "written u = written s @ [(sector_of (slot st i), blocks d s (bls ! i))]"
      "blocks d u = (blocks d s)(slot st i := blocks d s (bls ! i))"
    using write_log_one_run [OF c(1,2,3,4) il c(9) [OF i(1)] small pl(1) ne pin] by blast
  have cu: "log_ctx p d st bls P u" by (rule log_ctx_step [OF Cons.prems(1) u(2-4)]) simp
  have eq: "blocks d u (bls ! j) = blocks d s (bls ! j)" if "j < length bls" for j
    using u(7) pl(2) c(10) [of "bls ! j"] that by (auto simp: fun_upd_apply)
  then have ws: "map (\<lambda>i. (sector_of (slot st i), blocks d u (bls ! i))) js = map (\<lambda>i. (sector_of (slot st i), blocks d s (bls ! i))) js"
    using Cons.prems(2) by simp
  have "\<forall>bn \<in> set bls. \<exists>j \<in> P. blockno (bufs u j) = bn" using Cons.prems(4) u(4) by (simp add: pins_kept_def)
  moreover have "\<forall>i \<in> set js. i < length bls" "distinct js" using Cons.prems(2,3) by simp_all
  ultimately obtain t where t: "for_each write_log_one js u = Ok () t" "log_ctx p d st bls P t" "calm p u t" "pins_kept P u t"
      "platter t = apply_writes (map (\<lambda>i. (sector_of (slot st i), blocks d s (bls ! i))) js) (platter u)"
      "written t = written u @ map (\<lambda>i. (sector_of (slot st i), blocks d s (bls ! i))) js"
      "\<forall>i \<in> set js. blocks d t (slot st i) = blocks d u (bls ! i)" "\<forall>k. k \<notin> slot st ` set js \<longrightarrow> blocks d t k = blocks d u k"
    using Cons.IH [OF cu] unfolding ws by blast
  have "slot st i \<notin> slot st ` set js"
  proof
    assume "slot st i \<in> slot st ` set js"
    then obtain x where x: "x \<in> set js" "slot st i = slot st x" by blast
    then have "x < LOGSIZE" using Cons.prems(2) c(8) by fastforce
    then show False using pl(3) [of x] x Cons.prems(3) by simp
  qed
  then have "blocks d t (slot st i) = blocks d s (bls ! i)" using t(8) u(7) by simp
  moreover have "blocks d t (slot st j) = blocks d s (bls ! j)" if "j \<in> set js" for j
    using t(7) eq [of j] that Cons.prems(2) by auto
  ultimately have slots: "\<forall>j \<in> set (i # js). blocks d t (slot st j) = blocks d s (bls ! j)" by simp
  have others: "\<forall>k. k \<notin> slot st ` set (i # js) \<longrightarrow> blocks d t k = blocks d s k"
    using t(8) u(7) by (simp add: fun_upd_apply)
  have kept: "pins_kept P s t" using u(4) t(4) by (simp add: pins_kept_def)
  have run: "for_each write_log_one (i # js) s = Ok () t" using u(1) t(1) by simp
  have disk: "platter t = apply_writes (map (\<lambda>i. (sector_of (slot st i), blocks d s (bls ! i))) (i # js)) (platter s)"
      "written t = written s @ map (\<lambda>i. (sector_of (slot st i), blocks d s (bls ! i))) (i # js)"
    using t(5,6) u(5,6) by simp_all
  show ?case by (intro exI [of _ t] conjI run t(2) calm_trans [OF u(3) t(3)] kept disk slots others)
qed

lemma install_list:
  fixes s :: "'z log_scheme"
  assumes "log_ctx p d st bls P s" and "\<forall>i \<in> set js. i < length bls" and "distinct (map ((!) bls) js) \<or> recovering"
    and "if recovering then P = {} else \<forall>i \<in> set js. \<exists>j \<in> P. blockno (bufs s j) = bls ! i"
  shows "\<exists>t. for_each (install_one recovering) js s = Ok () t \<and>
    log_ctx p d st bls (P - {j. blockno (bufs s j) \<in> (!) bls ` set js}) t \<and> calm p s t \<and>
    platter t = apply_writes (map (\<lambda>i. (sector_of (bls ! i), blocks d s (slot st i))) js) (platter s) \<and>
    written t = written s @ map (\<lambda>i. (sector_of (bls ! i), blocks d s (slot st i))) js \<and>
    (\<forall>k. k \<notin> (!) bls ` set js \<longrightarrow> blocks d t k = blocks d s k) \<and>
    (\<not> recovering \<longrightarrow> (\<forall>i \<in> set js. blocks d t (bls ! i) = blocks d s (slot st i)))"
  using assms
proof (induction js arbitrary: s P)
  case Nil
  have "log_ctx p d st bls (P - {}) s" using Nil.prems(1) by simp
  then show ?case using calm_refl [OF cache_okD(1) [OF log_ctxD(1) [OF Nil.prems(1)]]] by (intro exI [of _ s]) simp
next
  case (Cons i js)
  note c = log_ctxD [OF Cons.prems(1)]
  have i: "i < length bls" "i < LOGSIZE" "bls ! i \<in> set bls" using Cons.prems(2) c(8) by auto
  note pl = log_places [OF c(5) i(2)]
  have il: "i < length (log_blocks s)" and ne: "slot st i \<noteq> bls ! i" and small: "bls ! i < 0x80000000"
      and pin: "if recovering then P = {} else \<exists>j \<in> P. blockno (bufs s j) = bls ! i"
    using pl(2) c(7) c(10) [OF i(3)] i(2,3) Cons.prems(4) by (auto split: if_splits)
  have unp: "blockno (bufs s j) \<noteq> slot st i" if "j \<in> P" for j using c(11) [OF that] pl(2) by auto
  let ?P = "P - {j. blockno (bufs s j) = bls ! i}"
  obtain u where u: "install_one recovering i s = Ok () u" "cache_ok p d {} ?P u" "calm p s u" "pins_kept P s u"
      "platter u = (platter s)(sector_of (bls ! i) := blocks d s (slot st i))" "written u = written s @ [(sector_of (bls ! i), blocks d s (slot st i))]"
      "blocks d u = (blocks d s)(bls ! i := blocks d s (slot st i))"
    using install_one_run [OF c(1,2,3,4) il c(9) [OF i(1)] small pl(1) ne pin unp] by blast
  have cu: "log_ctx p d st bls ?P u" by (rule log_ctx_step [OF Cons.prems(1) u(2-4)]) blast
  have eq: "blocks d u (slot st j) = blocks d s (slot st j)" if "j < length bls" for j
    using u(7) log_places(2) [OF c(5), of j] c(8) c(10) [OF i(3)] that by (auto simp: fun_upd_apply)
  then have ws: "map (\<lambda>i. (sector_of (bls ! i), blocks d u (slot st i))) js = map (\<lambda>i. (sector_of (bls ! i), blocks d s (slot st i))) js"
    using Cons.prems(2) by simp
  have kp: "blockno (bufs u j) = blockno (bufs s j)" if "j \<in> P" for j using u(4) that by (simp add: pins_kept_def)
  have pins: "if recovering then ?P = {} else \<forall>i \<in> set js. \<exists>j \<in> ?P. blockno (bufs u j) = bls ! i"
  proof (cases recovering)
    case False
    have "\<exists>j \<in> ?P. blockno (bufs u j) = bls ! k" if k: "k \<in> set js" for k
    proof -
      have "\<forall>i \<in> set (i # js). \<exists>j \<in> P. blockno (bufs s j) = bls ! i" using Cons.prems(4) False by simp
      then obtain j where j: "j \<in> P" "blockno (bufs s j) = bls ! k" using k by (metis list.set_intros(2))
      moreover have "bls ! k \<noteq> bls ! i" using Cons.prems(3) False k by (metis distinct.simps(2) image_eqI list.set_map list.simps(9))
      ultimately show ?thesis using kp by auto
    qed
    then show ?thesis using False by simp
  qed (use Cons.prems(4) in simp)
  have js: "\<forall>i \<in> set js. i < length bls" "distinct (map ((!) bls) js) \<or> recovering" using Cons.prems(2,3) by auto
  obtain t where t: "for_each (install_one recovering) js u = Ok () t"
      "log_ctx p d st bls (?P - {j. blockno (bufs u j) \<in> (!) bls ` set js}) t" "calm p u t"
      "platter t = apply_writes (map (\<lambda>i. (sector_of (bls ! i), blocks d s (slot st i))) js) (platter u)"
      "written t = written u @ map (\<lambda>i. (sector_of (bls ! i), blocks d s (slot st i))) js"
      "\<forall>k. k \<notin> (!) bls ` set js \<longrightarrow> blocks d t k = blocks d u k"
      "\<not> recovering \<longrightarrow> (\<forall>i \<in> set js. blocks d t (bls ! i) = blocks d u (slot st i))"
    using Cons.IH [OF cu js pins] unfolding ws by blast
  have "?P - {j. blockno (bufs u j) \<in> (!) bls ` set js} = P - {j. blockno (bufs s j) \<in> (!) bls ` set (i # js)}"
    using kp by auto
  then have ctx: "log_ctx p d st bls (P - {j. blockno (bufs s j) \<in> (!) bls ` set (i # js)}) t" using t(2) by (simp only:)
  have others: "\<forall>k. k \<notin> (!) bls ` set (i # js) \<longrightarrow> blocks d t k = blocks d s k"
    using t(6) u(7) by (simp add: fun_upd_apply)
  have homes: "\<not> recovering \<longrightarrow> (\<forall>j \<in> set (i # js). blocks d t (bls ! j) = blocks d s (slot st j))"
  proof (intro impI ballI)
    fix j assume r: "\<not> recovering" "j \<in> set (i # js)"
    show "blocks d t (bls ! j) = blocks d s (slot st j)"
    proof (cases "j \<in> set js")
      case True
      then show ?thesis using t(7) r eq [of j] js(1) by simp
    next
      case False
      then have "bls ! j \<notin> (!) bls ` set js" using r Cons.prems(3) by auto
      then show ?thesis using t(6) u(7) False r by simp
    qed
  qed
  have run: "for_each (install_one recovering) (i # js) s = Ok () t" using u(1) t(1) by simp
  have disk: "platter t = apply_writes (map (\<lambda>i. (sector_of (bls ! i), blocks d s (slot st i))) (i # js)) (platter s)"
      "written t = written s @ map (\<lambda>i. (sector_of (bls ! i), blocks d s (slot st i))) (i # js)"
    using t(4,5) u(5,6) by simp_all
  show ?case by (intro exI [of _ t] conjI run ctx calm_trans [OF u(3) t(3)] disk others homes)
qed

section \<open>The header\<close>

definition head_bytes :: "u8 list \<Rightarrow> u32 list \<Rightarrow> u8 list" where
  "head_bytes old bls = fold (\<lambda>i hb. put32 hb (4 + 4 * i) (bls ! i)) [0..<length bls] (put32 old 0 (of_nat (length bls)))"

lemma put32s_other:
  assumes "\<And>i. i \<in> set js \<Longrightarrow> 4 + 4 * i + 4 \<le> length hb" and "k \<notin> set js"
  shows "get32 (fold (\<lambda>i hb. put32 hb (4 + 4 * i) (f i)) js hb) (4 + 4 * k) = get32 hb (4 + 4 * k) \<and>
    get32 (fold (\<lambda>i hb. put32 hb (4 + 4 * i) (f i)) js hb) 0 = get32 hb 0 \<and>
    length (fold (\<lambda>i hb. put32 hb (4 + 4 * i) (f i)) js hb) = length hb"
  using assms
proof (induction js arbitrary: hb)
  case (Cons i js)
  have "4 + 4 * i + 4 \<le> length hb" "i \<noteq> k" using Cons.prems by auto
  then have "get32 (put32 hb (4 + 4 * i) (f i)) (4 + 4 * k) = get32 hb (4 + 4 * k)" "get32 (put32 hb (4 + 4 * i) (f i)) 0 = get32 hb 0"
    by (auto intro!: get_put_other(1))
  then show ?case using Cons.IH [of "put32 hb (4 + 4 * i) (f i)"] Cons.prems by auto
qed simp

lemma head_bytes_read:
  assumes "length old = BSIZE" and "length bls \<le> LOGSIZE"
  shows "get32 (head_bytes old bls) 0 = of_nat (length bls)" and "i < length bls \<Longrightarrow> get32 (head_bytes old bls) (4 + 4 * i) = bls ! i"
    and "length (head_bytes old bls) = BSIZE"
proof -
  let ?h = "put32 old 0 (of_nat (length bls))"
  have l: "4 + 4 * i + 4 \<le> length ?h" if "i < length bls" for i using assms that by simp
  have "get32 ?h 0 = of_nat (length bls)" using assms(1) by (intro get32_put32) simp
  then show "get32 (head_bytes old bls) 0 = of_nat (length bls)"
    using put32s_other [of "[0..<length bls]" ?h "length bls" "(!) bls"] l by (simp add: head_bytes_def)
  show "length (head_bytes old bls) = BSIZE"
    using put32s_other [of "[0..<length bls]" ?h "length bls" "(!) bls"] l assms(1) by (simp add: head_bytes_def)
  show "get32 (head_bytes old bls) (4 + 4 * i) = bls ! i" if i: "i < length bls"
  proof -
    let ?f = "\<lambda>i hb. put32 hb (4 + 4 * i) (bls ! i)"
    let ?g = "fold ?f [0..<i] ?h"
    have "[0..<length bls] = [0..<i] @ i # [Suc i..<length bls]"
      using i upt_add_eq_append [of 0 i "length bls - i"] upt_conv_Cons [of i "length bls"] by simp
    then have "head_bytes old bls = fold ?f [Suc i..<length bls] (?f i ?g)" by (simp add: head_bytes_def)
    moreover have g: "length ?g = BSIZE" using put32s_other [of "[0..<i]" ?h i "(!) bls"] l i assms(1) by auto
    moreover have "get32 (fold ?f [Suc i..<length bls] (?f i ?g)) (4 + 4 * i) = get32 (?f i ?g) (4 + 4 * i)"
      using put32s_other [of "[Suc i..<length bls]" "?f i ?g" i "(!) bls"] g assms(2) by fastforce
    moreover have "get32 (?f i ?g) (4 + 4 * i) = bls ! i" using g i assms(2) by (intro get32_put32) simp
    ultimately show ?thesis by simp
  qed
qed

text \<open>Assignments to the fields of the log leave the cache alone.\<close>

lemma cache_ok_log [simp]:
  "cache_ok p d H P (s\<lparr>log_n := n\<rparr>) = cache_ok p d H P s" "cache_ok p d H P (s\<lparr>log_blocks := bl\<rparr>) = cache_ok p d H P s"
  "cache_ok p d H P (s\<lparr>log_start := st, log_size := sz, log_dev := dv\<rparr>) = cache_ok p d H P s"
  "blocks d (s\<lparr>log_n := n\<rparr>) = blocks d s" "blocks d (s\<lparr>log_blocks := bl\<rparr>) = blocks d s"
  "blocks d (s\<lparr>log_start := st, log_size := sz, log_dev := dv\<rparr>) = blocks d s"
  by (simp_all add: cache_ok_def io_ok_def vq_idle_def blocks_def content_def fun_eq_iff split: option.split)

text \<open>Reading, changing, writing and releasing one block that is not pinned.\<close>

lemma update_block:
  assumes c: "cache_ok p d {} P s" and free: "\<exists>i < NBUF. i \<notin> P" and k: "k < 0x80000000"
  obtains b s1 where "bread d k s = Ok b s1" "data (bufs s1 b) = blocks d s k" "calm p s s1"
    "\<And>bs. length bs = BSIZE \<Longrightarrow> \<exists>s2 s3 t. set_data b bs s1 = Ok () s2 \<and> bwrite b s2 = Ok () s3 \<and> brelse b s3 = Ok () t \<and>
       cache_ok p d {} P t \<and> calm p s t \<and> pins_kept P s t \<and> platter t = (platter s)(sector_of k := bs) \<and>
       written t = written s @ [(sector_of k, bs)] \<and> blocks d t = (blocks d s)(k := bs)"
proof -
  have f: "\<exists>i < NBUF. i \<notin> {} \<union> P \<or> Q i" for Q using free by auto
  obtain b s1 where 1: "bread d k s = Ok b s1" "b < NBUF" "cache_ok p d {b} P s1" "calm p s s1" "platter s1 = platter s" "written s1 = written s"
      "blockno (bufs s1 b) = k" "data (bufs s1 b) = blocks d s k" "blocks d s1 = blocks d s" "\<forall>i. i \<noteq> b \<longrightarrow> bufs s1 i = bufs s i"
      "b \<in> P \<longrightarrow> blockno (bufs s b) = k"
    by (rule bread_blocks [OF c f _ k]) (simp, blast)
  have "\<exists>s2 s3 t. set_data b bs s1 = Ok () s2 \<and> bwrite b s2 = Ok () s3 \<and> brelse b s3 = Ok () t \<and>
       cache_ok p d {} P t \<and> calm p s t \<and> pins_kept P s t \<and> platter t = (platter s)(sector_of k := bs) \<and>
       written t = written s @ [(sector_of k, bs)] \<and> blocks d t = (blocks d s)(k := bs)" if bs: "length bs = BSIZE" for bs
  proof -
    obtain s2 where 2: "set_data b bs s1 = Ok () s2" "cache_ok p d {b} P s2" "calm p s1 s2" "platter s2 = platter s1" "written s2 = written s1"
        "blocks d s2 = (blocks d s1)(blockno (bufs s1 b) := bs)" "bufs s2 = (bufs s1)(b := (bufs s1 b)\<lparr>data := bs\<rparr>)"
      by (rule set_data_blocks [OF 1(3) insertI1 bs])
    obtain s3 where 3: "bwrite b s2 = Ok () s3" "cache_ok p d {b} P s3" "calm p s2 s3" "bufs s3 = bufs s2" "blocks d s3 = blocks d s2"
        "platter s3 = (platter s2)(sector_of (blockno (bufs s2 b)) := data (bufs s2 b))"
        "written s3 = written s2 @ [(sector_of (blockno (bufs s2 b)), data (bufs s2 b))]"
      by (rule bwrite_blocks [OF 2(2) insertI1])
    have "data (bufs s3 b) = platter s3 (sector_of (blockno (bufs s3 b)))" by (simp add: 3(4,6) 2(7))
    then obtain t where 4: "brelse b s3 = Ok () t" "cache_ok p d ({b} - {b}) P t" "calm p s3 t" "platter t = platter s3" "written t = written s3"
        "blocks d t = blocks d s3" "bufs t = dropped b (bufs s3)"
      using brelse_blocks [OF 3(2) insertI1] by blast
    have "calm p s t" using 1(4) 2(3) 3(3) 4(3) calm_trans by blast
    moreover have "pins_kept P s t"
      using 1(7,10,11) by (auto simp: pins_kept_def 4(7) dropped_fields 3(4) 2(7) fun_upd_apply)
    ultimately show ?thesis using 1(5-7,9) 2(1,4-7) 3(1,5-7) 4(1,2,4-6) by (intro exI [of _ s2] exI [of _ s3] exI [of _ t]) simp
  qed
  then show ?thesis using that [OF 1(1,8,4)] by blast
qed

lemma write_head_run:
  fixes s :: "'z log_scheme"
  assumes ctx: "log_ctx p d st bls P s"
  defines "hb \<equiv> head_bytes (blocks d s (head st)) bls"
  shows "\<exists>t. write_head s = Ok () t \<and> log_ctx p d st bls P t \<and> calm p s t \<and> pins_kept P s t \<and>
    platter t = (platter s)(sector_of (head st) := hb) \<and> written t = written s @ [(sector_of (head st), hb)] \<and>
    blocks d t = (blocks d s)(head st := hb)"
proof -
  note c = log_ctxD [OF ctx]
  have h: "head st < 0x80000000" and hl: "in_log st (head st)" using log_places(5,6) [OF c(5), of 0] by simp_all
  obtain b s1 where 1: "bread d (head st) s = Ok b s1" "data (bufs s1 b) = blocks d s (head st)" "calm p s s1"
      "\<And>bs. length bs = BSIZE \<Longrightarrow> \<exists>s2 s3 t. set_data b bs s1 = Ok () s2 \<and> bwrite b s2 = Ok () s3 \<and> brelse b s3 = Ok () t \<and>
       cache_ok p d {} P t \<and> calm p s t \<and> pins_kept P s t \<and> platter t = (platter s)(sector_of (head st) := bs) \<and>
       written t = written s @ [(sector_of (head st), bs)] \<and> blocks d t = (blocks d s)(head st := bs)"
    by (rule update_block [OF c(1,2) h]) blast
  have "blocks d s (head st) = platter s (sector_of (head st))" using c(11) hl by (intro blocks_clean [OF c(1) _ h]) metis
  then have old: "length (blocks d s (head st)) = BSIZE" using cache_okD(9) [OF c(1)] by simp
  obtain s2 s3 t where 2: "set_data b hb s1 = Ok () s2" "bwrite b s2 = Ok () s3" "brelse b s3 = Ok () t" "cache_ok p d {} P t" "calm p s t"
      "pins_kept P s t" "platter t = (platter s)(sector_of (head st) := hb)" "written t = written s @ [(sector_of (head st), hb)]"
      "blocks d t = (blocks d s)(head st := hb)"
    using 1(4) [OF head_bytes_read(3) [OF old c(8)]] unfolding hb_def by blast
  have "fold (\<lambda>i hb. put32 hb (4 + 4 * i) (log_blocks s ! i)) [0..<length bls] (put32 (blocks d s (head st)) 0 (of_nat (length bls))) = hb"
    unfolding hb_def head_bytes_def by (rule fold_cong) (simp_all add: c(9))
  then have "write_head s = Ok () t"
    using 1(1,2) 2(1-3) c(3,4,6,7,8) calm_log [OF 1(3)] by (simp add: write_head_def straight get_buf_def head_def)
  moreover have "log_ctx p d st bls P t" by (rule log_ctx_step [OF ctx 2(4-6)]) simp
  ultimately show ?thesis using 2(5-9) by (intro exI [of _ t] conjI)
qed

section \<open>Commit\<close>

text \<open>The writes of a commit in their order, for the header block \<open>old\<close> and the new contents \<open>B\<close>.\<close>

definition slot_writes :: "nat \<Rightarrow> u32 list \<Rightarrow> (u32 \<Rightarrow> u8 list) \<Rightarrow> (u64 \<times> u8 list) list" where
  "slot_writes st bls B = map (\<lambda>i. (sector_of (slot st i), B (bls ! i))) [0..<length bls]"

definition home_writes :: "u32 list \<Rightarrow> (u32 \<Rightarrow> u8 list) \<Rightarrow> (u64 \<times> u8 list) list" where
  "home_writes bls B = map (\<lambda>bn. (sector_of bn, B bn)) bls"

lemma home_writes_nth: "map (\<lambda>i. (sector_of (bls ! i), B (bls ! i))) [0..<length bls] = home_writes bls B"
  by (rule nth_equalityI) (simp_all add: home_writes_def)

definition commit_writes :: "nat \<Rightarrow> u32 list \<Rightarrow> u8 list \<Rightarrow> (u32 \<Rightarrow> u8 list) \<Rightarrow> (u64 \<times> u8 list) list" where
  "commit_writes st bls old B = slot_writes st bls B @ [(sector_of (head st), head_bytes old bls)] @ home_writes bls B @
     [(sector_of (head st), head_bytes (head_bytes old bls) [])]"

text \<open>The buffers pinned for a transaction are those of its blocks.\<close>

definition pins_are :: "nat set \<Rightarrow> u32 list \<Rightarrow> 'z vdisk_scheme \<Rightarrow> bool" where
  "pins_are P bls s \<longleftrightarrow> (\<forall>i \<in> P. blockno (bufs s i) \<in> set bls) \<and> (\<forall>bn \<in> set bls. \<exists>i \<in> P. blockno (bufs s i) = bn)"

lemma log_ctx_clear:
  assumes "log_ctx p d st bls P s"
  shows "log_ctx p d st [] P (s\<lparr>log_n := 0\<rparr>)"
  using assms unfolding log_ctx_def by simp

lemma commit_run:
  fixes s :: "'z log_scheme"
  assumes ctx: "log_ctx p d st bls P s" and bls: "distinct bls" "bls \<noteq> []" and pins: "pins_are P bls s"
  shows "\<exists>t. commit s = Ok () t \<and> log_ctx p d st [] {} t \<and>
    platter t = apply_writes (commit_writes st bls (platter s (sector_of (head st))) (blocks d s)) (platter s) \<and>
    written t = written s @ commit_writes st bls (platter s (sector_of (head st))) (blocks d s) \<and>
    (\<forall>k. \<not> in_log st k \<longrightarrow> blocks d t k = blocks d s k)"
proof -
  note c = log_ctxD [OF ctx]
  let ?n = "length bls" and ?h = "head st"
  let ?old = "blocks d s ?h"
  have hp: "?h < 0x80000000" "in_log st ?h" using log_places(5,6) [OF c(5), of 0] by simp_all
  have old: "?old = platter s (sector_of ?h)" using c(11) hp by (intro blocks_clean [OF c(1)]) metis+
  have idx: "\<forall>i \<in> set [0..<?n]. i < ?n" by simp
  have pin: "\<forall>bn \<in> set bls. \<exists>j \<in> P. blockno (bufs s j) = bn" using pins by (simp add: pins_are_def)
  obtain s1 where 1: "for_each write_log_one [0..<?n] s = Ok () s1" "log_ctx p d st bls P s1" "calm p s s1" "pins_kept P s s1"
      "platter s1 = apply_writes (slot_writes st bls (blocks d s)) (platter s)" "written s1 = written s @ slot_writes st bls (blocks d s)"
      "\<forall>i \<in> set [0..<?n]. blocks d s1 (slot st i) = blocks d s (bls ! i)" "\<forall>k. k \<notin> slot st ` set [0..<?n] \<longrightarrow> blocks d s1 k = blocks d s k"
    using write_log_list [OF ctx idx _ pin] unfolding slot_writes_def by auto
  have slots: "in_log st (slot st i)" "slot st i \<noteq> ?h" if "i < ?n" for i
    using log_places(2,4) [OF c(5), of i] c(8) that by auto
  have "?h \<notin> slot st ` set [0..<?n]" using slots(2) by force
  then have h1: "blocks d s1 ?h = ?old" using 1(8) by blast
  have "k \<notin> slot st ` set [0..<?n]" if "\<not> in_log st k" for k using slots(1) that by force
  then have o1: "\<forall>k. \<not> in_log st k \<longrightarrow> blocks d s1 k = blocks d s k" using 1(8) by blast
  let ?hb = "head_bytes ?old bls"
  obtain s2 where 2: "write_head s1 = Ok () s2" "log_ctx p d st bls P s2" "calm p s1 s2" "pins_kept P s1 s2"
      "platter s2 = (platter s1)(sector_of ?h := ?hb)" "written s2 = written s1 @ [(sector_of ?h, ?hb)]" "blocks d s2 = (blocks d s1)(?h := ?hb)"
    using write_head_run [OF 1(2)] unfolding h1 by blast
  have sl2: "blocks d s2 (slot st i) = blocks d s (bls ! i)" if "i < ?n" for i using 2(7) 1(7) slots [OF that] that by auto
  have kept: "blockno (bufs s2 j) = blockno (bufs s j)" if "j \<in> P" for j using 1(4) 2(4) that by (simp add: pins_kept_def)
  have "map ((!) bls) [0..<?n] = bls" by (rule map_nth)
  then have dist: "distinct (map ((!) bls) [0..<?n]) \<or> False" using bls(1) by simp
  have pin2: "if False then P = {} else \<forall>i \<in> set [0..<?n]. \<exists>j \<in> P. blockno (bufs s2 j) = bls ! i" using pin kept by simp
  have ws: "map (\<lambda>i. (sector_of (bls ! i), blocks d s2 (slot st i))) [0..<?n] = home_writes bls (blocks d s)"
    unfolding home_writes_nth [symmetric] using sl2 by simp
  have img: "(!) bls ` set [0..<?n] = set bls" using \<open>map ((!) bls) [0..<?n] = bls\<close> by (metis list.set_map)
  have none: "P - {j. blockno (bufs s2 j) \<in> set bls} = {}" using pins kept by (auto simp: pins_are_def)
  obtain s3 where 3: "for_each (install_one False) [0..<?n] s2 = Ok () s3" "log_ctx p d st bls {} s3" "calm p s2 s3"
      "platter s3 = apply_writes (home_writes bls (blocks d s)) (platter s2)" "written s3 = written s2 @ home_writes bls (blocks d s)"
      "\<forall>k. k \<notin> set bls \<longrightarrow> blocks d s3 k = blocks d s2 k" "\<forall>i \<in> set [0..<?n]. blocks d s3 (bls ! i) = blocks d s2 (slot st i)"
    using install_list [OF 2(2) idx dist pin2] unfolding ws img none by auto
  have hb: "?h \<notin> set bls" using c(10) [of ?h] hp(2) by blast
  have h3: "blocks d (s3\<lparr>log_n := 0\<rparr>) ?h = ?hb" using 3(6) 2(7) hb by simp
  obtain t where 4: "write_head (s3\<lparr>log_n := 0\<rparr>) = Ok () t" "log_ctx p d st [] {} t"
      "platter t = (platter s3)(sector_of ?h := head_bytes ?hb [])" "written t = written s3 @ [(sector_of ?h, head_bytes ?hb [])]"
      "blocks d t = (blocks d s3)(?h := head_bytes ?hb [])"
    using write_head_run [OF log_ctx_clear [OF 3(2)]] unfolding h3 by auto
  have "blocks d t k = blocks d s k" if k: "\<not> in_log st k" for k
  proof (cases "k \<in> set bls")
    case True
    then obtain i where "i < ?n" "k = bls ! i" by (metis in_set_conv_nth)
    then show ?thesis using 4(5) 3(7) sl2 k hp(2) by (auto simp: fun_upd_apply)
  next
    case False
    then show ?thesis using 4(5) 3(6) 2(7) o1 k hp(2) by (auto simp: fun_upd_apply)
  qed
  moreover have "commit s = Ok () t"
    using 1(1) 2(1) 3(1) 4(1) c(6) bls(2) log_ctxD(6) [OF 2(2)]
    by (simp add: commit_def straight write_log_def install_trans_def)
  ultimately show ?thesis using 4(2-4) 3(4,5) 2(5,6) 1(5,6)
    by (intro exI [of _ t]) (simp add: commit_writes_def old)
qed

section \<open>Recovery\<close>

text \<open>What recovery makes of a disk: the blocks the header names get the contents of their slots.\<close>

definition replay :: "nat \<Rightarrow> (u64 \<Rightarrow> u8 list) \<Rightarrow> (u64 \<Rightarrow> u8 list)" where
  "replay st pl = (let h = pl (sector_of (head st)) in
     apply_writes (map (\<lambda>i. (sector_of (get32 h (4 + 4 * i)), pl (sector_of (slot st i)))) [0..<nat (sint (get32 h 0))]) pl)"

text \<open>A header a commit can have left behind.\<close>

definition head_ok :: "nat \<Rightarrow> (u64 \<Rightarrow> u8 list) \<Rightarrow> bool" where
  "head_ok st pl \<longleftrightarrow> (let h = pl (sector_of (head st)) in
     0 \<le> sint (get32 h 0) \<and> sint (get32 h 0) \<le> int LOGSIZE \<and>
     (\<forall>i < nat (sint (get32 h 0)). get32 h (4 + 4 * i) < 0x80000000 \<and> \<not> in_log st (get32 h (4 + 4 * i))))"

lemma read_head_run:
  fixes s :: "'z log_scheme"
  assumes c: "cache_ok p d {} {} s" and lg: "log_dev s = d" "log_start s = int st" "st + LOGSIZE < 2 ^ 31" "length (log_blocks s) = LOGSIZE"
    and ok: "head_ok st (platter s)"
  defines "h \<equiv> platter s (sector_of (head st))"
  defines "bls \<equiv> map (\<lambda>i. get32 h (4 + 4 * i)) [0..<nat (sint (get32 h 0))]"
  shows "\<exists>t. read_head s = Ok () t \<and> log_ctx p d st bls {} t \<and> platter t = platter s \<and> blocks d t = blocks d s"
proof -
  let ?n = "sint (get32 h 0)"
  have n: "0 \<le> ?n" "?n \<le> int LOGSIZE" and home: "\<forall>bn \<in> set bls. bn < 0x80000000 \<and> \<not> in_log st bn"
    using ok by (auto simp: head_ok_def Let_def h_def bls_def)
  have hp: "head st < 0x80000000" using log_places(5) [OF lg(3), of 0] by simp
  have f: "\<exists>i < NBUF. i \<notin> {} \<union> {} \<or> Q i" for Q :: "nat \<Rightarrow> bool" by (intro exI [of _ 0]) simp
  obtain b s1 where 1: "bread d (head st) s = Ok b s1" "cache_ok p d {b} {} s1" "calm p s s1" "platter s1 = platter s"
      "blockno (bufs s1 b) = head st" "data (bufs s1 b) = blocks d s (head st)" "blocks d s1 = blocks d s"
    by (rule bread_blocks [OF c f _ hp]) (simp, blast)
  have hd: "data (bufs s1 b) = h" using 1(6) blocks_clean [OF c _ hp] by (simp add: h_def)
  let ?s2 = "s1\<lparr>log_n := ?n, log_blocks := bls @ drop (nat ?n) (log_blocks s1)\<rparr>"
  have c2: "cache_ok p d {b} {} ?s2" using 1(2) by simp
  have "data (bufs ?s2 b) = platter ?s2 (sector_of (blockno (bufs ?s2 b)))" using hd 1(4,5) by (simp add: h_def)
  then obtain t where 2: "brelse b ?s2 = Ok () t" "cache_ok p d ({b} - {b}) {} t" "calm p ?s2 t" "platter t = platter ?s2" "blocks d t = blocks d ?s2"
    using brelse_blocks [OF c2 insertI1] by blast
  have "read_head s = Ok () t"
    using 1(1) hd 2(1) lg n(2) calm_log [OF 1(3)]
    by (simp add: read_head_def straight get_buf_def head_def Let_def bls_def)
  moreover have "blocks d ?s2 = blocks d s" using 1(7) by simp
  moreover have "log_ctx p d st bls {} t"
    using 2(2) calm_log [OF 2(3)] calm_log [OF 1(3)] lg n home unfolding log_ctx_def
    by (auto simp: bls_def intro: exI [of _ 0])
  ultimately show ?thesis using 2(4,5) 1(4) by (intro exI [of _ t]) simp
qed

lemma recover_run:
  fixes s :: "'z log_scheme"
  assumes c: "cache_ok p d {} {} s" and lg: "log_dev s = d" "log_start s = int st" "st + LOGSIZE < 2 ^ 31" "length (log_blocks s) = LOGSIZE"
    and ok: "head_ok st (platter s)"
  shows "\<exists>t. recover_from_log s = Ok () t \<and> log_ctx p d st [] {} t \<and>
    (\<forall>k < 0x80000000. \<not> in_log st k \<longrightarrow> blocks d t k = replay st (platter s) (sector_of k))"
proof -
  let ?h = "platter s (sector_of (head st))"
  define bls where "bls = map (\<lambda>i. get32 ?h (4 + 4 * i)) [0..<nat (sint (get32 ?h 0))]"
  obtain s1 where 1: "read_head s = Ok () s1" "log_ctx p d st bls {} s1" "platter s1 = platter s" "blocks d s1 = blocks d s"
    using read_head_run [OF c lg ok] unfolding bls_def by blast
  note c1 = log_ctxD [OF 1(2)]
  have idx: "\<forall>i \<in> set [0..<length bls]. i < length bls" by simp
  obtain s2 where 2: "for_each (install_one True) [0..<length bls] s1 = Ok () s2" "log_ctx p d st bls {} s2"
      "platter s2 = apply_writes (map (\<lambda>i. (sector_of (bls ! i), blocks d s1 (slot st i))) [0..<length bls]) (platter s1)"
    using install_list [OF 1(2) idx, of True] by auto
  have sl: "blocks d s1 (slot st i) = platter s (sector_of (slot st i))" if "i < length bls" for i
  proof -
    have "i < LOGSIZE" using c1(8) that by (rule less_le_trans [rotated])
    then show ?thesis using blocks_clean [OF c1(1) _ log_places(1) [OF lg(3)]] 1(3) by simp
  qed
  have ws: "map (\<lambda>i. (sector_of (bls ! i), blocks d s1 (slot st i))) [0..<length bls] =
      map (\<lambda>i. (sector_of (get32 ?h (4 + 4 * i)), platter s (sector_of (slot st i)))) [0..<nat (sint (get32 ?h 0))]"
    using sl by (auto simp: bls_def)
  have img: "platter s2 = replay st (platter s)" unfolding 2(3) ws 1(3) by (simp add: replay_def Let_def)
  obtain t where 3: "write_head (s2\<lparr>log_n := 0\<rparr>) = Ok () t" "log_ctx p d st [] {} t" "platter t = (platter s2)(sector_of (head st) := head_bytes (blocks d (s2\<lparr>log_n := 0\<rparr>) (head st)) [])"
    using write_head_run [OF log_ctx_clear [OF 2(2)]] by auto
  have "recover_from_log s = Ok () t"
    using 1(1) 2(1) 3(1) c1(6) by (simp add: recover_from_log_def install_trans_def straight)
  moreover have "blocks d t k = replay st (platter s) (sector_of k)" if k: "k < 0x80000000" "\<not> in_log st k" for k
  proof -
    have "k \<noteq> head st" using log_places(6) [OF lg(3), of 0] k(2) by auto
    then have "sector_of k \<noteq> sector_of (head st)" using sector_of_inj [OF k(1) log_places(5) [OF lg(3), of 0]] by auto
    then show ?thesis using blocks_clean [OF log_ctxD(1) [OF 3(2)] _ k(1)] by (simp add: 3(3) img)
  qed
  ultimately show ?thesis using 3(2) by blast
qed

section \<open>Crashes\<close>

lemma apply_writes_other: "sec \<notin> fst ` set ws \<Longrightarrow> apply_writes ws pl sec = pl sec"
  by (induction ws arbitrary: pl) (auto simp: fun_upd_apply)

lemma apply_writes_value:
  assumes "\<And>x bs. (x, bs) \<in> set ws \<Longrightarrow> x = sec \<Longrightarrow> bs = v"
  shows "apply_writes ws pl sec = (if sec \<in> fst ` set ws then v else pl sec)"
  using assms
proof (induction ws arbitrary: pl)
  case (Cons w ws)
  obtain x bs where w: "w = (x, bs)" by fastforce
  have "apply_writes ws q sec = (if sec \<in> fst ` set ws then v else q sec)" for q
    by (rule Cons.IH) (use Cons.prems in auto)
  moreover have "x = sec \<Longrightarrow> bs = v" using Cons.prems w by simp
  ultimately show ?case using w by (auto simp: fun_upd_apply)
qed simp

lemma log_sectors:
  assumes st: "st + LOGSIZE < 2 ^ 31" and k: "k < 0x80000000" "\<not> in_log st k"
  shows "sector_of k \<noteq> sector_of (head st)" and "i < LOGSIZE \<Longrightarrow> sector_of k \<noteq> sector_of (slot st i)"
    and "i < LOGSIZE \<Longrightarrow> sector_of (slot st i) \<noteq> sector_of (head st)"
    and "i < LOGSIZE \<Longrightarrow> j < LOGSIZE \<Longrightarrow> sector_of (slot st i) = sector_of (slot st j) \<Longrightarrow> i = j"
proof -
  have h: "head st < 0x80000000" "in_log st (head st)" using log_places(5,6) [OF st, of 0] by simp_all
  show "sector_of k \<noteq> sector_of (head st)" using sector_of_inj [OF k(1) h(1)] h(2) k(2) by auto
  show "sector_of k \<noteq> sector_of (slot st i)" if "i < LOGSIZE"
    using sector_of_inj [OF k(1) log_places(1) [OF st that]] log_places(2) [OF st that] k(2) by auto
  show "sector_of (slot st i) \<noteq> sector_of (head st)" if "i < LOGSIZE"
    using sector_of_inj [OF log_places(1) [OF st that] h(1)] log_places(4) [OF st that] by auto
  show "i = j" if "i < LOGSIZE" "j < LOGSIZE" "sector_of (slot st i) = sector_of (slot st j)"
    using sector_of_inj [OF log_places(1) [OF st that(1)] log_places(1) [OF st that(2)] that(3)] log_places(3) [OF st that(1,2)] by simp
qed

text \<open>A disk with an empty header stays as it is; one whose header names \<open>bls\<close> gets their new contents.\<close>

lemma replay_empty: "get32 (pl (sector_of (head st))) 0 = 0 \<Longrightarrow> replay st pl = pl \<and> head_ok st pl"
  by (simp add: replay_def head_ok_def Let_def)

lemma home_writes_value:
  assumes "\<forall>bn \<in> set bls. bn < 0x80000000 \<and> \<not> in_log st bn" and "k < 0x80000000"
  shows "apply_writes (home_writes bls B) pl (sector_of k) = (if k \<in> set bls then B k else pl (sector_of k))"
proof -
  have inj: "bn = k" if "bn \<in> set bls" "sector_of bn = sector_of k" for bn
    using sector_of_inj [OF _ assms(2) that(2)] assms(1) that(1) by blast
  then have "sector_of k \<in> fst ` set (home_writes bls B) \<longleftrightarrow> k \<in> set bls" by (force simp: home_writes_def)
  moreover have "apply_writes (home_writes bls B) pl (sector_of k) =
      (if sector_of k \<in> fst ` set (home_writes bls B) then B k else pl (sector_of k))"
    by (rule apply_writes_value) (use inj in \<open>auto simp: home_writes_def\<close>)
  ultimately show ?thesis by simp
qed

lemma replay_full:
  assumes n: "length bls \<le> LOGSIZE" and home: "\<forall>bn \<in> set bls. bn < 0x80000000 \<and> \<not> in_log st bn"
    and old: "length old = BSIZE" and h: "pl (sector_of (head st)) = head_bytes old bls"
    and sl: "\<And>i. i < length bls \<Longrightarrow> pl (sector_of (slot st i)) = B (bls ! i)"
  shows "head_ok st pl" and "k < 0x80000000 \<Longrightarrow> replay st pl (sector_of k) = (if k \<in> set bls then B k else pl (sector_of k))"
proof -
  note r = head_bytes_read [OF old n]
  have cnt: "sint (get32 (pl (sector_of (head st))) 0) = int (length bls)"
    using n unfolding h r(1)
    by (simp add: signed_of_nat signed_take_bit_eq_if_positive bit_iff_odd take_bit_nat_eq_self take_bit_int_eq_self)
  show "head_ok st pl" unfolding head_ok_def Let_def cnt using n home by (auto simp: h r(2))
  have "map (\<lambda>i. (sector_of (get32 (pl (sector_of (head st))) (4 + 4 * i)), pl (sector_of (slot st i)))) [0..<length bls] =
      map (\<lambda>i. (sector_of (bls ! i), B (bls ! i))) [0..<length bls]"
    by (rule map_cong) (simp_all add: h r(2) sl)
  then have "replay st pl = apply_writes (home_writes bls B) pl" unfolding replay_def Let_def cnt nat_int home_writes_nth by (simp only:)
  then show "replay st pl (sector_of k) = (if k \<in> set bls then B k else pl (sector_of k))" if "k < 0x80000000"
    using home_writes_value [OF home that] by simp
qed

text \<open>The writes of a commit touch the sectors of the log and of its blocks, each where it belongs.\<close>

lemma slot_writes_value:
  assumes st: "st + LOGSIZE < 2 ^ 31" and n: "length bls \<le> LOGSIZE" and i: "i < length bls"
  shows "apply_writes (slot_writes st bls B) pl (sector_of (slot st i)) = B (bls ! i)"
proof -
  have l: "j < LOGSIZE" if "j < length bls" for j using that n by (rule less_le_trans)
  have "apply_writes (slot_writes st bls B) pl (sector_of (slot st i)) =
      (if sector_of (slot st i) \<in> fst ` set (slot_writes st bls B) then B (bls ! i) else pl (sector_of (slot st i)))"
  proof (rule apply_writes_value)
    fix x bs assume "(x, bs) \<in> set (slot_writes st bls B)" "x = sector_of (slot st i)"
    then obtain j where j: "j < length bls" "sector_of (slot st j) = sector_of (slot st i)" "bs = B (bls ! j)" by (auto simp: slot_writes_def)
    have "slot st j = slot st i" using sector_of_inj [OF log_places(1) [OF st l [OF j(1)]] log_places(1) [OF st l [OF i]] j(2)] .
    then show "bs = B (bls ! i)" using log_places(3) [OF st l [OF j(1)] l [OF i]] j(3) by simp
  qed
  moreover have "sector_of (slot st i) \<in> fst ` set (slot_writes st bls B)" using i by (force simp: slot_writes_def)
  ultimately show ?thesis by simp
qed

lemma commit_sectors:
  assumes st: "st + LOGSIZE < 2 ^ 31" and n: "length bls \<le> LOGSIZE" and home: "\<forall>bn \<in> set bls. bn < 0x80000000 \<and> \<not> in_log st bn"
  shows "sector_of (head st) \<notin> fst ` set (slot_writes st bls B)" and "sector_of (head st) \<notin> fst ` set (home_writes bls B)"
    and "i < length bls \<Longrightarrow> sector_of (slot st i) \<notin> fst ` set (home_writes bls B) \<and> sector_of (slot st i) \<noteq> sector_of (head st)"
    and "k < 0x80000000 \<Longrightarrow> \<not> in_log st k \<Longrightarrow> sector_of k \<notin> fst ` set (slot_writes st bls B) \<and> sector_of k \<noteq> sector_of (head st)"
proof -
  have l: "i < LOGSIZE" if "i < length bls" for i using that n by (rule less_le_trans)
  have sh: "sector_of (slot st i) \<noteq> sector_of (head st)" if "i < LOGSIZE" for i
    using sector_of_inj [OF log_places(1) [OF st that] log_places(5) [OF st that]] log_places(4) [OF st that] by blast
  show "sector_of (head st) \<notin> fst ` set (slot_writes st bls B)"
    using sh [OF l] by (auto simp: slot_writes_def dest: sym)
  show "sector_of (head st) \<notin> fst ` set (home_writes bls B)"
    using log_sectors(1) [OF st] home by (auto simp: home_writes_def dest: sym)
  show "sector_of (slot st i) \<notin> fst ` set (home_writes bls B) \<and> sector_of (slot st i) \<noteq> sector_of (head st)" if "i < length bls"
    using log_sectors(2) [OF st _ _ l [OF that]] home sh [OF l [OF that]] by (auto simp: home_writes_def dest: sym)
  show "sector_of k \<notin> fst ` set (slot_writes st bls B) \<and> sector_of k \<noteq> sector_of (head st)" if "k < 0x80000000" "\<not> in_log st k"
    using log_sectors(1) [OF st that] log_sectors(2) [OF st that l] by (fastforce simp: slot_writes_def)
qed

text \<open>
  The disk after a crash: during the writes to the log (its header is still empty), from the header on
  (recovery completes the commit), and after the last write.
\<close>

lemma crash_before:
  fixes B :: "u32 \<Rightarrow> u8 list" and m :: nat
  assumes st: "st + LOGSIZE < 2 ^ 31" "length bls \<le> LOGSIZE" "\<forall>bn \<in> set bls. bn < 0x80000000 \<and> \<not> in_log st bn"
    and old: "get32 (pl (sector_of (head st))) 0 = 0"
  defines "q \<equiv> apply_writes (take m (slot_writes st bls B)) pl"
  shows "head_ok st q" and "k < 0x80000000 \<Longrightarrow> \<not> in_log st k \<Longrightarrow> replay st q (sector_of k) = pl (sector_of k)"
proof -
  have same: "q sec = pl sec" if "sec \<notin> fst ` set (slot_writes st bls B)" for sec
    unfolding q_def by (rule apply_writes_other) (meson that image_mono set_take_subset subsetD)
  have "get32 (q (sector_of (head st))) 0 = 0" using same [OF commit_sectors(1) [OF st]] old by simp
  then show "head_ok st q" "k < 0x80000000 \<Longrightarrow> \<not> in_log st k \<Longrightarrow> replay st q (sector_of k) = pl (sector_of k)"
    using replay_empty [of q st] same commit_sectors(4) [OF st] by auto
qed

lemma crash_during:
  fixes B :: "u32 \<Rightarrow> u8 list" and m :: nat
  assumes st: "st + LOGSIZE < 2 ^ 31" "length bls \<le> LOGSIZE" "\<forall>bn \<in> set bls. bn < 0x80000000 \<and> \<not> in_log st bn"
    and old: "length (pl (sector_of (head st))) = BSIZE"
  defines "q \<equiv> apply_writes (take m (home_writes bls B)) ((apply_writes (slot_writes st bls B) pl)(sector_of (head st) := head_bytes (pl (sector_of (head st))) bls))"
  shows "head_ok st q" and "k < 0x80000000 \<Longrightarrow> \<not> in_log st k \<Longrightarrow> replay st q (sector_of k) = (if k \<in> set bls then B k else pl (sector_of k))"
proof -
  let ?p = "(apply_writes (slot_writes st bls B) pl)(sector_of (head st) := head_bytes (pl (sector_of (head st))) bls)"
  note sec = commit_sectors [OF st]
  have same: "q x = ?p x" if "x \<notin> fst ` set (home_writes bls B)" for x
    unfolding q_def by (rule apply_writes_other) (meson that image_mono set_take_subset subsetD)
  have h: "q (sector_of (head st)) = head_bytes (pl (sector_of (head st))) bls" using same [OF sec(2)] by simp
  have sl: "q (sector_of (slot st i)) = B (bls ! i)" if "i < length bls" for i
    using same [OF conjunct1 [OF sec(3) [OF that]]] sec(3) [OF that] slot_writes_value [OF st(1,2) that] by simp
  show "head_ok st q" by (rule replay_full(1) [OF st(2,3) old h sl])
  show "replay st q (sector_of k) = (if k \<in> set bls then B k else pl (sector_of k))" if k: "k < 0x80000000" "\<not> in_log st k"
  proof (cases "k \<in> set bls")
    case False
    have "bn \<noteq> k" if "bn \<in> set bls" for bn using False that by blast
    then have "sector_of k \<notin> fst ` set (home_writes bls B)"
      using sector_of_inj [OF _ k(1)] st(3) by (fastforce simp: home_writes_def)
    then have "q (sector_of k) = pl (sector_of k)"
      using same sec(4) [OF k] apply_writes_other [of "sector_of k" "slot_writes st bls B" pl] by simp
    then show ?thesis using replay_full(2) [OF st(2,3) old h sl k(1)] False by simp
  qed (use replay_full(2) [OF st(2,3) old h sl k(1)] in simp)
qed

lemma crash_after:
  fixes B :: "u32 \<Rightarrow> u8 list"
  assumes st: "st + LOGSIZE < 2 ^ 31" "length bls \<le> LOGSIZE" "\<forall>bn \<in> set bls. bn < 0x80000000 \<and> \<not> in_log st bn"
    and old: "length (pl (sector_of (head st))) = BSIZE"
  defines "q \<equiv> apply_writes (commit_writes st bls (pl (sector_of (head st))) B) pl"
  shows "head_ok st q" and "k < 0x80000000 \<Longrightarrow> \<not> in_log st k \<Longrightarrow> replay st q (sector_of k) = (if k \<in> set bls then B k else pl (sector_of k))"
proof -
  let ?hb = "head_bytes (pl (sector_of (head st))) bls"
  let ?p = "(apply_writes (slot_writes st bls B) pl)(sector_of (head st) := ?hb)"
  have q: "q = (apply_writes (home_writes bls B) ?p)(sector_of (head st) := head_bytes ?hb [])"
    by (simp add: q_def commit_writes_def)
  have "length ?hb = BSIZE" by (rule head_bytes_read(3) [OF old st(2)])
  then have "get32 (q (sector_of (head st))) 0 = 0" unfolding q using head_bytes_read(1) [of ?hb "[]"] by simp
  then have e: "replay st q = q" "head_ok st q" using replay_empty [of q st] by auto
  show "head_ok st q" by (rule e(2))
  show "replay st q (sector_of k) = (if k \<in> set bls then B k else pl (sector_of k))" if k: "k < 0x80000000" "\<not> in_log st k"
    using commit_sectors(4) [OF st k] home_writes_value [OF st(3) k(1)] apply_writes_other [of "sector_of k" "slot_writes st bls B" pl]
    unfolding e(1) by (simp add: q)
qed

lemma crash_image:
  fixes B :: "u32 \<Rightarrow> u8 list" and m :: nat
  assumes st: "st + LOGSIZE < 2 ^ 31" "length bls \<le> LOGSIZE" "\<forall>bn \<in> set bls. bn < 0x80000000 \<and> \<not> in_log st bn"
    and old: "length (pl (sector_of (head st))) = BSIZE" "get32 (pl (sector_of (head st))) 0 = 0"
  defines "q \<equiv> apply_writes (take m (commit_writes st bls (pl (sector_of (head st))) B)) pl"
  shows "head_ok st q \<and>
    ((\<forall>k < 0x80000000. \<not> in_log st k \<longrightarrow> replay st q (sector_of k) = pl (sector_of k)) \<or>
     (\<forall>k < 0x80000000. \<not> in_log st k \<longrightarrow> replay st q (sector_of k) = (if k \<in> set bls then B k else pl (sector_of k))))"
proof -
  let ?n = "length bls" and ?W = "commit_writes st bls (pl (sector_of (head st))) B"
  have len: "length (slot_writes st bls B) = ?n" "length (home_writes bls B) = ?n" by (simp_all add: slot_writes_def home_writes_def)
  consider "m \<le> ?n" | "?n < m" "m \<le> 2 * ?n + 1" | "2 * ?n + 1 < m" by linarith
  then show ?thesis
  proof cases
    case 1
    then have "take m ?W = take m (slot_writes st bls B)" by (simp add: commit_writes_def len)
    then show ?thesis unfolding q_def using crash_before [where m = m and B = B and pl = pl, OF st old(2)] by simp
  next
    case 2
    then have "take m ?W = slot_writes st bls B @ [(sector_of (head st), head_bytes (pl (sector_of (head st))) bls)] @ take (m - ?n - 1) (home_writes bls B)"
      by (simp add: commit_writes_def len take_Cons')
    then show ?thesis unfolding q_def using crash_during [where m = "m - ?n - 1" and B = B and pl = pl, OF st old(1)] by simp
  next
    case 3
    then have "take m ?W = ?W" by (simp add: commit_writes_def len)
    then show ?thesis unfolding q_def using crash_after [where B = B and pl = pl, OF st old(1)] by simp
  qed
qed

text \<open>
  C6. Crash safety of the log: \<open>commit\<close> returns after writing, in this order, the new blocks to the log, the
  header, the blocks in place and an empty header; and when the machine stops after any number \<open>m\<close> of
  these writes and boots again, \<open>initlog\<close> returns with all blocks outside the log as they were before the
  transaction, or all of them as the transaction leaves them.
\<close>

theorem log_crash_atomic:
  fixes s u :: "'z log_scheme"
  assumes ctx: "log_ctx p d st bls P s" and bls: "distinct bls" "bls \<noteq> []" and pins: "pins_are P bls s"
    and empty: "get32 (platter s (sector_of (head st))) 0 = 0"
    and boot: "cache_ok p' d {} {} u" "length (log_blocks u) = LOGSIZE" "sint (logstart super) = int st"
    and crash: "platter u = apply_writes (take m (commit_writes st bls (platter s (sector_of (head st))) (blocks d s))) (platter s)"
  shows "\<exists>t v. commit s = Ok () t \<and> written t = written s @ commit_writes st bls (platter s (sector_of (head st))) (blocks d s) \<and>
    initlog d super u = Ok () v \<and>
    ((\<forall>k < 0x80000000. \<not> in_log st k \<longrightarrow> blocks d v k = platter s (sector_of k)) \<or>
     (\<forall>k < 0x80000000. \<not> in_log st k \<longrightarrow> blocks d v k = blocks d s k))"
proof -
  note c = log_ctxD [OF ctx]
  obtain t where t: "commit s = Ok () t" "written t = written s @ commit_writes st bls (platter s (sector_of (head st))) (blocks d s)"
    using commit_run [OF ctx bls pins] by blast
  have home: "\<forall>bn \<in> set bls. bn < 0x80000000 \<and> \<not> in_log st bn" using c(10) by blast
  let ?q = "platter u"
  have img: "head_ok st ?q \<and>
    ((\<forall>k < 0x80000000. \<not> in_log st k \<longrightarrow> replay st ?q (sector_of k) = platter s (sector_of k)) \<or>
     (\<forall>k < 0x80000000. \<not> in_log st k \<longrightarrow> replay st ?q (sector_of k) = (if k \<in> set bls then blocks d s k else platter s (sector_of k))))"
    unfolding crash by (rule crash_image [where pl = "platter s", OF c(5,8) home cache_okD(9) [OF c(1)] empty])
  have clean: "blocks d s k = platter s (sector_of k)" if "k < 0x80000000" "k \<notin> set bls" for k
    using pins that by (intro blocks_clean [OF c(1)]) (auto simp: pins_are_def)
  let ?u = "u\<lparr>log_start := sint (logstart super), log_size := sint (nlog super), log_dev := d\<rparr>"
  obtain v where v: "recover_from_log ?u = Ok () v" "\<forall>k < 0x80000000. \<not> in_log st k \<longrightarrow> blocks d v k = replay st ?q (sector_of k)"
    using recover_run [of p' d ?u st] boot c(5) conjunct1 [OF img] by auto
  have "initlog d super u = Ok () v" using v(1) by (simp add: initlog_def straight)
  moreover have "(\<forall>k < 0x80000000. \<not> in_log st k \<longrightarrow> blocks d v k = platter s (sector_of k)) \<or>
     (\<forall>k < 0x80000000. \<not> in_log st k \<longrightarrow> blocks d v k = blocks d s k)"
    using conjunct2 [OF img] v(2) clean by (metis (no_types, lifting))
  ultimately show ?thesis using t by blast
qed

section \<open>Recording a block\<close>

text \<open>The blocks of a transaction after \<open>log_write\<close> of block \<open>bn\<close>.\<close>

definition absorbed :: "u32 list \<Rightarrow> u32 \<Rightarrow> u32 list" where
  "absorbed bls bn = (if bn \<in> set bls then bls else bls @ [bn])"

lemma takeWhile_index:
  "bn \<in> set bls \<Longrightarrow> length (takeWhile (\<lambda>x. x \<noteq> bn) bls) < length bls \<and> bls ! length (takeWhile (\<lambda>x. x \<noteq> bn) bls) = bn"
  by (induction bls) auto

lemma log_write_run:
  fixes s :: "'z log_scheme"
  assumes c: "cache_ok p d H P s" and b: "b \<in> H" and pins: "pins_are P bls s"
    and lg: "log_n s = int (length bls)" "length (log_blocks s) = LOGSIZE" "take (length bls) (log_blocks s) = bls"
    and room: "length bls < LOGSIZE" "int (length bls) < log_size s - 1" and out: "1 \<le> outstanding s"
  defines "bn \<equiv> blockno (bufs s b)"
  shows "\<exists>t P'. log_write b s = Ok () t \<and> cache_ok p d H P' t \<and> pins_are P' (absorbed bls bn) t \<and> P' = (if bn \<in> set bls then P else insert b P) \<and>
    blocks d t = blocks d s \<and> platter t = platter s \<and> log_n t = int (length (absorbed bls bn)) \<and> length (log_blocks t) = LOGSIZE \<and>
    take (length (absorbed bls bn)) (log_blocks t) = absorbed bls bn \<and> log_start t = log_start s \<and> log_dev t = log_dev s \<and>
    log_size t = log_size s \<and> outstanding t = outstanding s \<and> (\<forall>i. data (bufs t i) = data (bufs s i) \<and> blockno (bufs t i) = blockno (bufs s i))"
proof -
  have io: "io_ok p s" and held: "locks s = []" using cache_okD(1) [OF c] by (auto simp: io_ok_def)
  let ?s = "s\<lparr>locks := [log_lock]\<rparr>" and ?i = "absorb_index (log_blocks s) (length bls) bn"
  have guard: "\<not> (int (length bls) \<ge> int LOGSIZE \<or> int (length bls) \<ge> log_size s - 1)" "\<not> outstanding s < 1" using room out by auto
  show ?thesis
  proof (cases "bn \<in> set bls")
    case True
    have i: "?i < length bls" "bls ! ?i = bn" using takeWhile_index [OF True] by (simp_all add: absorb_index_def lg(3))
    have "log_blocks s ! ?i = bn" using i lg(3) by (metis nth_take)
    then have same: "(log_blocks s)[?i := bn] = log_blocks s" by (metis list_update_id)
    have "log_write b s = Ok () s"
      using held guard lg(1) i(1) same by (simp add: log_write_def straight lock_runs get_buf_def bn_def)
    then show ?thesis using True c pins lg by (intro exI [of _ s] exI [of _ P]) (simp add: absorbed_def)
  next
    case False
    have "takeWhile (\<lambda>x. x \<noteq> bn) bls = bls" using False by (auto simp: takeWhile_eq_all_conv)
    then have i: "?i = length bls" unfolding absorb_index_def lg(3) by (simp only:)
    have nP: "b \<notin> P" using pins False unfolding pins_are_def bn_def by blast
    let ?Y = "(bufs s)(b := (bufs s b)\<lparr>refcnt := refcnt (bufs s b) + 1\<rparr>)"
    note pin = pin_run(1) [OF c b nP]
    let ?t = "s\<lparr>log_blocks := (log_blocks s)[length bls := bn], bufs := ?Y, log_n := int (length bls) + 1\<rparr>"
    have run: "log_write b s = Ok () ?t"
      using held guard lg(1) i by (simp add: log_write_def straight lock_runs get_buf_def bn_def bpin_def upd_buf_def)
    have eq: "cache_ok p d H (insert b P) ?t = cache_ok p d H (insert b P) (s\<lparr>bufs := ?Y\<rparr>)"
      "blocks d ?t = blocks d (s\<lparr>bufs := ?Y\<rparr>)"
      by (simp_all add: cache_ok_def io_ok_def vq_idle_def blocks_def content_def fun_eq_iff split: option.split)
    have tk: "take (Suc (length bls)) ((log_blocks s)[length bls := bn]) = bls @ [bn]"
      using lg(2,3) room(1) by (simp add: take_Suc_conv_app_nth)
    have "pins_are (insert b P) (bls @ [bn]) ?t" using pins by (auto simp: pins_are_def bn_def fun_upd_apply)
    moreover have "cache_ok p d H (insert b P) ?t" "blocks d ?t = blocks d s" using pin eq blocks_refcnt [of d s b] by auto
    moreover have "data (bufs ?t j) = data (bufs s j) \<and> blockno (bufs ?t j) = blockno (bufs s j)" for j by (simp add: fun_upd_apply)
    ultimately show ?thesis using run False lg(2) tk by (intro exI [of _ ?t] exI [of _ "insert b P"]) (simp add: absorbed_def)
  qed
qed

text \<open>
  C8. \<open>log_write\<close> records the block of a held buffer in the transaction: a block already recorded is absorbed,
  a new one is appended and its buffer pinned, so that the pinned buffers are again exactly those of
  the recorded blocks, no block twice; the contents of the blocks and of the disk do not change.
\<close>

theorem log_write_absorbs:
  fixes s :: "'z log_scheme"
  assumes "cache_ok p d H P s" and "b \<in> H" and "pins_are P bls s" and "distinct bls"
    and "log_n s = int (length bls)" and "length (log_blocks s) = LOGSIZE" and "take (length bls) (log_blocks s) = bls"
    and "length bls < LOGSIZE" and "int (length bls) < log_size s - 1" and "1 \<le> outstanding s"
  shows "\<exists>t P'. log_write b s = Ok () t \<and> cache_ok p d H P' t \<and> pins_are P' (absorbed bls (blockno (bufs s b))) t \<and>
    distinct (absorbed bls (blockno (bufs s b))) \<and> log_n t = int (length (absorbed bls (blockno (bufs s b)))) \<and>
    take (length (absorbed bls (blockno (bufs s b)))) (log_blocks t) = absorbed bls (blockno (bufs s b)) \<and>
    blocks d t = blocks d s \<and> platter t = platter s"
  using log_write_run [OF assms(1-3,5-10)] assms(4) by (auto simp: absorbed_def)

section \<open>A concrete transaction\<close>

text \<open>One block is read, changed and recorded on a machine that has just started its cache.\<close>

lemma demo_write:
  obtains s :: vstate and b where "cache_ok 0 1 {b} {} s" "platter s = (\<lambda>_. replicate BSIZE 0)" "blocks 1 s 100 = replicate BSIZE 7"
    "blockno (bufs s b) = 100" "log_start s = 2" "log_size s = 30" "log_dev s = 1" "log_n s = 0" "log_blocks s = replicate 30 0"
    "outstanding s = 1"
proof -
  obtain k :: kmem where True by simp
  let ?d = "(\<lambda>_. replicate BSIZE 0) :: u64 \<Rightarrow> u8 list"
  obtain s0 :: vstate where 0: "cache_ok 0 1 {} {} s0" "platter s0 = ?d" "core s0 = core (demo_on k)"
    by (rule demo_cache [of ?d k]) simp_all
  have l0: "log_start s0 = 2" "log_size s0 = 30" "log_dev s0 = 1" "log_n s0 = 0" "log_blocks s0 = replicate 30 0"
    using core_log [OF 0(3)] by (simp_all add: demo_on_def)
  have f: "\<exists>i < NBUF. i \<notin> {} \<union> {} \<or> Q i" for Q :: "nat \<Rightarrow> bool" by (intro exI [of _ 0]) simp
  obtain b s1 where 1: "cache_ok 0 1 {b} {} s1" "calm 0 s0 s1" "platter s1 = platter s0" "blockno (bufs s1 b) = 100" "blocks 1 s1 = blocks 1 s0"
    by (rule bread_blocks [OF 0(1) f, of 100]) (simp, simp, blast)
  obtain s2 where 2: "cache_ok 0 1 {b} {} s2" "calm 0 s1 s2" "platter s2 = platter s1" "blocks 1 s2 = (blocks 1 s1)(blockno (bufs s1 b) := replicate BSIZE 7)"
      "bufs s2 = (bufs s1)(b := (bufs s1 b)\<lparr>data := replicate BSIZE 7\<rparr>)"
    by (rule set_data_blocks [OF 1(1) insertI1, of "replicate BSIZE 7"]) (simp, blast)
  let ?s = "s2\<lparr>outstanding := 1\<rparr>"
  have c2: "cache_ok 0 1 {b} {} ?s" "blocks 1 ?s = blocks 1 s2"
    using 2(1) by (simp_all add: cache_ok_def io_ok_def vq_idle_def blocks_def content_def fun_eq_iff split: option.split)
  have l2: "log_start s2 = 2" "log_size s2 = 30" "log_dev s2 = 1" "log_n s2 = 0" "log_blocks s2 = replicate 30 0"
    using calm_log [OF 1(2)] calm_log [OF 2(2)] l0 by simp_all
  have bn: "blockno (bufs ?s b) = 100" by (simp add: 2(5) 1(4))
  show ?thesis using c2 l2 bn 2(3,4) 1(3,4) 0(2) by (intro that [of b ?s]) simp_all
qed

lemma demo_transaction:
  obtains s :: vstate and b where "log_ctx 0 1 2 [100] {b} s" "pins_are {b} [100] s" "platter s = (\<lambda>_. replicate BSIZE 0)"
    "blocks 1 s 100 = replicate BSIZE 7"
proof -
  obtain s :: vstate and b where s: "cache_ok 0 1 {b} {} s" "platter s = (\<lambda>_. replicate BSIZE 0)" "blocks 1 s 100 = replicate BSIZE 7"
    "blockno (bufs s b) = 100" "log_start s = 2" "log_size s = 30" "log_dev s = 1" "log_n s = 0" "log_blocks s = replicate 30 0"
    "outstanding s = 1" by (rule demo_write)
  have none: "pins_are {} [] s" by (simp add: pins_are_def)
  obtain s3 :: vstate where 3: "cache_ok 0 1 {b} {b} s3" "pins_are {b} [100] s3" "blocks 1 s3 = blocks 1 s" "platter s3 = platter s" "log_n s3 = 1"
      "length (log_blocks s3) = LOGSIZE" "take (Suc 0) (log_blocks s3) = [100]" "log_start s3 = 2" "log_dev s3 = 1"
    using log_write_run [OF s(1) insertI1 none] s(4-10) by (simp add: absorbed_def) blast
  obtain s4 where 4: "cache_ok 0 1 ({b} - {b}) {b} s4" "calm 0 s3 s4" "platter s4 = platter s3" "blocks 1 s4 = blocks 1 s3" "bufs s4 = dropped b (bufs s3)"
    by (rule brelse_blocks [OF 3(1) insertI1]) (simp, blast)
  have pins: "pins_are {b} [100] s4" using 3(2) by (simp add: pins_are_def 4(5) dropped_fields)
  moreover have "\<exists>i < NBUF. i \<notin> {b}" by (intro exI [of _ "if b = 0 then 1 else 0"]) simp
  ultimately have "log_ctx 0 1 2 [100] {b} s4"
    using 4(1) 3(5-9) calm_log [OF 4(2)] unfolding log_ctx_def by (simp add: in_log_def pins_are_def)
  then show ?thesis using pins 4(3,4) 3(3,4) s(2,3) by (intro that [of b s4]) simp_all
qed

theorem log_crash_atomic_witness:
  "\<exists>(s :: vstate) (u :: vstate) t v. commit s = Ok () t \<and> platter u = apply_writes (take 2 (commit_writes 2 [100] (platter s (sector_of (head 2))) (blocks 1 s))) (platter s) \<and>
    initlog 1 (sb u) u = Ok () v \<and> blocks 1 s 100 = replicate BSIZE 7 \<and>
    (blocks 1 v 100 = replicate BSIZE 0 \<or> blocks 1 v 100 = replicate BSIZE 7)"
proof -
  obtain s :: vstate and b where s: "log_ctx 0 1 2 [100] {b} s" "pins_are {b} [100] s" "platter s = (\<lambda>_. replicate BSIZE 0)" "blocks 1 s 100 = replicate BSIZE 7"
    by (rule demo_transaction)
  obtain k :: kmem where True by simp
  let ?W = "commit_writes 2 [100] (platter s (sector_of (head 2))) (blocks 1 s)"
  let ?q = "apply_writes (take 2 ?W) (platter s)"
  have bytes: "length (x :: u8 list) = BSIZE" if "x \<in> range ?q" for x
  proof -
    have "take 2 ?W = [(sector_of (slot 2 0), replicate BSIZE 7), (sector_of (head 2), head_bytes (replicate BSIZE 0) [100])]"
      using s(3,4) by (simp add: commit_writes_def slot_writes_def)
    then show ?thesis using that s(3) head_bytes_read(3) [of "replicate BSIZE 0" "[100]"] by (auto simp: fun_upd_apply)
  qed
  obtain u :: vstate where u: "cache_ok 0 1 {} {} u" "platter u = ?q" "core u = core (demo_on k)"
    by (rule demo_cache [of ?q k]) (use bytes in \<open>blast, blast\<close>)
  have sbu: "sint (logstart (sb u)) = int 2" "length (log_blocks u) = LOGSIZE"
  proof -
    have "sb (core u) = sb (core (demo_on k))" using u(3) by simp
    then show "sint (logstart (sb u)) = int 2" by (simp add: core_def demo_on_def)
    show "length (log_blocks u) = LOGSIZE" using core_log(7) [OF u(3)] by (simp add: demo_on_def)
  qed
  have z: "get32 (platter s (sector_of (head 2))) 0 = 0" by (rule bit_word_eqI) (simp add: s(3) get32_def get_at_def bit_le_word)
  have k: "\<not> in_log 2 100" by (simp add: in_log_def)
  obtain t v where tv: "commit s = Ok () t" "initlog 1 (sb u) u = Ok () v"
    "(\<forall>k < 0x80000000. \<not> in_log 2 k \<longrightarrow> blocks 1 v k = platter s (sector_of k)) \<or> (\<forall>k < 0x80000000. \<not> in_log 2 k \<longrightarrow> blocks 1 v k = blocks 1 s k)"
    using log_crash_atomic [OF s(1) _ _ s(2) z u(1) sbu(2,1) u(2)] by (simp del: take_Suc_Cons) blast
  have "blocks 1 v 100 = replicate BSIZE 0 \<or> blocks 1 v 100 = replicate BSIZE 7"
    using tv(3) spec [where x = 100] k s(3,4) by (elim disjE) auto
  then show ?thesis using tv(1,2) u(2) s(4) by blast
qed

theorem log_write_absorbs_witness:
  "\<exists>(s :: vstate) t b. blockno (bufs s b) = 100 \<and> log_n s = 0 \<and> log_write b s = Ok () t \<and> log_n t = 1 \<and> take 1 (log_blocks t) = [100]"
proof -
  obtain s :: vstate and b where s: "cache_ok 0 1 {b} {} s" "platter s = (\<lambda>_. replicate BSIZE 0)" "blocks 1 s 100 = replicate BSIZE 7"
    "blockno (bufs s b) = 100" "log_start s = 2" "log_size s = 30" "log_dev s = 1" "log_n s = 0" "log_blocks s = replicate 30 0"
    "outstanding s = 1" by (rule demo_write)
  have none: "pins_are {} [] s" by (simp add: pins_are_def)
  obtain t where t: "log_write b s = Ok () t" "log_n t = 1" "take 1 (log_blocks t) = [100]"
    using log_write_absorbs [OF s(1) insertI1 none] s(4-10) by (simp add: absorbed_def) blast
  show ?thesis using s(4,8) t by blast
qed

end
