(* ===== verification/Ulib.thy ===== *)
theory Ulib
  imports Machine
begin

text \<open>
  The library of the user programs: \<open>user/ulib.c\<close> and \<open>user/printf.c\<close>. A C string is the list of its bytes
  from the pointer on; reading past the end gives the terminator. Functions that store through a
  pointer work on the memory of the process. System calls are parameters; a file that is read is the
  sequence of chunks in which it delivers its bytes. \<open>char\<close> is unsigned on RISC-V.
\<close>

section \<open>Strings\<close>

definition ch :: "char \<Rightarrow> u8" where
  "ch c = of_char c"

definition at0 :: "u8 list \<Rightarrow> u8" where
  "at0 xs = (case xs of [] \<Rightarrow> 0 | x # _ \<Rightarrow> x)"

lemma at0_simps [simp]: "at0 [] = 0" "at0 (x # xs) = x"
  by (simp_all add: at0_def)

lemma at0_shorter: "at0 xs \<noteq> 0 \<Longrightarrow> length (tl xs) < length xs"
  by (cases xs) auto

text \<open>\<open>strcpy\<close> goes on until it has stored a terminator; without one in memory it does not return.\<close>

partial_function (option) strcpy_u :: "(u64 \<Rightarrow> u8) \<Rightarrow> u64 \<Rightarrow> u64 \<Rightarrow> (u64 \<Rightarrow> u8) option" where
  "strcpy_u m s t = (if m t \<noteq> 0 then strcpy_u (m(s := m t)) (s + 1) (t + 1) else Some (m(s := m t)))"

function strcmp_u :: "u8 list \<Rightarrow> u8 list \<Rightarrow> int" where
  "strcmp_u p q =
     (if at0 p \<noteq> 0 \<and> at0 p = at0 q then strcmp_u (tl p) (tl q) else uint (at0 p) - uint (at0 q))"
  by pat_completeness auto
termination by (relation "measure (\<lambda>(p, q). length p)") (auto dest: at0_shorter simp del: length_tl)

declare strcmp_u.simps [simp del]

primrec strlen_u :: "u8 list \<Rightarrow> nat" where
  "strlen_u [] = 0"
| "strlen_u (x # xs) = (if x \<noteq> 0 then Suc (strlen_u xs) else 0)"

primrec strchr_u :: "u8 list \<Rightarrow> u8 \<Rightarrow> nat option" where
  "strchr_u [] c = None"
| "strchr_u (x # xs) c = (if x = 0 then None else if x = c then Some 0 else map_option Suc (strchr_u xs c))"

lemma strchr_u_less: "strchr_u xs c = Some i \<Longrightarrow> i < length xs"
  by (induction xs arbitrary: i) (auto split: if_splits)

lemma takeWhile_none: "c \<notin> set xs \<Longrightarrow> takeWhile (\<lambda>x. x \<noteq> c) (xs @ ys) = xs @ takeWhile (\<lambda>x. x \<noteq> c) ys"
  by (induction xs) auto

text \<open>\<open>int\<close> arithmetic of 32 bits.\<close>

function atoi_from :: "u32 \<Rightarrow> u8 list \<Rightarrow> u32" where
  "atoi_from n s =
     (if 48 \<le> at0 s \<and> at0 s \<le> 57 then atoi_from (n * 10 + ucast (at0 s) - 48) (tl s) else n)"
  by pat_completeness auto
termination
  by (relation "measure (\<lambda>(n, s). length s)") (auto simp: at0_def split: list.splits)

declare atoi_from.simps [simp del]

definition atoi :: "u8 list \<Rightarrow> u32" where
  "atoi s = atoi_from 0 s"

section \<open>Memory\<close>

primrec memset_u :: "(u64 \<Rightarrow> u8) \<Rightarrow> u64 \<Rightarrow> u8 \<Rightarrow> nat \<Rightarrow> (u64 \<Rightarrow> u8)" where
  "memset_u m dst c 0 = m"
| "memset_u m dst c (Suc n) = (memset_u m dst c n)(dst + of_nat n := c)"

definition memmove_u :: "(u64 \<Rightarrow> u8) \<Rightarrow> u64 \<Rightarrow> u64 \<Rightarrow> int \<Rightarrow> (u64 \<Rightarrow> u8)" where
  "memmove_u m dst src n =
     (if src > dst then copy_up m dst src (nat n)
      else copy_down m (dst + word_of_int n) (src + word_of_int n) (nat n))"

primrec memcmp_u :: "(u64 \<Rightarrow> u8) \<Rightarrow> u64 \<Rightarrow> u64 \<Rightarrow> nat \<Rightarrow> int" where
  "memcmp_u m p1 p2 0 = 0"
| "memcmp_u m p1 p2 (Suc n) =
     (if m p1 \<noteq> m p2 then uint (m p1) - uint (m p2) else memcmp_u m (p1 + 1) (p2 + 1) n)"

definition memcpy_u :: "(u64 \<Rightarrow> u8) \<Rightarrow> u64 \<Rightarrow> u64 \<Rightarrow> u32 \<Rightarrow> (u64 \<Rightarrow> u8)" where
  "memcpy_u m dst src n = memmove_u m dst src (sint n)"

text \<open>Both directions of the copy give the old contents of the source, also for overlapping ranges.\<close>

lemma memmove_u_copies:
  assumes "unat src + n \<le> 2 ^ 64" and "unat dst + n \<le> 2 ^ 64" and "n < 2 ^ 31"
  shows "memmove_u m dst src (int n) a = (if unat (a - dst) < n then m (src + (a - dst)) else m a)"
proof (cases "src > dst")
  case True
  then have "unat (dst - src) = 2 ^ 64 - (unat src - unat dst)"
    by (simp add: word_less_nat_alt unat_sub_if_size word_size)
  then have "n \<le> unat (dst - src)" using assms by linarith
  then show ?thesis using True assms(3) copy_up_apply [of n dst src m a] by (simp add: memmove_u_def)
next
  case False
  then have "dst = src \<or> n \<le> unat (src - dst)"
    using assms by (auto simp: unat_sub_if' word_less_nat_alt intro: word_eqI_unat)
  then show ?thesis
    using False assms(3) copy_down_block [of n dst src m a] by (cases "n = 0") (simp_all add: memmove_u_def)
qed

section \<open>Input and file status\<close>

fun read_chunk :: "nat \<Rightarrow> u8 list list \<Rightarrow> u8 list \<times> u8 list list" where
  "read_chunk n [] = ([], [])"
| "read_chunk n (bs # input) = (take n bs, if length bs \<le> n then input else drop n bs # input)"

lemma read_chunk_less: "read_chunk n input = (bs, input') \<Longrightarrow> bs \<noteq> [] \<Longrightarrow> length (concat input') < length (concat input)"
  by (cases input) (auto split: if_splits)

text \<open>The loop of \<open>gets\<close>: the bytes stored from \<open>buf[i]\<close> on and the input that is left.\<close>

function gets_from :: "nat \<Rightarrow> int \<Rightarrow> u8 list list \<Rightarrow> u8 list \<times> u8 list list" where
  "gets_from i mx input =
     (if int i + 1 < mx
      then let (bs, input') = read_chunk 1 input
        in if bs = [] then ([], input')
           else if hd bs = ch (CHR 0x0A) \<or> hd bs = ch (CHR 0x0D) then ([hd bs], input')
           else let (cs, input'') = gets_from (Suc i) mx input' in (hd bs # cs, input'')
      else ([], input))"
  by pat_completeness auto
termination
  by (relation "measure (\<lambda>(i, mx, input). nat (mx - int i))") auto

declare gets_from.simps [simp del]

definition gets_u :: "int \<Rightarrow> u8 list list \<Rightarrow> u8 list \<times> u8 list list" where
  "gets_u mx input = (let (bs, input') = gets_from 0 mx input in (bs @ [0], input'))"

definition stat_u ::
  "(u8 list \<Rightarrow> int \<Rightarrow> ('s, int) kmon) \<Rightarrow> (int \<Rightarrow> ('s, int) kmon) \<Rightarrow> (int \<Rightarrow> ('s, int) kmon) \<Rightarrow> u8 list \<Rightarrow> ('s, int) kmon" where
  "stat_u open0 fstat0 close0 n = bnd (open0 n 0) (\<lambda>fd.
     if fd < 0 then ret (- 1)
     else bnd (fstat0 fd) (\<lambda>r. bnd (close0 fd) (\<lambda>_. ret r)))"

section \<open>Formatted output\<close>

text \<open>The functions give the bytes that they write, one \<open>write\<close> each.\<close>

definition digit_u :: "nat \<Rightarrow> u8" where
  "digit_u d = (if d < 10 then of_nat (48 + d) else of_nat (55 + d))"

function digits_from :: "nat \<Rightarrow> nat \<Rightarrow> u8 list" where
  "digits_from base x =
     digit_u (x mod base) # (if x div base = 0 \<or> base < 2 then [] else digits_from base (x div base))"
  by pat_completeness auto
termination
  by (relation "measure snd") (auto intro!: div_less_dividend, metis div_0 gr0I)

declare digits_from.simps [simp del]

definition printint_u :: "u32 \<Rightarrow> nat \<Rightarrow> bool \<Rightarrow> u8 list" where
  "printint_u xx base sg =
     (let neg = (sg \<and> sint xx < 0); x = (if neg then - xx else xx)
      in rev (digits_from base (unat x) @ (if neg then [ch CHR ''-''] else [])))"

definition printptr_u :: "u64 \<Rightarrow> u8 list" where
  "printptr_u x = ch CHR ''0'' # ch CHR ''x'' # map (\<lambda>i. digit_u (unat (drop_bit 60 (push_bit (4 * i) x)))) [0..<16]"

datatype uarg = AInt u32 | ALong u64 | AStr "u8 list option"

text \<open>
  \<open>vprintf\<close>: the flag is \<open>state == '%'\<close>. An argument that is missing or of another type than the
  directive asks for, undefined in C, gives \<open>None\<close>.
\<close>

fun vprintf :: "bool \<Rightarrow> u8 list \<Rightarrow> uarg list \<Rightarrow> u8 list option" where
  "vprintf pct [] args = Some []"
| "vprintf False (c # cs) args =
     (if c = ch CHR ''%'' then vprintf True cs args else map_option ((#) c) (vprintf False cs args))"
| "vprintf True (c # cs) args =
     (if c = ch CHR ''d'' then
        (case args of AInt x # as \<Rightarrow> map_option ((@) (printint_u x 10 True)) (vprintf False cs as) | _ \<Rightarrow> None)
      else if c = ch CHR ''l'' then
        (case args of ALong x # as \<Rightarrow> map_option ((@) (printint_u (ucast x) 10 False)) (vprintf False cs as) | _ \<Rightarrow> None)
      else if c = ch CHR ''x'' then
        (case args of AInt x # as \<Rightarrow> map_option ((@) (printint_u x 16 False)) (vprintf False cs as) | _ \<Rightarrow> None)
      else if c = ch CHR ''p'' then
        (case args of ALong x # as \<Rightarrow> map_option ((@) (printptr_u x)) (vprintf False cs as) | _ \<Rightarrow> None)
      else if c = ch CHR ''s'' then
        (case args of
           AStr str # as \<Rightarrow>
             map_option ((@) (case str of None \<Rightarrow> map ch ''(null)'' | Some b \<Rightarrow> take (strlen_u b) b)) (vprintf False cs as)
         | _ \<Rightarrow> None)
      else if c = ch CHR ''c'' then
        (case args of AInt x # as \<Rightarrow> map_option ((#) (ucast x)) (vprintf False cs as) | _ \<Rightarrow> None)
      else if c = ch CHR ''%'' then map_option ((#) c) (vprintf False cs args)
      else map_option (\<lambda>bs. ch CHR ''%'' # c # bs) (vprintf False cs args))"

definition fprintf :: "int \<Rightarrow> u8 list \<Rightarrow> uarg list \<Rightarrow> (int \<times> u8 list) list option" where
  "fprintf fd fmt args = map_option (map (\<lambda>b. (fd, [b]))) (vprintf False fmt args)"

definition printf_u :: "u8 list \<Rightarrow> uarg list \<Rightarrow> (int \<times> u8 list) list option" where
  "printf_u fmt args = fprintf 1 fmt args"

section \<open>Reading back a printed number\<close>

lemma atoi_from_digit:
  assumes "d < 10"
  shows "atoi_from n (digit_u d # s) = atoi_from (n * 10 + of_nat d) s"
proof -
  have u: "unat (digit_u d) = 48 + d" using assms by (simp add: digit_u_def unsigned_of_nat take_bit_nat_eq_self del: of_nat_add)
  have "ucast (digit_u d) = (of_nat (48 + d) :: u32)"
    using u by (metis of_nat_unat)
  then have e: "n * 10 + ucast (digit_u d) - 48 = n * 10 + of_nat d" by simp
  have "48 \<le> digit_u d" "digit_u d \<le> 57" using u assms by (simp_all add: word_le_nat_alt)
  then show ?thesis using e by (subst atoi_from.simps) (simp only: at0_simps list.sel simp_thms if_True)
qed

lemma atoi_from_digits:
  "atoi_from n (rev (digits_from 10 x) @ s) = atoi_from (n * 10 ^ length (digits_from 10 x) + of_nat x) s"
proof (induction x arbitrary: n s rule: less_induct)
  case (less x)
  let ?y = "x div 10" and ?d = "x mod 10"
  show ?case
  proof (cases "?y = 0")
    case True
    then have "digits_from 10 x = [digit_u ?d]" by (subst digits_from.simps) simp
    moreover from True have "?d = x" by simp
    ultimately show ?thesis using atoi_from_digit [of ?d n s] by (simp del: mod_less)
  next
    case False
    then have ds: "digits_from 10 x = digit_u ?d # digits_from 10 ?y" by (subst digits_from.simps) simp
    let ?k = "length (digits_from 10 ?y)"
    have "atoi_from n (rev (digits_from 10 x) @ s) = atoi_from (n * 10 ^ ?k + of_nat ?y) (digit_u ?d # s)"
      using less.IH [of ?y n "digit_u ?d # s"] False ds by simp
    also have "\<dots> = atoi_from ((n * 10 ^ ?k + of_nat ?y) * 10 + of_nat ?d) s" by (rule atoi_from_digit) simp
    also have "(n * 10 ^ ?k + of_nat ?y) * 10 + of_nat ?d = n * 10 ^ length (digits_from 10 x) + (of_nat x :: u32)"
    proof -
      have "of_nat x = (of_nat (?y * 10 + ?d) :: u32)" by simp
      also have "\<dots> = of_nat ?y * 10 + of_nat ?d" by (simp only: of_nat_add of_nat_mult of_nat_numeral)
      finally show ?thesis by (simp add: ds algebra_simps)
    qed
    finally show ?thesis .
  qed
qed

text \<open>
  \<open>atoi\<close> reads back what \<open>printf\<close> prints for \<open>%d\<close>: the decimal text of a non-negative \<open>int\<close>, followed by
  anything that is not a digit, gives the number again.
\<close>

lemma atoi_reads_printf:
  assumes "0 \<le> sint x" and "\<not> (48 \<le> at0 s \<and> at0 s \<le> 57)"
  shows "\<exists>bs. vprintf False (map ch ''%d'') [AInt x] = Some bs \<and> atoi (bs @ s) = x"
proof -
  have "vprintf False (map ch ''%d'') [AInt x] = Some (printint_u x 10 True)" by (simp add: ch_def)
  moreover have "printint_u x 10 True = rev (digits_from 10 (unat x))" using assms(1) by (simp add: printint_u_def)
  moreover have "atoi_from x s = x" using assms(2) by (subst atoi_from.simps) auto
  ultimately show ?thesis using atoi_from_digits [of 0 "unat x" s] by (simp add: atoi_def)
qed

lemma atoi_reads_printf_witness:
  "\<exists>bs. vprintf False (map ch ''%d'') [AInt 1024] = Some bs \<and> atoi (bs @ map ch '' MB'') = 1024"
  by (rule atoi_reads_printf) (simp_all add: ch_def)

end
