(* ===== verification/Grep.thy ===== *)
theory Grep
  imports Ulib
begin

text \<open>
  The program \<open>user/grep.c\<close>: the matcher for patterns with \<open>^\<close>, \<open>.\<close>, \<open>*\<close> and \<open>$\<close>, and the loop that splits
  the input into lines. The input is the sequence of chunks in which the file delivers its bytes.
  The theorems give the language that a pattern denotes and the lines that are printed.
\<close>

section \<open>The matcher\<close>

text \<open>\<open>matchhere\<close> looks at the start of the text; \<open>matchstar\<close> tries every number of instances of \<open>c\<close>.\<close>

function matchhere :: "u8 list \<Rightarrow> u8 list \<Rightarrow> bool"
  and matchstar :: "u8 \<Rightarrow> u8 list \<Rightarrow> u8 list \<Rightarrow> bool" where
  "matchhere re tx =
     (if at0 re = 0 then True
      else if at0 (tl re) = ch CHR ''*'' then matchstar (at0 re) (tl (tl re)) tx
      else if at0 re = ch CHR ''$'' \<and> at0 (tl re) = 0 then at0 tx = 0
      else if at0 tx \<noteq> 0 \<and> (at0 re = ch CHR ''.'' \<or> at0 re = at0 tx) then matchhere (tl re) (tl tx)
      else False)"
| "matchstar c re tx =
     (if matchhere re tx then True
      else if at0 tx \<noteq> 0 \<and> (at0 tx = c \<or> c = ch CHR ''.'') then matchstar c re (tl tx)
      else False)"
  by pat_completeness auto
termination
proof (relation "measures [\<lambda>x. case x of Inl (re, tx) \<Rightarrow> length re | Inr (c, re, tx) \<Rightarrow> length re,
    \<lambda>x. case x of Inl (re, tx) \<Rightarrow> 2 * length tx | Inr (c, re, tx) \<Rightarrow> Suc (2 * length tx)]")
qed (auto simp: at0_def split: list.splits)

declare matchhere.simps [simp del] matchstar.simps [simp del]

function match_from :: "u8 list \<Rightarrow> u8 list \<Rightarrow> bool" where
  "match_from re tx =
     (if matchhere re tx then True
      else if at0 tx \<noteq> 0 then match_from re (tl tx)
      else False)"
  by pat_completeness auto
termination by (relation "measure (\<lambda>(re, tx). length tx)") (auto simp: at0_def split: list.splits)

declare match_from.simps [simp del]

definition match :: "u8 list \<Rightarrow> u8 list \<Rightarrow> bool" where
  "match re tx = (if at0 re = ch CHR ''^'' then matchhere (tl re) tx else match_from re tx)"

section \<open>Lines\<close>

text \<open>The inner loop: the lines of the buffer from \<open>p\<close> on, the bytes written and what is left.\<close>

function grep_lines :: "u8 list \<Rightarrow> u8 list \<Rightarrow> u8 list list \<times> u8 list" where
  "grep_lines pat p =
     (case strchr_u p (ch (CHR 0x0A)) of
        None \<Rightarrow> ([], p)
      | Some q \<Rightarrow>
          let (out, rest) = grep_lines pat (drop (Suc q) p)
          in (if match pat (take q p) then take (Suc q) p # out else out, rest))"
  by pat_completeness auto
termination by (relation "measure (\<lambda>(pat, p). length p)") (auto dest: strchr_u_less)

declare grep_lines.simps [simp del]

text \<open>
  The outer loop; \<open>buf\<close> holds the \<open>m\<close> bytes kept from the previous rounds. The result is the sequence of
  the arguments of \<open>write\<close>.
\<close>

function grep :: "u8 list \<Rightarrow> u8 list \<Rightarrow> u8 list list \<Rightarrow> u8 list list" where
  "grep pat buf input =
     (let (bs, input') = read_chunk (1024 - length buf - 1) input
      in if bs = [] then []
         else let (out, rest) = grep_lines pat (buf @ bs) in out @ grep pat rest input')"
  by pat_completeness auto
termination
  by (relation "measure (\<lambda>(pat, buf, input). length (concat input))") (auto dest!: read_chunk_less [OF sym])

declare grep.simps [simp del]

text \<open>\<open>main\<close> for the arguments \<open>argv\<close>: the writes with their descriptors, and the exit status.\<close>

definition writes :: "(int \<times> u8 list) list option \<Rightarrow> (int \<times> u8 list) list" where
  "writes w = (case w of None \<Rightarrow> [] | Some ws \<Rightarrow> ws)"

primrec grep_files :: "u8 list \<Rightarrow> (u8 list \<Rightarrow> u8 list list option) \<Rightarrow> u8 list list \<Rightarrow> (int \<times> u8 list) list \<times> int" where
  "grep_files pat open0 [] = ([], 0)"
| "grep_files pat open0 (f # fs) =
     (case open0 f of
        None \<Rightarrow> (writes (printf_u (map ch (''grep: cannot open %s'' @ [CHR 0x0A])) [AStr (Some f)]), 1)
      | Some input \<Rightarrow>
          let (out, st) = grep_files pat open0 fs in (map (Pair 1) (grep pat [] input) @ out, st))"

definition grep_main :: "u8 list list \<Rightarrow> u8 list list \<Rightarrow> (u8 list \<Rightarrow> u8 list list option) \<Rightarrow> (int \<times> u8 list) list \<times> int" where
  "grep_main argv stdin open0 =
     (if length argv \<le> 1 then (writes (fprintf 2 (map ch (''usage: grep pattern [file ...]'' @ [CHR 0x0A])) []), 1)
      else let pat = argv ! 1 in
        if length argv \<le> 2 then (map (Pair 1) (grep pat [] stdin), 0)
        else grep_files pat open0 (drop 2 argv))"

section \<open>The language of a pattern\<close>

text \<open>The items of a pattern, each a character with a flag for \<open>*\<close>, and whether it ends with \<open>$\<close>.\<close>

fun items :: "u8 list \<Rightarrow> (u8 \<times> bool) list \<times> bool" where
  "items [] = ([], False)"
| "items [c] = (if c = ch CHR ''$'' then ([], True) else ([(c, False)], False))"
| "items (c # d # re) =
     (if d = ch CHR ''*'' then (let (xs, e) = items re in ((c, True) # xs, e))
      else (let (xs, e) = items (d # re) in ((c, False) # xs, e)))"

definition chars_of :: "u8 \<Rightarrow> u8 set" where
  "chars_of c = (if c = ch CHR ''.'' then UNIV else {c})"

definition item_lang :: "u8 \<times> bool \<Rightarrow> u8 list set" where
  "item_lang = (\<lambda>(c, star). if star then lists (chars_of c) else {[x] | x. x \<in> chars_of c})"

primrec items_lang :: "(u8 \<times> bool) list \<Rightarrow> u8 list set" where
  "items_lang [] = {[]}"
| "items_lang (x # xs) = {u @ v | u v. u \<in> item_lang x \<and> v \<in> items_lang xs}"

text \<open>The texts that a pattern without \<open>^\<close> matches at their start.\<close>

definition here_lang :: "u8 list \<Rightarrow> u8 list set" where
  "here_lang re = {u @ v | u v. u \<in> items_lang (fst (items re)) \<and> (snd (items re) \<longrightarrow> v = [])}"

definition pattern_lang :: "u8 list \<Rightarrow> u8 list set" where
  "pattern_lang re =
     (if at0 re = ch CHR ''^'' then here_lang (tl re) else {w @ t | w t. t \<in> here_lang re})"

lemma items_cons:
  "items (c # ch CHR ''*'' # re) = ((c, True) # fst (items re), snd (items re))"
  "c \<noteq> ch CHR ''$'' \<or> re \<noteq> [] \<Longrightarrow> re = [] \<or> hd re \<noteq> ch CHR ''*'' \<Longrightarrow> items (c # re) = ((c, False) # fst (items re), snd (items re))"
  by (cases re; auto simp: case_prod_beta)+

lemma here_lang_Nil [simp]: "here_lang [] = UNIV"
  by (simp add: here_lang_def)

lemma here_lang_end: "here_lang [ch CHR ''$''] = {[]}"
  by (simp add: here_lang_def)

lemma here_lang_cons:
  assumes "items p = (i # fst (items re), snd (items re))"
  shows "x \<in> here_lang p \<longleftrightarrow> (\<exists>w t. x = w @ t \<and> w \<in> item_lang i \<and> t \<in> here_lang re)"
proof -
  have "x \<in> here_lang p \<longleftrightarrow>
      (\<exists>a b v. x = (a @ b) @ v \<and> a \<in> item_lang i \<and> b \<in> items_lang (fst (items re)) \<and> (snd (items re) \<longrightarrow> v = []))"
    unfolding here_lang_def assms fst_conv snd_conv items_lang.simps mem_Collect_eq by blast
  also have "\<dots> \<longleftrightarrow> (\<exists>w t. x = w @ t \<and> w \<in> item_lang i \<and> t \<in> here_lang re)"
    unfolding here_lang_def append_assoc mem_Collect_eq by blast
  finally show ?thesis .
qed

lemma here_lang_star: "x \<in> here_lang (c # ch CHR ''*'' # re) \<longleftrightarrow> (\<exists>u t. x = u @ t \<and> set u \<subseteq> chars_of c \<and> t \<in> here_lang re)"
  unfolding here_lang_cons [OF items_cons(1)] by (auto simp: item_lang_def in_lists_conv_set subset_iff)

lemma ex_split_Cons:
  "(\<exists>u v. x # t = u @ v \<and> P u v) \<longleftrightarrow> P [] (x # t) \<or> (\<exists>u v. t = u @ v \<and> P (x # u) v)"
proof
  assume "\<exists>u v. x # t = u @ v \<and> P u v"
  then obtain u v where "x # t = u @ v" "P u v" by blast
  then show "P [] (x # t) \<or> (\<exists>u v. t = u @ v \<and> P (x # u) v)" by (cases u) auto
qed (metis append_Cons append_Nil)

lemma here_lang_one:
  assumes "c \<noteq> ch CHR ''$'' \<or> re \<noteq> []" "re = [] \<or> hd re \<noteq> ch CHR ''*''"
  shows "x \<in> here_lang (c # re) \<longleftrightarrow> x \<noteq> [] \<and> hd x \<in> chars_of c \<and> tl x \<in> here_lang re"
proof (cases x)
  case (Cons a l)
  then show ?thesis unfolding here_lang_cons [OF items_cons(2) [OF assms]] Cons ex_split_Cons by (auto simp: item_lang_def)
qed (simp add: here_lang_cons [OF items_cons(2) [OF assms]] item_lang_def)

text \<open>The matcher decides the language, on texts and patterns without the terminator.\<close>

lemma matchhere_lang:
  "0 \<notin> set re \<Longrightarrow> 0 \<notin> set tx \<Longrightarrow> matchhere re tx \<longleftrightarrow> tx \<in> here_lang re"
  "0 \<notin> set re \<Longrightarrow> 0 \<notin> set tx \<Longrightarrow>
     matchstar c re tx \<longleftrightarrow> (\<exists>u t. tx = u @ t \<and> set u \<subseteq> chars_of c \<and> t \<in> here_lang re)"
proof (induction re tx and c re tx rule: matchhere_matchstar.induct)
  case (1 re tx)
  show ?case
  proof (cases re)
    case (Cons c r)
    have c: "c \<noteq> 0" "at0 re = c" "tl re = r" using 1(3) Cons by auto
    consider "at0 r = ch CHR ''*''" | "at0 r \<noteq> ch CHR ''*''" "c = ch CHR ''$''" "r = []" | "at0 r \<noteq> ch CHR ''*''" "c \<noteq> ch CHR ''$'' \<or> r \<noteq> []"
      by blast
    then show ?thesis
    proof cases
      case 1
      then obtain r' where r: "r = ch CHR ''*'' # r'" by (cases r) (auto simp: ch_def)
      have "matchhere re tx = matchstar c r' tx" using c r by (subst matchhere.simps) simp
      then show ?thesis using "1.IH"(1) c r "1.prems" Cons here_lang_star [of tx c r'] by simp
    next
      case 2
      then have "matchhere re tx = (tx = [])" using c "1.prems"(2) by (subst matchhere.simps) (cases tx; auto)
      then show ?thesis using 2 Cons by (simp add: here_lang_end)
    next
      case 3
      have r0: "at0 r = 0 \<longleftrightarrow> r = []" using Cons "1.prems"(1) by (cases r) auto
      have "matchhere re tx = (tx \<noteq> [] \<and> hd tx \<in> chars_of c \<and> matchhere r (tl tx))"
        using 3 c r0 "1.prems"(2) by (subst matchhere.simps) (cases tx; auto simp: chars_of_def)
      moreover have "matchhere r (tl tx) \<longleftrightarrow> tl tx \<in> here_lang r" if "tx \<noteq> []" "hd tx \<in> chars_of c"
        using "1.IH"(2) 3 c r0 "1.prems" that Cons by (cases tx) (auto simp: chars_of_def split: if_splits)
      moreover have "r = [] \<or> hd r \<noteq> ch CHR ''*''" using 3(1) by (cases r) auto
      ultimately show ?thesis using here_lang_one [of c r tx] 3(2) Cons by blast
    qed
  qed (subst matchhere.simps, simp)
next
  case (2 c re tx)
  show ?case
  proof (cases tx)
    case Nil
    then show ?thesis using 2 by (subst matchstar.simps) simp
  next
    case (Cons x t)
    have "matchstar c re tx = (tx \<in> here_lang re \<or> x \<in> chars_of c \<and> matchstar c re t)"
      using 2(1,3,4) Cons by (subst matchstar.simps) (auto simp: chars_of_def)
    moreover have "matchstar c re t \<longleftrightarrow> (\<exists>u v. t = u @ v \<and> set u \<subseteq> chars_of c \<and> v \<in> here_lang re)"
      if "tx \<notin> here_lang re" "x \<in> chars_of c"
      using 2 Cons that by (auto simp: chars_of_def split: if_splits)
    moreover have "(\<exists>u v. tx = u @ v \<and> set u \<subseteq> chars_of c \<and> v \<in> here_lang re) \<longleftrightarrow>
        tx \<in> here_lang re \<or> x \<in> chars_of c \<and> (\<exists>u v. t = u @ v \<and> set u \<subseteq> chars_of c \<and> v \<in> here_lang re)"
      unfolding Cons ex_split_Cons by auto
    ultimately show ?thesis by blast
  qed
qed

lemma match_from_lang:
  "0 \<notin> set re \<Longrightarrow> 0 \<notin> set tx \<Longrightarrow> match_from re tx \<longleftrightarrow> (\<exists>w t. tx = w @ t \<and> t \<in> here_lang re)"
proof (induction tx)
  case Nil
  then show ?case by (subst match_from.simps) (simp add: matchhere_lang)
next
  case (Cons x tx)
  then have "match_from re (x # tx) = (x # tx \<in> here_lang re \<or> match_from re tx)"
    by (subst match_from.simps) (simp add: matchhere_lang)
  with Cons show ?case unfolding ex_split_Cons by auto
qed

text \<open>
  C30. The matcher decides the language of the pattern: \<open>match\<close> finds the pattern in the text exactly when
  the text has a part, starting at its beginning after \<open>^\<close> and reaching its end before \<open>$\<close>, that is a
  concatenation of words of the items, a starred character standing for any number of instances.
\<close>

theorem match_decides_language:
  assumes "0 \<notin> set re" and "0 \<notin> set tx"
  shows "match re tx \<longleftrightarrow> tx \<in> pattern_lang re"
proof -
  have "0 \<notin> set (tl re)" using assms(1) by (cases re) auto
  then show ?thesis
    using matchhere_lang(1) [of "tl re" tx] match_from_lang [OF assms] assms(2) by (auto simp: match_def pattern_lang_def)
qed

theorem match_decides_language_witness:
  "match (map ch ''^a*.$'') (map ch ''aab'') \<and> map ch ''aab'' \<in> pattern_lang (map ch ''^a*.$'')"
proof -
  have "match (map ch ''^a*.$'') (map ch ''aab'')"
    by (simp add: ch_def match_def matchhere.simps matchstar.simps)
  then show ?thesis
    using match_decides_language [of "map ch ''^a*.$''" "map ch ''aab''"] by (simp add: ch_def)
qed

section \<open>The lines that are printed\<close>

text \<open>The lines of a text that end with a newline, and what follows the last one.\<close>

fun full_lines :: "u8 list \<Rightarrow> u8 list list" where
  "full_lines [] = []"
| "full_lines (x # xs) =
     (if x = ch (CHR 0x0A) then [] # full_lines xs
      else case full_lines xs of [] \<Rightarrow> [] | l # ls \<Rightarrow> (x # l) # ls)"

definition last_part :: "u8 list \<Rightarrow> u8 list" where
  "last_part xs = rev (takeWhile (\<lambda>x. x \<noteq> ch (CHR 0x0A)) (rev xs))"

lemma takeWhile_some: "c \<in> set xs \<Longrightarrow> takeWhile (\<lambda>x. x \<noteq> c) (xs @ ys) = takeWhile (\<lambda>x. x \<noteq> c) xs"
  by (induction xs) auto

lemma last_part_none: "ch (CHR 0x0A) \<notin> set xs \<Longrightarrow> last_part xs = xs"
  unfolding last_part_def using takeWhile_none [of "ch (CHR 0x0A)" "rev xs" "[]"]
  by (simp only: append_Nil2 set_rev takeWhile.simps rev_rev_ident not_False_eq_True)

lemma last_part_line: "last_part (l @ ch (CHR 0x0A) # xs) = last_part xs"
  using takeWhile_none [of "ch (CHR 0x0A)" "rev xs"] takeWhile_some [of "ch (CHR 0x0A)" "rev xs"] last_part_none [of xs]
  by (cases "ch (CHR 0x0A) \<in> set xs") (simp_all add: last_part_def)

lemma full_lines_line: "ch (CHR 0x0A) \<notin> set l \<Longrightarrow> full_lines (l @ ch (CHR 0x0A) # xs) = l # full_lines xs"
  by (induction l) auto

lemma full_lines_none: "ch (CHR 0x0A) \<notin> set xs \<Longrightarrow> full_lines xs = []"
  by (induction xs) auto

lemma first_line:
  assumes "ch (CHR 0x0A) \<in> set xs"
  obtains l ys where "xs = l @ ch (CHR 0x0A) # ys" "ch (CHR 0x0A) \<notin> set l"
  using split_list_first [OF assms] by blast

lemma strchr_u_line: "0 \<notin> set l \<Longrightarrow> c \<notin> set l \<Longrightarrow> c \<noteq> 0 \<Longrightarrow> strchr_u (l @ c # xs) c = Some (length l)"
  by (induction l) auto

lemma strchr_u_none: "c \<notin> set xs \<Longrightarrow> strchr_u xs c = None"
  by (induction xs) auto

lemma newline_not_0: "ch (CHR 0x0A) \<noteq> 0"
  by (simp add: ch_def)

lemma lines_append:
  "full_lines (xs @ ys) = full_lines xs @ full_lines (last_part xs @ ys) \<and> last_part (xs @ ys) = last_part (last_part xs @ ys)"
proof (induction xs rule: length_induct)
  case (1 xs)
  show ?case
  proof (cases "ch (CHR 0x0A) \<in> set xs")
    case True
    then obtain l zs where l: "xs = l @ ch (CHR 0x0A) # zs" "ch (CHR 0x0A) \<notin> set l" by (rule first_line)
    then have "full_lines (zs @ ys) = full_lines zs @ full_lines (last_part zs @ ys) \<and> last_part (zs @ ys) = last_part (last_part zs @ ys)"
      using 1 by simp
    with l show ?thesis by (simp add: full_lines_line last_part_line)
  qed (simp add: full_lines_none last_part_none)
qed

lemma grep_lines_run:
  "0 \<notin> set p \<Longrightarrow> grep_lines pat p = (map (\<lambda>l. l @ [ch (CHR 0x0A)]) (filter (match pat) (full_lines p)), last_part p)"
proof (induction p rule: length_induct)
  case (1 p)
  show ?case
  proof (cases "ch (CHR 0x0A) \<in> set p")
    case True
    then obtain l zs where l: "p = l @ ch (CHR 0x0A) # zs" "ch (CHR 0x0A) \<notin> set l" by (rule first_line)
    then have "grep_lines pat zs = (map (\<lambda>l. l @ [ch (CHR 0x0A)]) (filter (match pat) (full_lines zs)), last_part zs)"
      using 1 by simp
    moreover have "strchr_u p (ch (CHR 0x0A)) = Some (length l)"
      unfolding l(1) by (rule strchr_u_line) (use 1(2) l newline_not_0 in auto)
    ultimately show ?thesis using l by (subst grep_lines.simps) (simp add: full_lines_line last_part_line)
  qed (subst grep_lines.simps, simp add: strchr_u_none full_lines_none last_part_none)
qed

text \<open>The lines that fit the buffer of 1024 bytes with their newline and the terminator.\<close>

definition lines_fit :: "u8 list \<Rightarrow> bool" where
  "lines_fit xs \<longleftrightarrow> (\<forall>l \<in> set (full_lines xs). length l < 1023) \<and> length (last_part xs) < 1023"

lemma lines_fit_prefix:
  assumes "lines_fit (xs @ ys)" and "ch (CHR 0x0A) \<notin> set xs"
  shows "length xs < 1023"
proof (cases "ch (CHR 0x0A) \<in> set ys")
  case True
  then obtain l zs where l: "ys = l @ ch (CHR 0x0A) # zs" "ch (CHR 0x0A) \<notin> set l" by (rule first_line)
  then have "xs @ l \<in> set (full_lines (xs @ ys))" using assms(2) full_lines_line [of "xs @ l" zs] by simp
  with assms(1) show ?thesis by (auto simp: lines_fit_def)
next
  case False
  with assms show ?thesis by (simp add: lines_fit_def last_part_none)
qed

lemma last_part_no_newline: "ch (CHR 0x0A) \<notin> set (last_part xs)"
  by (auto simp: last_part_def dest: set_takeWhileD)

lemma read_chunk_props:
  assumes "read_chunk n input = (bs, input')" and "[] \<notin> set input" and "0 < n"
  shows "bs @ concat input' = concat input" and "[] \<notin> set input'" and "bs = [] \<longleftrightarrow> input = []"
  using assms by (cases input; auto split: if_splits)+

lemma grep_run:
  "0 \<notin> set (buf @ concat input) \<Longrightarrow> [] \<notin> set input \<Longrightarrow> ch (CHR 0x0A) \<notin> set buf \<Longrightarrow> lines_fit (buf @ concat input) \<Longrightarrow>
     grep pat buf input = map (\<lambda>l. l @ [ch (CHR 0x0A)]) (filter (match pat) (full_lines (buf @ concat input)))"
proof (induction pat buf input rule: grep.induct)
  case (1 pat buf input)
  have room: "0 < 1024 - length buf - 1" using lines_fit_prefix [OF 1(5,4)] by simp
  obtain bs input' where r: "read_chunk (1024 - length buf - 1) input = (bs, input')" by fastforce
  note p = read_chunk_props [OF r 1(3) room]
  have all: "buf @ concat input = (buf @ bs) @ concat input'" using p(1) by simp
  show ?case
  proof (cases "bs = []")
    case True
    then show ?thesis using p(3) r 1(4) by (subst grep.simps) (simp add: full_lines_none)
  next
    case False
    let ?r = "last_part (buf @ bs)"
    have sub: "set ?r \<subseteq> set (buf @ bs)" by (auto simp: last_part_def dest: set_takeWhileD)
    have gl: "grep_lines pat (buf @ bs) = (map (\<lambda>l. l @ [ch (CHR 0x0A)]) (filter (match pat) (full_lines (buf @ bs))), ?r)"
      using 1(2) all by (intro grep_lines_run) simp
    have fit: "lines_fit (?r @ concat input')"
      using 1(5) lines_append [of "buf @ bs" "concat input'"] by (simp add: all lines_fit_def)
    have "grep pat ?r input' = map (\<lambda>l. l @ [ch (CHR 0x0A)]) (filter (match pat) (full_lines (?r @ concat input')))"
      using 1(1) [OF r [symmetric] refl False gl [symmetric] refl _ p(2) last_part_no_newline fit] 1(2) all sub by auto
    then show ?thesis using r False gl lines_append [of "buf @ bs" "concat input'"] by (subst grep.simps) (simp add: all)
  qed
qed

text \<open>
  C31. \<open>grep\<close> writes exactly the lines of its input that the pattern matches, whole and in order, in
  whatever pieces the file delivers its bytes, when every line fits the buffer.
\<close>

theorem grep_prints_matching_lines:
  assumes "0 \<notin> set (concat input)" and "[] \<notin> set input" and "lines_fit (concat input)"
  shows "grep pat [] input = map (\<lambda>l. l @ [ch (CHR 0x0A)]) (filter (match pat) (full_lines (concat input)))"
  using grep_run [of "[]" input pat] assms by simp

theorem grep_prints_matching_lines_witness:
  "grep (map ch ''a$'') [] [map ch ''ba'', ch (CHR 0x0A) # map ch ''ab'', [ch (CHR 0x0A)]] = [map ch ''ba'' @ [ch (CHR 0x0A)]]"
proof -
  let ?in = "[map ch ''ba'', ch (CHR 0x0A) # map ch ''ab'', [ch (CHR 0x0A)]]"
  have f: "full_lines (concat ?in) = [map ch ''ba'', map ch ''ab'']" "last_part (concat ?in) = []"
    by (simp_all add: ch_def last_part_def)
  have m: "match (map ch ''a$'') (map ch ''ba'')" "\<not> match (map ch ''a$'') (map ch ''ab'')"
    by (simp_all add: ch_def match_def match_from.simps matchhere.simps matchstar.simps)
  have z: "0 \<notin> set (concat ?in)" "[] \<notin> set ?in" by (simp_all add: ch_def)
  have "lines_fit (concat ?in)" unfolding lines_fit_def f by simp
  from grep_prints_matching_lines [OF z this, of "map ch ''a$''"] show ?thesis unfolding f using m by simp
qed

end
