(* ===== verification/Sh.thy ===== *)
theory Sh
  imports Ulib
begin

text \<open>
  The command parser of the shell, \<open>user/sh.c\<close>. The line is the list \<open>src\<close> of its bytes; \<open>ps\<close> and the
  pointers into the line are positions, \<open>es\<close> is its length. A syntax error is the message that \<open>panic\<close>
  prints. The recursive functions take the number of nested calls that they may make; \<open>Out\<close> says that
  it was too small, which the bound chosen in \<open>parsecmd\<close> excludes.
\<close>

section \<open>Commands\<close>

definition MAXARGS :: nat where
  "MAXARGS = 10"

text \<open>The tree of \<open>struct cmd\<close>; \<open>'a\<close> is the type of a word, in the parser the pair of its start and end.\<close>

datatype 'a cmd =
    EXEC "'a list"
  | REDIR "'a cmd" 'a int int
  | PIPE "'a cmd" "'a cmd"
  | LIST "'a cmd" "'a cmd"
  | BACK "'a cmd"

type_synonym word_pos = "nat \<times> nat"

datatype 'a parsed = Got 'a nat | Err string | Out

primrec bindp :: "'a parsed \<Rightarrow> ('a \<Rightarrow> nat \<Rightarrow> 'b parsed) \<Rightarrow> 'b parsed" where
  "bindp (Got a s) f = f a s"
| "bindp (Err e) f = Err e"
| "bindp Out f = Out"

section \<open>Tokens\<close>

definition whitespace :: "u8 list" where
  "whitespace = map ch ('' '' @ [CHR 0x09, CHR 0x0D, CHR 0x0A, CHR 0x0B])"

definition symbols :: "u8 list" where
  "symbols = map ch ''<|>&;()''"

definition space_char :: "u8 \<Rightarrow> bool" where
  "space_char c \<longleftrightarrow> strchr_u whitespace c \<noteq> None"

definition symbol_char :: "u8 \<Rightarrow> bool" where
  "symbol_char c \<longleftrightarrow> strchr_u symbols c \<noteq> None"

text \<open>\<open>while(s < es && strchr(whitespace, *s)) s++\<close>, and the loop over the characters of a word.\<close>

definition skip :: "u8 list \<Rightarrow> nat \<Rightarrow> nat" where
  "skip src s = s + length (takeWhile space_char (drop s src))"

definition word_end :: "u8 list \<Rightarrow> nat \<Rightarrow> nat" where
  "word_end src s = s + length (takeWhile (\<lambda>c. \<not> space_char c \<and> \<not> symbol_char c) (drop s src))"

definition gettoken :: "u8 list \<Rightarrow> nat \<Rightarrow> u8 \<times> nat \<times> nat \<times> nat" where
  "gettoken src s =
     (let q = skip src s; c = at0 (drop q src);
          (r, eq) =
            (if c = 0 then (c, q)
             else if c \<in> {ch CHR ''|'', ch CHR ''('', ch CHR '')'', ch CHR '';'', ch CHR ''&'', ch CHR ''<''} then (c, q + 1)
             else if c = ch CHR ''>'' then
               if at0 (drop (q + 1) src) = ch CHR ''>'' then (ch CHR ''+'', q + 2) else (c, q + 1)
             else (ch CHR ''a'', word_end src q))
      in (r, q, eq, skip src eq))"

definition peek :: "u8 list \<Rightarrow> nat \<Rightarrow> string \<Rightarrow> nat \<times> bool" where
  "peek src s toks =
     (let q = skip src s; c = at0 (drop q src) in (q, c \<noteq> 0 \<and> strchr_u (map ch toks) c \<noteq> None))"

section \<open>Positions only grow\<close>

lemma skip_le: "s \<le> skip src s" "s \<le> length src \<Longrightarrow> skip src s \<le> length src"
  using length_takeWhile_le [of space_char "drop s src"] by (simp_all add: skip_def)

lemma word_end_le: "s \<le> word_end src s" "s \<le> length src \<Longrightarrow> word_end src s \<le> length src"
  using length_takeWhile_le [of "\<lambda>c. \<not> space_char c \<and> \<not> symbol_char c" "drop s src"] by (simp_all add: word_end_def)

lemma at0_drop: "at0 (drop q src) \<noteq> 0 \<Longrightarrow> q < length src \<and> at0 (drop q src) = src ! q"
  by (cases "q < length src") (auto simp: at0_def Cons_nth_drop_Suc [symmetric])

lemma skip_stops: "skip src s < length src \<Longrightarrow> \<not> space_char (src ! skip src s)"
  using nth_length_takeWhile [of space_char "drop s src"] by (simp add: skip_def)

lemma symbol_char_cases:
  "symbol_char c \<longleftrightarrow> c \<in> {ch CHR ''|'', ch CHR ''('', ch CHR '')'', ch CHR '';'', ch CHR ''&'', ch CHR ''<'', ch CHR ''>''}"
  by (auto simp: symbol_char_def symbols_def ch_def)

lemma word_end_advances:
  "q < length src \<Longrightarrow> \<not> space_char (src ! q) \<Longrightarrow> \<not> symbol_char (src ! q) \<Longrightarrow> q < word_end src q"
  by (simp add: word_end_def Cons_nth_drop_Suc [symmetric])

lemma gettoken_bounds:
  assumes "gettoken src s = (r, q, e, s')"
  shows "q = skip src s" "q \<le> e" "s' = skip src e" "s \<le> s'" "s \<le> length src \<Longrightarrow> s' \<le> length src"
    "at0 (drop q src) \<noteq> 0 \<Longrightarrow> q < e \<and> e \<le> length src"
proof -
  let ?c = "at0 (drop q src)"
  show q: "q = skip src s" and s': "s' = skip src e" using assms by (auto simp: gettoken_def Let_def split: if_splits)
  show "q \<le> e" using assms q word_end_le(1) by (auto simp: gettoken_def Let_def split: if_splits)
  then show "s \<le> s'" using q s' skip_le(1) le_trans by metis
  have adv: "q < e \<and> e \<le> length src" if c: "?c \<noteq> 0"
  proof -
    have l: "q < length src" "?c = src ! q" using at0_drop [OF c] by auto
    then have "\<not> space_char (src ! q)" using skip_stops q by auto
    then have w: "q < word_end src q" if "\<not> symbol_char ?c" using word_end_advances l that by simp
    have "at0 (drop (Suc q) src) = ch CHR ''>'' \<Longrightarrow> Suc q < length src" by (rule conjunct1 [OF at0_drop]) (simp add: ch_def)
    then show ?thesis
      using assms c l(1) w word_end_le(2) [of q src] q [symmetric]
      by (auto simp: gettoken_def Let_def symbol_char_cases split: if_splits)
  qed
  then show "?c \<noteq> 0 \<Longrightarrow> q < e \<and> e \<le> length src" .
  have "e \<le> length src" if "s \<le> length src"
    using assms adv skip_le(2) [OF that] q by (cases "?c = 0") (auto simp: gettoken_def Let_def)
  then show "s \<le> length src \<Longrightarrow> s' \<le> length src" using s' skip_le(2) by simp
qed

lemma peekD:
  assumes "peek src s toks = (q, b)"
  shows "q = skip src s" "s \<le> q" "s \<le> length src \<Longrightarrow> q \<le> length src" "b \<Longrightarrow> at0 (drop q src) \<noteq> 0"
  using assms skip_le by (auto simp: peek_def Let_def)

lemma skip_skip [simp]: "skip src (skip src s) = skip src s"
proof (cases "skip src s < length src")
  case True
  with skip_stops [OF True] show ?thesis by (simp add: skip_def [of _ "skip src s"] Cons_nth_drop_Suc [symmetric])
qed (simp add: skip_def [of _ "skip src s"])

text \<open>A token taken where \<open>peek\<close> has seen one.\<close>

lemma gettoken_peeked:
  assumes "peek src s toks = (p, True)" and "gettoken src p = (r, q, e, s')"
  shows "s < s'" "s' \<le> length src" "q = p"
proof -
  have p: "p = skip src s" "s \<le> p" "at0 (drop p src) \<noteq> 0" using peekD [OF assms(1)] by auto
  note g = gettoken_bounds [OF assms(2)]
  show "q = p" using g(1) p(1) by simp
  then have "p < e" "e \<le> length src" using g(6) p(3) by auto
  then show "s < s'" "s' \<le> length src" using p(2) g(3) skip_le [of e src] by auto
qed

lemma token_step:
  "(p, b) = peek src s toks \<Longrightarrow> b \<Longrightarrow> (r, q, e, s') = gettoken src p \<Longrightarrow> s < s' \<and> s' \<le> length src"
  using gettoken_peeked(1,2) [of src s toks p r q e s'] by (cases b) auto

section \<open>The parser\<close>

definition redir_of :: "u8 \<Rightarrow> word_pos \<Rightarrow> (word_pos \<times> int \<times> int) list" where
  "redir_of tok w =
     (if tok = ch CHR ''<'' then [(w, 0, 0)]
      else if tok = ch CHR ''>'' then [(w, 0x601, 1)]
      else if tok = ch CHR ''+'' then [(w, 0x201, 1)]
      else [])"

text \<open>The redirections that \<open>parseredirs\<close> wraps around the command, innermost first.\<close>

function parseredirs :: "u8 list \<Rightarrow> nat \<Rightarrow> (word_pos \<times> int \<times> int) list parsed" where
  "parseredirs src s =
     (case peek src s ''<>'' of (s, b) \<Rightarrow>
      if b then
        (case gettoken src s of (tok, _, _, s) \<Rightarrow>
         case gettoken src s of (t, q, eq, s) \<Rightarrow>
         if t \<noteq> ch CHR ''a'' then Err ''missing file for redirection''
         else bindp (parseredirs src s) (\<lambda>rs s. Got (redir_of tok (q, eq) @ rs) s))
      else Got [] s)"
  by pat_completeness auto
termination
  by (relation "measure (\<lambda>(src, s). length src - s)")
    (simp, clarify, drule (2) token_step, drule gettoken_bounds(4) [OF sym], auto)

declare parseredirs.simps [simp del]

text \<open>
  The loop of \<open>parseexec\<close> over arguments and redirections, with \<open>argc\<close> arguments so far. The structure
  \<open>cmd\<close> is filled in after redirections have been wrapped around it: the words go to the innermost
  command, in whatever order words and redirections come.
\<close>

function parseargs :: "u8 list \<Rightarrow> nat \<Rightarrow> nat \<Rightarrow> (word_pos list \<times> (word_pos \<times> int \<times> int) list) parsed" where
  "parseargs src argc s =
     (case peek src s ''|)&;'' of (s, b) \<Rightarrow>
      if b then Got ([], []) s
      else case gettoken src s of (tok, q, eq, s) \<Rightarrow>
        if tok = 0 then Got ([], []) s
        else if tok \<noteq> ch CHR ''a'' then Err ''syntax''
        else if argc + 1 \<ge> MAXARGS then Err ''too many args''
        else bindp (parseredirs src s) (\<lambda>rs s.
          bindp (parseargs src (argc + 1) s) (\<lambda>(ws, rs') s. Got ((q, eq) # ws, rs @ rs') s)))"
  by pat_completeness auto
termination by (relation "measure (\<lambda>(src, argc, s). MAXARGS - argc)") auto

declare parseargs.simps [simp del]

definition wrap :: "'a cmd \<Rightarrow> ('a \<times> int \<times> int) list \<Rightarrow> 'a cmd" where
  "wrap c rs = foldl (\<lambda>c (w, mode, fd). REDIR c w mode fd) c rs"

text \<open>\<open>while(peek(ps, es, "&"))\<close> of \<open>parseline\<close>.\<close>

function backs :: "u8 list \<Rightarrow> 'a cmd \<Rightarrow> nat \<Rightarrow> 'a cmd \<times> nat" where
  "backs src c s =
     (case peek src s ''&'' of (s, b) \<Rightarrow>
      if b then (case gettoken src s of (_, _, _, s) \<Rightarrow> backs src (BACK c) s) else (c, s))"
  by pat_completeness auto
termination
  by (relation "measure (\<lambda>(src, c, s). length src - s)") (simp, clarify, drule (2) token_step, auto)

declare backs.simps [simp del]

fun parseline :: "nat \<Rightarrow> u8 list \<Rightarrow> nat \<Rightarrow> word_pos cmd parsed"
  and parsepipe :: "nat \<Rightarrow> u8 list \<Rightarrow> nat \<Rightarrow> word_pos cmd parsed"
  and parseblock :: "nat \<Rightarrow> u8 list \<Rightarrow> nat \<Rightarrow> word_pos cmd parsed"
  and parseexec :: "nat \<Rightarrow> u8 list \<Rightarrow> nat \<Rightarrow> word_pos cmd parsed" where
  "parseline 0 src s = Out"
| "parseline (Suc n) src s =
     bindp (parsepipe n src s) (\<lambda>c s.
     case backs src c s of (c, s) \<Rightarrow>
     case peek src s '';'' of (s, b) \<Rightarrow>
     if b then
       (case gettoken src s of (_, _, _, s) \<Rightarrow>
        bindp (parseline n src s) (\<lambda>r s. Got (LIST c r) s))
     else Got c s)"
| "parsepipe 0 src s = Out"
| "parsepipe (Suc n) src s =
     bindp (parseexec n src s) (\<lambda>c s.
     case peek src s ''|'' of (s, b) \<Rightarrow>
     if b then
       (case gettoken src s of (_, _, _, s) \<Rightarrow>
        bindp (parsepipe n src s) (\<lambda>r s. Got (PIPE c r) s))
     else Got c s)"
| "parseblock 0 src s = Out"
| "parseblock (Suc n) src s =
     (case peek src s ''('' of (s, b) \<Rightarrow>
      if \<not> b then Err ''parseblock''
      else case gettoken src s of (_, _, _, s) \<Rightarrow>
        bindp (parseline n src s) (\<lambda>c s.
        case peek src s '')'' of (s, b) \<Rightarrow>
        if \<not> b then Err ''syntax - missing )''
        else case gettoken src s of (_, _, _, s) \<Rightarrow>
          bindp (parseredirs src s) (\<lambda>rs s. Got (wrap c rs) s)))"
| "parseexec 0 src s = Out"
| "parseexec (Suc n) src s =
     (case peek src s ''('' of (s, b) \<Rightarrow>
      if b then parseblock n src s
      else bindp (parseredirs src s) (\<lambda>rs s.
        bindp (parseargs src 0 s) (\<lambda>(ws, rs') s. Got (wrap (EXEC ws) (rs @ rs')) s)))"

text \<open>\<open>nulterminate\<close> stores a terminator after every word of the command.\<close>

primrec nulterminate :: "word_pos cmd \<Rightarrow> u8 list \<Rightarrow> u8 list" where
  "nulterminate (EXEC ws) buf = fold (\<lambda>(q, eq) buf. buf[eq := 0]) ws buf"
| "nulterminate (REDIR c w mode fd) buf = (nulterminate c buf)[snd w := 0]"
| "nulterminate (PIPE l r) buf = nulterminate r (nulterminate l buf)"
| "nulterminate (LIST l r) buf = nulterminate r (nulterminate l buf)"
| "nulterminate (BACK c) buf = nulterminate c buf"

text \<open>\<open>parsecmd\<close> gives the command and the buffer, the line with its terminator, as \<open>nulterminate\<close> leaves it.
  The text of the message about leftovers, printed before the panic, is not kept.\<close>

definition parsecmd :: "u8 list \<Rightarrow> (word_pos cmd \<times> u8 list) parsed" where
  "parsecmd src =
     bindp (parseline (4 * length src + 4) src 0) (\<lambda>c s.
     case peek src s [] of (s, _) \<Rightarrow>
     if s \<noteq> length src then Err ''syntax'' else Got (c, nulterminate c (src @ [0])) s)"

section \<open>Every line is parsed to a well-formed command or rejected\<close>

text \<open>A word is a maximal non-empty piece of the line without white space and symbols.\<close>

definition word_ok :: "u8 list \<Rightarrow> word_pos \<Rightarrow> bool" where
  "word_ok src = (\<lambda>(q, e). q < e \<and> e \<le> length src \<and> (\<forall>i. q \<le> i \<and> i < e \<longrightarrow> \<not> space_char (src ! i) \<and> \<not> symbol_char (src ! i)) \<and>
     (e < length src \<longrightarrow> space_char (src ! e) \<or> symbol_char (src ! e)))"

definition redir_ok :: "u8 list \<Rightarrow> word_pos \<times> int \<times> int \<Rightarrow> bool" where
  "redir_ok src = (\<lambda>(w, mode, fd). word_ok src w \<and> (mode, fd) \<in> {(0, 0), (0x601, 1), (0x201, 1)})"

primrec cmd_ok :: "u8 list \<Rightarrow> word_pos cmd \<Rightarrow> bool" where
  "cmd_ok src (EXEC ws) \<longleftrightarrow> length ws < MAXARGS \<and> (\<forall>w \<in> set ws. word_ok src w)"
| "cmd_ok src (REDIR c w mode fd) \<longleftrightarrow> cmd_ok src c \<and> redir_ok src (w, mode, fd)"
| "cmd_ok src (PIPE l r) \<longleftrightarrow> cmd_ok src l \<and> cmd_ok src r"
| "cmd_ok src (LIST l r) \<longleftrightarrow> cmd_ok src l \<and> cmd_ok src r"
| "cmd_ok src (BACK c) \<longleftrightarrow> cmd_ok src c"

text \<open>The outcome of a parsing function called at \<open>s\<close>: it returns, and a result satisfies \<open>P\<close>.\<close>

definition good :: "('a \<Rightarrow> bool) \<Rightarrow> u8 list \<Rightarrow> nat \<Rightarrow> 'a parsed \<Rightarrow> bool" where
  "good P src s r = (case r of Got a s' \<Rightarrow> s \<le> s' \<and> s' \<le> length src \<and> P a | Err e \<Rightarrow> True | Out \<Rightarrow> False)"

lemma good_simps [simp]:
  "good P src s (Got a s') \<longleftrightarrow> s \<le> s' \<and> s' \<le> length src \<and> P a" "good P src s (Err e)" "\<not> good P src s Out"
  by (simp_all add: good_def)

lemma good_bindp:
  assumes "good P src s r" and "\<And>a s'. s \<le> s' \<Longrightarrow> s' \<le> length src \<Longrightarrow> P a \<Longrightarrow> good Q src s' (f a s')"
  shows "good Q src s (bindp r f)"
proof (cases r)
  case (Got a s')
  with assms have "good Q src s' (f a s')" "s \<le> s'" by auto
  then show ?thesis using Got by (cases "f a s'") auto
qed (use assms(1) in simp_all)

lemma good_mono: "good P src s' r \<Longrightarrow> s \<le> s' \<Longrightarrow> good P src s r"
  by (cases r) auto

lemma gettoken_word:
  assumes "gettoken src s = (ch CHR ''a'', q, e, s')"
  shows "word_ok src (q, e)"
proof -
  let ?P = "\<lambda>c. \<not> space_char c \<and> \<not> symbol_char c" and ?c = "at0 (drop q src)"
  have ne: "ch CHR ''a'' \<notin> {0, ch CHR ''|'', ch CHR ''('', ch CHR '')'', ch CHR '';'', ch CHR ''&'', ch CHR ''<'', ch CHR ''>'', ch CHR ''+''}"
    by (simp add: ch_def)
  have q: "q = skip src s" by (rule gettoken_bounds(1) [OF assms])
  then have c: "?c \<noteq> 0" "e = word_end src q" using assms ne by (auto simp: gettoken_def Let_def split: if_splits)
  have l: "q < e" "e \<le> length src" using gettoken_bounds(6) [OF assms c(1)] by auto
  have "?P (src ! i)" if i: "q \<le> i" "i < e" for i
  proof -
    have k: "i - q < length (takeWhile ?P (drop q src))" using i by (simp add: c(2) word_end_def)
    then have "takeWhile ?P (drop q src) ! (i - q) = src ! i" using i l by (simp add: takeWhile_nth)
    then show ?thesis using nth_mem [OF k] set_takeWhileD by metis
  qed
  moreover have "\<not> ?P (src ! e)" if "e < length src"
    using nth_length_takeWhile [of ?P "drop q src"] that l by (simp add: c(2) word_end_def)
  ultimately show ?thesis using l by (auto simp: word_ok_def)
qed

lemma redir_of_ok: "word_ok src w \<Longrightarrow> \<forall>r \<in> set (redir_of tok w). redir_ok src r"
  by (simp add: redir_of_def redir_ok_def)

lemma parseredirs_good: "s \<le> length src \<Longrightarrow> good (\<lambda>rs. \<forall>r \<in> set rs. redir_ok src r) src s (parseredirs src s)"
proof (induction src s rule: parseredirs.induct)
  case (1 src s)
  obtain s1 b where p: "peek src s ''<>'' = (s1, b)" by fastforce
  obtain tok x y s2 where g: "gettoken src s1 = (tok, x, y, s2)" by (metis prod_cases4)
  obtain t q e s3 where h: "gettoken src s2 = (t, q, e, s3)" by (metis prod_cases4)
  show ?case
  proof (cases "b \<and> t = ch CHR ''a''")
    case True
    have s2: "s < s2" "s2 \<le> length src" using gettoken_peeked(1,2) [of src s "''<>''" s1] p g True by auto
    then have s3: "s2 \<le> s3" "s3 \<le> length src" using gettoken_bounds(4,5) [OF h] by auto
    have "good (\<lambda>rs. \<forall>r \<in> set rs. redir_ok src r) src s3 (parseredirs src s3)"
      using "1.IH" p g h True s3(2) by auto
    then have "good (\<lambda>rs. \<forall>r \<in> set rs. redir_ok src r) src s3 (bindp (parseredirs src s3) (\<lambda>rs s. Got (redir_of tok (q, e) @ rs) s))"
      by (rule good_bindp) (use redir_of_ok [of src "(q, e)" tok] gettoken_word [of src s2 q e s3] h True in auto)
    then show ?thesis using p g h True s2 s3 by (subst parseredirs.simps) (auto elim: good_mono)
  qed (use p g h peekD [OF p] 1(2) in \<open>subst parseredirs.simps, auto\<close>)
qed

abbreviation args_ok :: "u8 list \<Rightarrow> nat \<Rightarrow> word_pos list \<times> (word_pos \<times> int \<times> int) list \<Rightarrow> bool" where
  "args_ok src k \<equiv> \<lambda>(ws, rs). k + length ws < MAXARGS \<and> (\<forall>w \<in> set ws. word_ok src w) \<and> (\<forall>r \<in> set rs. redir_ok src r)"

lemma parseargs_good: "s \<le> length src \<Longrightarrow> k < MAXARGS \<Longrightarrow> good (args_ok src k) src s (parseargs src k s)"
proof (induction src k s rule: parseargs.induct)
  case (1 src k s)
  obtain s1 b where p: "peek src s ''|)&;'' = (s1, b)" by fastforce
  obtain t q e s2 where g: "gettoken src s1 = (t, q, e, s2)" by (metis prod_cases4)
  have s1: "s \<le> s1" "s1 \<le> length src" using peekD [OF p] 1(2) by auto
  have s2: "s1 \<le> s2" "s2 \<le> length src" using gettoken_bounds(4,5) [OF g] s1 by auto
  show ?case
  proof (cases "\<not> b \<and> t = ch CHR ''a'' \<and> k + 1 < MAXARGS")
    case True
    have t: "t \<noteq> 0" using True by (simp add: ch_def)
    have "good (args_ok src k) src s2 (bindp (parseredirs src s2) (\<lambda>rs s.
        bindp (parseargs src (k + 1) s) (\<lambda>(ws, rs') s. Got ((q, e) # ws, rs @ rs') s)))"
    proof (rule good_bindp [OF parseredirs_good [OF s2(2)]])
      fix rs s3 assume s3: "s2 \<le> s3" "s3 \<le> length src" and rs: "\<forall>r \<in> set rs. redir_ok src r"
      have "good (args_ok src (k + 1)) src s3 (parseargs src (k + 1) s3)"
        using "1.IH" [OF p [symmetric] _ g [symmetric] refl refl] True t s3(2) by auto
      then show "good (args_ok src k) src s3 (bindp (parseargs src (k + 1) s3) (\<lambda>(ws, rs') s. Got ((q, e) # ws, rs @ rs') s))"
        by (rule good_bindp) (use gettoken_word g True rs in auto)
    qed
    then show ?thesis using p g True t s1 s2 by (subst parseargs.simps) (auto elim: good_mono)
  qed (use p g s1 s2 1(3) in \<open>subst parseargs.simps, auto\<close>)
qed

lemma wrap_ok: "cmd_ok src c \<Longrightarrow> \<forall>r \<in> set rs. redir_ok src r \<Longrightarrow> cmd_ok src (wrap c rs)"
  by (induction rs arbitrary: c) (auto simp: wrap_def)

lemma backs_good:
  "s \<le> length src \<Longrightarrow> cmd_ok src c \<Longrightarrow> backs src c s = (c', s') \<Longrightarrow> s \<le> s' \<and> s' \<le> length src \<and> cmd_ok src c'"
proof (induction src c s rule: backs.induct)
  case (1 src c s)
  obtain s1 b where p: "peek src s ''&'' = (s1, b)" by fastforce
  obtain t q e s2 where g: "gettoken src s1 = (t, q, e, s2)" by (metis prod_cases4)
  show ?case
  proof (cases b)
    case True
    have s2: "s < s2" "s2 \<le> length src" using gettoken_peeked(1,2) [of src s "''&''" s1] p g True by auto
    have "backs src (BACK c) s2 = (c', s')" using "1.prems"(3) p g True by (subst (asm) backs.simps) simp
    then have "s2 \<le> s' \<and> s' \<le> length src \<and> cmd_ok src c'"
      using "1.IH" [OF p [symmetric] True g [symmetric] refl refl] s2 "1.prems"(2) by simp
    then show ?thesis using s2 by simp
  next
    case False
    then have "c' = c" "s' = s1" using "1.prems"(3) p by (auto simp: backs.simps [of src c s])
    then show ?thesis using peekD [OF p] "1.prems" by simp
  qed
qed

text \<open>
  Each function for a line \<open>src\<close>, given that the calls it makes are good. The calls that a function may
  need are four for every character of the rest of the line, and those of the functions in between.
\<close>

lemma parseline_good:
  assumes pipe: "\<And>s. s \<le> length src \<Longrightarrow> 4 * (length src - s) + 3 \<le> n \<Longrightarrow> good (cmd_ok src) src s (parsepipe n src s)"
    and line: "\<And>s. s \<le> length src \<Longrightarrow> 4 * (length src - s) + 4 \<le> n \<Longrightarrow> good (cmd_ok src) src s (parseline n src s)"
    and s: "s \<le> length src" "4 * (length src - s) + 4 \<le> Suc n"
  shows "good (cmd_ok src) src s (parseline (Suc n) src s)"
proof -
  have "good (cmd_ok src) src s (parsepipe n src s)" using pipe s by simp
  then show ?thesis unfolding parseline.simps
  proof (rule good_bindp)
    fix c s0 assume s0: "s \<le> s0" "s0 \<le> length src" and c: "cmd_ok src c"
    obtain c' s1 where b: "backs src c s0 = (c', s1)" by fastforce
    then have s1: "s0 \<le> s1" "s1 \<le> length src" "cmd_ok src c'" using backs_good [OF s0(2) c b] by simp_all
    obtain s2 m where p: "peek src s1 '';'' = (s2, m)" by fastforce
    obtain t q e s3 where g: "gettoken src s2 = (t, q, e, s3)" by (metis prod_cases4)
    show "good (cmd_ok src) src s0 (case backs src c s0 of (c, s) \<Rightarrow> case peek src s '';'' of (s, b) \<Rightarrow>
        if b then (case gettoken src s of (_, _, _, s) \<Rightarrow> bindp (parseline n src s) (\<lambda>r s. Got (LIST c r) s)) else Got c s)"
    proof (cases m)
      case True
      have s3: "s1 < s3" "s3 \<le> length src" using gettoken_peeked(1,2) [of src s1 "'';''" s2] p g True by auto
      have "good (cmd_ok src) src s3 (parseline n src s3)" using s s0 s1 s3 by (intro line) auto
      then have "good (cmd_ok src) src s3 (bindp (parseline n src s3) (\<lambda>r s. Got (LIST c' r) s))"
        by (rule good_bindp) (use s1 in simp)
      then have "good (cmd_ok src) src s0 (bindp (parseline n src s3) (\<lambda>r s. Got (LIST c' r) s))"
        by (rule good_mono) (use s1 s3 in simp)
      then show ?thesis using b p g True by simp
    qed (use b p s1 peekD [OF p] in simp)
  qed
qed

lemma parsepipe_good:
  assumes exec: "\<And>s. s \<le> length src \<Longrightarrow> 4 * (length src - s) + 2 \<le> n \<Longrightarrow> good (cmd_ok src) src s (parseexec n src s)"
    and pipe: "\<And>s. s \<le> length src \<Longrightarrow> 4 * (length src - s) + 3 \<le> n \<Longrightarrow> good (cmd_ok src) src s (parsepipe n src s)"
    and s: "s \<le> length src" "4 * (length src - s) + 3 \<le> Suc n"
  shows "good (cmd_ok src) src s (parsepipe (Suc n) src s)"
proof -
  have "good (cmd_ok src) src s (parseexec n src s)" using exec s by simp
  then show ?thesis unfolding parsepipe.simps
  proof (rule good_bindp)
    fix c s1 assume s1: "s \<le> s1" "s1 \<le> length src" and c: "cmd_ok src c"
    obtain s2 m where p: "peek src s1 ''|'' = (s2, m)" by fastforce
    obtain t q e s3 where g: "gettoken src s2 = (t, q, e, s3)" by (metis prod_cases4)
    show "good (cmd_ok src) src s1 (case peek src s1 ''|'' of (s, b) \<Rightarrow>
        if b then (case gettoken src s of (_, _, _, s) \<Rightarrow> bindp (parsepipe n src s) (\<lambda>r s. Got (PIPE c r) s)) else Got c s)"
    proof (cases m)
      case True
      have s3: "s1 < s3" "s3 \<le> length src" using gettoken_peeked(1,2) [of src s1 "''|''" s2] p g True by auto
      have "good (cmd_ok src) src s3 (parsepipe n src s3)" using s s1 s3 by (intro pipe) auto
      then have "good (cmd_ok src) src s3 (bindp (parsepipe n src s3) (\<lambda>r s. Got (PIPE c r) s))"
        by (rule good_bindp) (use c in simp)
      then have "good (cmd_ok src) src s1 (bindp (parsepipe n src s3) (\<lambda>r s. Got (PIPE c r) s))"
        by (rule good_mono) (use s3 in simp)
      then show ?thesis using p g True by simp
    qed (use p s1 c peekD [OF p] in simp)
  qed
qed

lemma closeblock_good:
  assumes "s \<le> length src" and c: "cmd_ok src c"
  shows "good (cmd_ok src) src s (case peek src s '')'' of (s, b) \<Rightarrow>
        if \<not> b then Err ''syntax - missing )''
        else case gettoken src s of (_, _, _, s) \<Rightarrow> bindp (parseredirs src s) (\<lambda>rs s. Got (wrap c rs) s))"
proof -
  obtain s1 b where p: "peek src s '')'' = (s1, b)" by fastforce
  obtain t q e s2 where g: "gettoken src s1 = (t, q, e, s2)" by (metis prod_cases4)
  show ?thesis
  proof (cases b)
    case True
    have s2: "s < s2" "s2 \<le> length src" using gettoken_peeked(1,2) [of src s "'')''" s1] p g True by auto
    have "good (cmd_ok src) src s2 (bindp (parseredirs src s2) (\<lambda>rs s. Got (wrap c rs) s))"
      by (rule good_bindp [OF parseredirs_good [OF s2(2)]]) (use c wrap_ok in simp)
    then have "good (cmd_ok src) src s (bindp (parseredirs src s2) (\<lambda>rs s. Got (wrap c rs) s))"
      by (rule good_mono) (use s2 in simp)
    then show ?thesis using p g True by simp
  qed (use p in simp)
qed

lemma parseblock_good:
  assumes line: "\<And>s. s \<le> length src \<Longrightarrow> 4 * (length src - s) + 4 \<le> n \<Longrightarrow> good (cmd_ok src) src s (parseline n src s)"
    and s: "s \<le> length src" "4 * (length src - s) + 1 \<le> Suc n"
  shows "good (cmd_ok src) src s (parseblock (Suc n) src s)"
proof -
  obtain s1 b where p: "peek src s ''('' = (s1, b)" by fastforce
  obtain t q e s2 where g: "gettoken src s1 = (t, q, e, s2)" by (metis prod_cases4)
  show ?thesis
  proof (cases b)
    case True
    let ?r = "bindp (parseline n src s2) (\<lambda>c s. case peek src s '')'' of (s, b) \<Rightarrow>
        if \<not> b then Err ''syntax - missing )''
        else case gettoken src s of (_, _, _, s) \<Rightarrow> bindp (parseredirs src s) (\<lambda>rs s. Got (wrap c rs) s))"
    have s2: "s < s2" "s2 \<le> length src" using gettoken_peeked(1,2) [of src s "''(''" s1] p g True by auto
    have "good (cmd_ok src) src s2 (parseline n src s2)" using s s2 by (intro line) auto
    then have "good (cmd_ok src) src s2 ?r" by (rule good_bindp) (rule closeblock_good)
    then have "good (cmd_ok src) src s ?r" by (rule good_mono) (use s2 in simp)
    then show ?thesis using p g True by simp
  qed (use p in simp)
qed

lemma parseexec_good:
  assumes block: "\<And>s. s \<le> length src \<Longrightarrow> 4 * (length src - s) + 1 \<le> n \<Longrightarrow> good (cmd_ok src) src s (parseblock n src s)"
    and s: "s \<le> length src" "4 * (length src - s) + 2 \<le> Suc n"
  shows "good (cmd_ok src) src s (parseexec (Suc n) src s)"
proof -
  obtain s1 b where p: "peek src s ''('' = (s1, b)" by fastforce
  have s1: "s \<le> s1" "s1 \<le> length src" using peekD [OF p] s by auto
  have "good (cmd_ok src) src s1 (parseblock n src s1)" using s s1 by (intro block) auto
  moreover have "good (cmd_ok src) src s1 (bindp (parseredirs src s1) (\<lambda>rs s.
      bindp (parseargs src 0 s) (\<lambda>(ws, rs') s. Got (wrap (EXEC ws) (rs @ rs')) s)))"
  proof (rule good_bindp [OF parseredirs_good [OF s1(2)]])
    fix rs s2 assume "s1 \<le> s2" "s2 \<le> length src" and rs: "\<forall>r \<in> set rs. redir_ok src r"
    then have "good (args_ok src 0) src s2 (parseargs src 0 s2)" by (intro parseargs_good) (simp_all add: MAXARGS_def)
    then show "good (cmd_ok src) src s2 (bindp (parseargs src 0 s2) (\<lambda>(ws, rs') s. Got (wrap (EXEC ws) (rs @ rs')) s))"
      by (rule good_bindp) (use rs in \<open>auto intro!: wrap_ok\<close>)
  qed
  ultimately have "good (cmd_ok src) src s1 (parseexec (Suc n) src s)" using p by simp
  then show ?thesis by (rule good_mono) (rule s1(1))
qed

lemma parse_good:
  "s \<le> length src \<Longrightarrow> 4 * (length src - s) + 4 \<le> n \<Longrightarrow> good (cmd_ok src) src s (parseline n src s)"
  "s \<le> length src \<Longrightarrow> 4 * (length src - s) + 3 \<le> n \<Longrightarrow> good (cmd_ok src) src s (parsepipe n src s)"
  "s \<le> length src \<Longrightarrow> 4 * (length src - s) + 1 \<le> n \<Longrightarrow> good (cmd_ok src) src s (parseblock n src s)"
  "s \<le> length src \<Longrightarrow> 4 * (length src - s) + 2 \<le> n \<Longrightarrow> good (cmd_ok src) src s (parseexec n src s)"
proof (induction n arbitrary: s)
  case (Suc n)
  {
    case 1
    then show ?case using Suc.IH by (intro parseline_good) simp_all
  next
    case 2
    then show ?case using Suc.IH by (intro parsepipe_good) simp_all
  next
    case 3
    then show ?case using Suc.IH by (intro parseblock_good) simp_all
  next
    case 4
    then show ?case using Suc.IH by (intro parseexec_good) simp_all
  }
qed simp_all

lemma parsecmd_good:
  "(\<exists>c. parsecmd src = Got (c, nulterminate c (src @ [0])) (length src) \<and> cmd_ok src c) \<or> (\<exists>e. parsecmd src = Err e)"
proof -
  have "good (cmd_ok src) src 0 (parseline (4 * length src + 4) src 0)" by (rule parse_good(1)) simp_all
  then show ?thesis by (cases "parseline (4 * length src + 4) src 0") (auto simp: parsecmd_def split: prod.splits)
qed

text \<open>
  C32. The parser of the shell ends on every command line: it rejects the line with a message, or returns
  a command tree at the end of the line in which every word is a maximal piece of the line without
  white space and symbols, every program has fewer than \<open>MAXARGS\<close> arguments, and every redirection
  opens descriptor 0 for reading or descriptor 1 for writing.
\<close>

theorem parsecmd_total:
  "(\<exists>c buf. parsecmd src = Got (c, buf) (length src) \<and> cmd_ok src c) \<or> (\<exists>e. parsecmd src = Err e)"
  using parsecmd_good [of src] by blast

section \<open>The words that the program gets\<close>

primrec cmd_words :: "'a cmd \<Rightarrow> 'a list" where
  "cmd_words (EXEC ws) = ws"
| "cmd_words (REDIR c w mode fd) = w # cmd_words c"
| "cmd_words (PIPE l r) = cmd_words l @ cmd_words r"
| "cmd_words (LIST l r) = cmd_words l @ cmd_words r"
| "cmd_words (BACK c) = cmd_words c"

lemma fold_stop:
  fixes ws :: "word_pos list" and buf :: "u8 list"
  shows "length (fold (\<lambda>(q, e) buf. buf[e := 0]) ws buf) = length buf"
    and "i < length buf \<Longrightarrow> fold (\<lambda>(q, e) buf. buf[e := 0]) ws buf ! i = (if i \<in> set (map snd ws) then 0 else buf ! i)"
proof (induction ws arbitrary: buf)
  case (Cons w ws)
  obtain q e where w: "w = (q, e)" by fastforce
  {
    case 1
    show ?case using Cons.IH(1) by (simp add: w)
  next
    case 2
    then show ?case using Cons.IH(2) [of "buf[e := 0]"] by (simp add: w nth_list_update)
  }
qed simp_all

lemma nulterminate_length [simp]: "length (nulterminate c buf) = length buf"
  by (induction c arbitrary: buf) (simp_all add: fold_stop(1))

lemma nulterminate_nth:
  "i < length buf \<Longrightarrow> nulterminate c buf ! i = (if i \<in> set (map snd (cmd_words c)) then 0 else buf ! i)"
proof (induction c arbitrary: buf)
  case (EXEC ws)
  then show ?case using fold_stop(2) [of i buf ws] by simp
next
  case (REDIR c w mode fd)
  then show ?case by (cases "snd w = i") simp_all
qed simp_all

lemma cmd_ok_words: "cmd_ok src c \<Longrightarrow> w \<in> set (cmd_words c) \<Longrightarrow> word_ok src w"
  by (induction c) (auto simp: redir_ok_def)

text \<open>
  C33. After \<open>nulterminate\<close> every word of the command is, as a C string in the buffer, exactly its piece of
  the command line: no terminator falls into another word.
\<close>

theorem nulterminate_words:
  assumes "parsecmd src = Got (c, buf) s" and "0 \<notin> set src" and "(q, e) \<in> set (cmd_words c)"
  shows "takeWhile (\<lambda>x. x \<noteq> 0) (drop q buf) = take (e - q) (drop q src)"
proof -
  let ?b = "nulterminate c (src @ [0])"
  have c: "cmd_ok src c" "buf = ?b" using parsecmd_good [of src] assms(1) by auto
  have w: "q < e" "e \<le> length src" "\<And>i. q \<le> i \<Longrightarrow> i < e \<Longrightarrow> \<not> space_char (src ! i) \<and> \<not> symbol_char (src ! i)"
    using cmd_ok_words [OF c(1) assms(3)] by (auto simp: word_ok_def)
  have keep: "?b ! i = src ! i" if i: "q \<le> i" "i < e" for i
  proof -
    have "i \<notin> set (map snd (cmd_words c))"
    proof
      assume "i \<in> set (map snd (cmd_words c))"
      then obtain p where "(p, i) \<in> set (cmd_words c)" by auto
      then have "word_ok src (p, i)" by (rule cmd_ok_words [OF c(1)])
      then show False using w(2) w(3) [OF i] i by (auto simp: word_ok_def)
    qed
    then show ?thesis using nulterminate_nth [of i "src @ [0]" c] i w(2) by (simp add: nth_append)
  qed
  have stop: "?b ! e = 0"
  proof -
    have "e \<in> set (map snd (cmd_words c))" using assms(3) by force
    then show ?thesis using nulterminate_nth [of e "src @ [0]" c] w(2) by simp
  qed
  have "take (e - q) (drop q ?b) = take (e - q) (drop q src)"
    by (rule nth_equalityI) (use w(1,2) keep in simp_all)
  moreover have "drop (e - q) (drop q ?b) = 0 # drop (Suc e) ?b"
    using stop w(1,2) Cons_nth_drop_Suc [of e ?b] by simp
  ultimately have split: "drop q ?b = take (e - q) (drop q src) @ 0 # drop (Suc e) ?b"
    by (metis append_take_drop_id)
  have "0 \<notin> set (take (e - q) (drop q src))" using assms(2) by (metis in_set_dropD in_set_takeD)
  then show ?thesis unfolding c(2) split by (simp add: takeWhile_none)
qed

lemma demo_parse:
  "parsecmd (map ch ''a>b'') = Got (REDIR (EXEC [(0, 1)]) (2, 3) 0x601 1, [ch CHR ''a'', 0, ch CHR ''b'', 0]) 3"
  by code_simp

theorem nulterminate_words_witness:
  "\<exists>c buf. parsecmd (map ch ''a>b'') = Got (c, buf) 3 \<and> cmd_words c = [(2, 3), (0, 1)] \<and>
     takeWhile (\<lambda>x. x \<noteq> 0) (drop 2 buf) = [ch CHR ''b'']"
proof -
  have "0 \<notin> set (map ch ''a>b'')" by (simp add: ch_def)
  then have "takeWhile (\<lambda>x. x \<noteq> 0) (drop 2 [ch CHR ''a'', 0, ch CHR ''b'', 0]) = take (3 - 2) (drop 2 (map ch ''a>b''))"
    by (rule nulterminate_words [OF demo_parse]) simp
  then show ?thesis using demo_parse by (intro exI conjI) (assumption, simp_all)
qed

end
