(* ===== verification/Umalloc.thy ===== *)
theory Umalloc
  imports Prelude
begin

text \<open>
  The allocator of the user programs, \<open>user/umalloc.c\<close>. Addresses and sizes count units of
  \<open>sizeof(Header)\<close>, 16 bytes: every header starts at a multiple of it. The heap maps the address of a
  header to its fields \<open>s.ptr\<close> and \<open>s.size\<close>. The kernel's \<open>sbrk\<close> is the parameter \<open>grant\<close>, which says
  whether the break may be moved by a number of bytes. The theorem follows any program that gets its
  memory from \<open>malloc\<close>: its blocks never overlap and no unit is lost.
\<close>

section \<open>The allocator\<close>

record heap =
  hptr :: "int \<Rightarrow> int"
  hsize :: "int \<Rightarrow> int"
  freep :: "int option"
  hbase :: int
  brk :: int

partial_function (option) free_find :: "heap \<Rightarrow> int \<Rightarrow> int \<Rightarrow> int option" where
  "free_find h bp p =
     (if bp > p \<and> bp < hptr h p then Some p
      else if p \<ge> hptr h p \<and> (bp > p \<or> bp < hptr h p) then Some p
      else free_find h bp (hptr h p))"

declare free_find.simps [code]

definition free_link :: "int \<Rightarrow> int \<Rightarrow> heap \<Rightarrow> heap" where
  "free_link bp p h =
     (let h = (if bp + hsize h bp = hptr h p
          then h\<lparr>hsize := (hsize h)(bp := hsize h bp + hsize h (hptr h p)), hptr := (hptr h)(bp := hptr h (hptr h p))\<rparr>
          else h\<lparr>hptr := (hptr h)(bp := hptr h p)\<rparr>);
        h = (if p + hsize h p = bp
          then h\<lparr>hsize := (hsize h)(p := hsize h p + hsize h bp), hptr := (hptr h)(p := hptr h bp)\<rparr>
          else h\<lparr>hptr := (hptr h)(p := bp)\<rparr>)
      in h\<lparr>freep := Some p\<rparr>)"

text \<open>\<open>free\<close>; \<open>None\<close> is a search that does not end or a null \<open>freep\<close>.\<close>

definition ufree :: "int \<Rightarrow> heap \<Rightarrow> heap option" where
  "ufree ap h =
     (case freep h of
        None \<Rightarrow> None
      | Some p0 \<Rightarrow> map_option (\<lambda>p. free_link (ap - 1) p h) (free_find h (ap - 1) p0))"

text \<open>\<open>sbrk\<close> takes an \<open>int\<close> number of bytes.\<close>

definition sbrk :: "(int \<Rightarrow> int \<Rightarrow> bool) \<Rightarrow> int \<Rightarrow> heap \<Rightarrow> int option \<times> heap" where
  "sbrk grant n h = (if grant (brk h) n then (Some (brk h), h\<lparr>brk := brk h + n div 16\<rparr>) else (None, h))"

definition morecore :: "(int \<Rightarrow> int \<Rightarrow> bool) \<Rightarrow> int \<Rightarrow> heap \<Rightarrow> (int option \<times> heap) option" where
  "morecore grant nu h =
     (let nu = (if nu < 4096 then 4096 else nu)
      in case sbrk grant (sint (word_of_int (nu * 16) :: u32)) h of
           (None, h) \<Rightarrow> Some (None, h)
         | (Some p, h) \<Rightarrow>
             map_option (\<lambda>h. (freep h, h)) (ufree (p + 1) (h\<lparr>hsize := (hsize h)(p := nu)\<rparr>)))"

text \<open>The block taken from \<open>p\<close>, the whole block or its tail, and the loop over the ring.\<close>

definition carve :: "int \<Rightarrow> int \<Rightarrow> int \<Rightarrow> heap \<Rightarrow> int \<times> heap" where
  "carve nunits prevp p h =
     (if hsize h p = nunits then (p, h\<lparr>hptr := (hptr h)(prevp := hptr h p), freep := Some prevp\<rparr>)
      else let k = hsize h p - nunits
        in (p + k, h\<lparr>hsize := (hsize h)(p := k, p + k := nunits), freep := Some prevp\<rparr>))"

partial_function (option) malloc_loop ::
  "(int \<Rightarrow> int \<Rightarrow> bool) \<Rightarrow> int \<Rightarrow> int \<Rightarrow> int \<Rightarrow> heap \<Rightarrow> (int option \<times> heap) option" where
  "malloc_loop grant nunits prevp p h =
     (if hsize h p \<ge> nunits then Some (case carve nunits prevp p h of (q, h) \<Rightarrow> (Some (q + 1), h))
      else if Some p = freep h
      then Option.bind (morecore grant nunits h) (\<lambda>(r, h).
        case r of None \<Rightarrow> Some (None, h) | Some q \<Rightarrow> malloc_loop grant nunits q (hptr h q) h)
      else malloc_loop grant nunits p (hptr h p) h)"

declare malloc_loop.simps [code]

definition units :: "nat \<Rightarrow> int" where
  "units nbytes = (int nbytes + 16 - 1) div 16 + 1"

definition malloc :: "(int \<Rightarrow> int \<Rightarrow> bool) \<Rightarrow> nat \<Rightarrow> heap \<Rightarrow> (int option \<times> heap) option" where
  "malloc grant nbytes h =
     (let (prevp, h) =
        (case freep h of
           None \<Rightarrow> (hbase h, h\<lparr>hptr := (hptr h)(hbase h := hbase h), freep := Some (hbase h), hsize := (hsize h)(hbase h := 0)\<rparr>)
         | Some f \<Rightarrow> (f, h))
      in malloc_loop grant (units nbytes) prevp (hptr h prevp) h)"

section \<open>The ring of free blocks\<close>

primrec seg :: "(int \<Rightarrow> int) \<Rightarrow> int \<Rightarrow> int list \<Rightarrow> int \<Rightarrow> bool" where
  "seg f a [] b \<longleftrightarrow> a = b"
| "seg f a (x # xs) b \<longleftrightarrow> a = x \<and> seg f (f x) xs b"

lemma seg_append: "seg f a (xs @ ys) b \<longleftrightarrow> (\<exists>c. seg f a xs c \<and> seg f c ys b)"
  by (induction xs arbitrary: a) auto

lemma seg_cong: "\<forall>x \<in> set xs. f x = g x \<Longrightarrow> seg f a xs b = seg g a xs b"
  by (induction xs arbitrary: a) auto

text \<open>Blocks of sizes \<open>f\<close> that neither overlap nor touch, and the units they hold.\<close>

primrec gaps :: "(int \<Rightarrow> int) \<Rightarrow> int list \<Rightarrow> bool" where
  "gaps f [] \<longleftrightarrow> True"
| "gaps f (x # xs) \<longleftrightarrow> (\<forall>y \<in> set xs. x + f x < y) \<and> gaps f xs"

lemma gaps_append: "gaps f (xs @ ys) \<longleftrightarrow> gaps f xs \<and> gaps f ys \<and> (\<forall>x \<in> set xs. \<forall>y \<in> set ys. x + f x < y)"
  by (induction xs) auto

definition block :: "int \<Rightarrow> int \<Rightarrow> int set" where
  "block b n = {b..<b + n}"

definition units_of :: "(int \<Rightarrow> int) \<Rightarrow> int list \<Rightarrow> int set" where
  "units_of f bs = (\<Union>b \<in> set bs. block b (f b))"

lemma units_of_simps [simp]:
  "units_of f [] = {}" "units_of f (x # xs) = block x (f x) \<union> units_of f xs" "units_of f (xs @ ys) = units_of f xs \<union> units_of f ys"
  by (auto simp: units_of_def)

text \<open>
  The free blocks in the order of their addresses, \<open>hbase\<close> with its empty block first: linked in a
  ring, not overlapping and not adjacent, below the break.
\<close>

definition ring :: "heap \<Rightarrow> int list \<Rightarrow> bool" where
  "ring h bs \<longleftrightarrow> bs \<noteq> [] \<and> seg (hptr h) (hbase h) bs (hbase h) \<and> hsize h (hbase h) = 0 \<and> gaps (hsize h) bs \<and>
     (\<forall>b \<in> set bs. b \<noteq> hbase h \<longrightarrow> 0 < hsize h b \<and> b + hsize h b \<le> brk h) \<and> hbase h < brk h \<and>
     (\<exists>f \<in> set bs. freep h = Some f)"

definition free_units :: "heap \<Rightarrow> int list \<Rightarrow> int set" where
  "free_units h bs = units_of (hsize h) bs"

text \<open>Rotating the ring.\<close>

lemma ring_rotate: "seg f a (us @ p # vs) a \<Longrightarrow> seg f p (p # vs @ us) p"
  by (auto simp: seg_append)

lemma ring_size: "ring h bs \<Longrightarrow> b \<in> set bs \<Longrightarrow> 0 \<le> hsize h b"
  unfolding ring_def by fastforce

lemma ring_sorted: "ring h bs \<Longrightarrow> sorted_wrt (<) bs"
proof -
  assume r: "ring h bs"
  then have "gaps (hsize h) bs" "\<forall>b \<in> set bs. 0 \<le> hsize h b" using ring_size by (auto simp: ring_def)
  then show ?thesis by (induction bs) fastforce+
qed

lemma ring_base: "ring h bs \<Longrightarrow> b \<in> set bs \<Longrightarrow> b = hbase h \<or> hbase h < b \<and> 0 < hsize h b \<and> b + hsize h b \<le> brk h"
  using ring_sorted [of h bs] by (cases bs) (auto simp: ring_def)

text \<open>The successor of a block, in a list split at it.\<close>

lemma ring_next:
  assumes "ring h (us @ p # vs)"
  shows "hptr h p = (if vs = [] then hbase h else hd vs)"
  using assms by (cases vs) (auto simp: ring_def seg_append)

section \<open>free\<close>

text \<open>The test that ends the search of \<open>free\<close>.\<close>

definition found :: "heap \<Rightarrow> int \<Rightarrow> int \<Rightarrow> bool" where
  "found h bp p \<longleftrightarrow> bp > p \<and> bp < hptr h p \<or> p \<ge> hptr h p \<and> (bp > p \<or> bp < hptr h p)"

lemma free_find_step: "free_find h bp y = (if found h bp y then Some y else free_find h bp (hptr h y))"
  by (subst free_find.simps) (auto simp: found_def)

lemma free_find_seg:
  "seg (hptr h) x xs z \<Longrightarrow> p \<in> set xs \<Longrightarrow> found h bp p \<Longrightarrow> \<forall>y \<in> set xs. y \<noteq> p \<longrightarrow> \<not> found h bp y \<Longrightarrow> free_find h bp x = Some p"
proof (induction xs arbitrary: x)
  case (Cons y xs)
  then show ?case using free_find_step [of h bp y] by (cases "y = p") auto
qed simp

text \<open>The place of a block among the free ones: after the last block below it.\<close>

lemma ring_place:
  assumes "ring h bs" and "hbase h < bp" and "bp \<notin> set bs"
  obtains us p vs where "bs = us @ p # vs" "p < bp" "\<forall>v \<in> set vs. bp < v"
proof -
  have b: "hbase h \<in> set bs" using assms(1) by (cases bs) (auto simp: ring_def)
  then have "\<exists>x \<in> set bs. x < bp" using assms(2) by blast
  then obtain us p vs where l: "bs = us @ p # vs" "p < bp" "\<forall>v \<in> set vs. \<not> v < bp" by (rule split_list_last_propE)
  have "\<forall>v \<in> set vs. bp < v" using l(1,3) assms(3) by (auto simp: not_less le_less)
  with l show ?thesis using that by blast
qed

lemma free_find_run:
  assumes r: "ring h (us @ p # vs)" and f: "f \<in> set (us @ p # vs)"
    and bp: "hbase h < bp" "p < bp" "\<forall>v \<in> set vs. bp < v"
  shows "free_find h bp f = Some p"
proof -
  let ?bs = "us @ p # vs"
  have s: "sorted_wrt (<) ?bs" by (rule ring_sorted [OF r])
  have base: "hbase h \<le> x" if "x \<in> set ?bs" for x using ring_base [OF r that] by auto
  have p: "found h bp p" using ring_next [OF r] bp base [of p] by (cases vs) (auto simp: found_def)
  have other: "\<not> found h bp x" if x: "x \<in> set ?bs" "x \<noteq> p" for x
  proof -
    obtain xs ys where xy: "?bs = xs @ x # ys" using split_list [OF x(1)] by blast
    then have nx: "hptr h x = (if ys = [] then hbase h else hd ys)" using ring_next r by metis
    have gt: "x < y" if "y \<in> set ys" for y using s that unfolding xy by (auto simp: sorted_wrt_append)
    show ?thesis
    proof (cases "x < p")
      case True
      have "p \<in> set (xs @ x # ys)" using xy [symmetric] by simp
      then have "p \<in> set ys" using True s unfolding xy by (auto simp: sorted_wrt_append)
      then have "ys \<noteq> []" "hd ys \<le> p" using s unfolding xy by (cases ys; auto simp: sorted_wrt_append)+
      then show ?thesis using nx gt [of "hd ys"] bp(2) by (auto simp: found_def)
    next
      case False
      then have "bp < x" using x s bp(3) by (auto simp: sorted_wrt_append)
      then show ?thesis using nx gt [of "hd ys"] base [OF x(1)] bp(1) by (cases ys) (auto simp: found_def)
    qed
  qed
  obtain xs ys where xy: "?bs = xs @ f # ys" using split_list [OF f] by blast
  have "seg (hptr h) f (f # ys @ xs) f" by (rule ring_rotate [of "hptr h" "hbase h" xs f ys]) (use r in \<open>simp add: ring_def xy\<close>)
  moreover have "set (f # ys @ xs) = set ?bs" unfolding xy by auto
  ultimately show ?thesis using p other by (intro free_find_seg [of h f "f # ys @ xs" f p bp]) auto
qed

text \<open>What the update of one header leaves alone.\<close>

lemma upd_other [simp]:
  "x \<notin> set xs \<Longrightarrow> seg (f(x := y)) a xs b = seg f a xs b"
  "x \<notin> set xs \<Longrightarrow> gaps (f(x := y)) xs = gaps f xs"
  "x \<notin> set xs \<Longrightarrow> units_of (f(x := y)) xs = units_of f xs"
proof -
  show "seg (f(x := y)) a xs b = seg f a xs b" if "x \<notin> set xs" using that by (intro seg_cong) auto
  show "gaps (f(x := y)) xs = gaps f xs" if "x \<notin> set xs" using that by (induction xs) auto
  show "units_of (f(x := y)) xs = units_of f xs" if "x \<notin> set xs" using that unfolding units_of_def by (intro SUP_cong) auto
qed

lemma block_join: "0 \<le> m \<Longrightarrow> 0 \<le> k \<Longrightarrow> block b (m + k) = block b m \<union> block (b + m) k"
  by (auto simp: block_def)

text \<open>A block with its neighbours: what follows from its being disjoint from the free units.\<close>

lemma between:
  assumes r: "ring h (us @ p # vs)" and bp: "p < bp" "\<forall>v \<in> set vs. bp < v"
    and n: "0 < n" "block bp n \<inter> free_units h (us @ p # vs) = {}"
  shows "p + hsize h p \<le> bp" "\<forall>v \<in> set vs. bp + n \<le> v"
proof -
  have "bp \<in> block bp n" "block p (hsize h p) \<subseteq> free_units h (us @ p # vs)" using n(1) by (auto simp: block_def free_units_def)
  then have "bp \<notin> block p (hsize h p)" using n(2) by blast
  then show "p + hsize h p \<le> bp" using bp(1) by (auto simp: block_def)
  show "\<forall>v \<in> set vs. bp + n \<le> v"
  proof
    fix v assume v: "v \<in> set vs"
    have "v \<noteq> hbase h" using ring_base [OF r, of p] bp v by auto
    then have "0 < hsize h v" using ring_base [OF r, of v] v by auto
    then have "v \<in> free_units h (us @ p # vs)" using v by (auto simp: block_def free_units_def units_of_def)
    then have "v \<notin> block bp n" using n by auto
    then show "bp + n \<le> v" using bp(2) v by (auto simp: block_def)
  qed
qed

lemma ring_split:
  "ring h (us @ p # vs) \<longleftrightarrow> seg (hptr h) (hbase h) us p \<and> seg (hptr h) (hptr h p) vs (hbase h) \<and> hsize h (hbase h) = 0 \<and>
     gaps (hsize h) us \<and> gaps (hsize h) vs \<and> (\<forall>u \<in> set us. u + hsize h u < p \<and> (\<forall>v \<in> set vs. u + hsize h u < v)) \<and>
     (\<forall>v \<in> set vs. p + hsize h p < v) \<and>
     (\<forall>b \<in> insert p (set us \<union> set vs). b \<noteq> hbase h \<longrightarrow> 0 < hsize h b \<and> b + hsize h b \<le> brk h) \<and>
     hbase h < brk h \<and> (\<exists>f \<in> insert p (set us \<union> set vs). freep h = Some f)"
  unfolding ring_def seg_append gaps_append by auto

text \<open>
  A block \<open>bp\<close> to be freed whose place is between \<open>p\<close> and \<open>vs\<close>, and what \<open>free\<close> must give: a ring with the
  units of the block added, one block of it at least as large, the headers of other blocks unchanged.
\<close>

definition free_place :: "heap \<Rightarrow> int list \<Rightarrow> int \<Rightarrow> int list \<Rightarrow> int \<Rightarrow> bool" where
  "free_place h us p vs bp \<longleftrightarrow> ring h (us @ p # vs) \<and> p < bp \<and> (\<forall>v \<in> set vs. bp < v) \<and> 0 < hsize h bp \<and> bp + hsize h bp \<le> brk h \<and>
     block bp (hsize h bp) \<inter> free_units h (us @ p # vs) = {}"

definition freed :: "heap \<Rightarrow> int list \<Rightarrow> int \<Rightarrow> heap \<Rightarrow> int list \<Rightarrow> bool" where
  "freed h bs bp h' bs' \<longleftrightarrow> ring h' bs' \<and> free_units h' bs' = free_units h bs \<union> block bp (hsize h bp) \<and>
     (\<exists>b \<in> set bs'. hsize h bp \<le> hsize h' b) \<and> (\<forall>x. x \<notin> insert bp (set bs) \<longrightarrow> hsize h' x = hsize h x) \<and>
     brk h' = brk h \<and> hbase h' = hbase h"

lemma free_placeD:
  assumes "free_place h us p vs bp"
  shows "p + hsize h p \<le> bp" "\<forall>v \<in> set vs. bp + hsize h bp \<le> v" "0 \<le> hsize h p" "hbase h \<le> p" "sorted_wrt (<) (us @ p # vs)"
    "p \<notin> set us" "p \<notin> set vs" "bp \<notin> set us" "bp \<notin> set vs" "bp \<noteq> p" "bp \<noteq> hbase h" "\<forall>u \<in> set us. u + hsize h u < bp"
    "hptr h p = (if vs = [] then hbase h else hd vs)" "p + hsize h p = bp \<Longrightarrow> p \<noteq> hbase h"
proof -
  have r: "ring h (us @ p # vs)" and bp: "p < bp" "\<forall>v \<in> set vs. bp < v"
    and n: "0 < hsize h bp" "bp + hsize h bp \<le> brk h" "block bp (hsize h bp) \<inter> free_units h (us @ p # vs) = {}"
    using assms by (simp_all add: free_place_def)
  note s = r [unfolded ring_split]
  show "p + hsize h p \<le> bp" "\<forall>v \<in> set vs. bp + hsize h bp \<le> v" by (rule between [OF r bp n(1,3)])+
  show p0: "0 \<le> hsize h p" "hbase h \<le> p" using ring_size [OF r, of p] ring_base [OF r, of p] by auto
  show ord: "sorted_wrt (<) (us @ p # vs)" by (rule ring_sorted [OF r])
  then show ni: "p \<notin> set us" "p \<notin> set vs" "bp \<notin> set us" "bp \<notin> set vs" "bp \<noteq> p" "bp \<noteq> hbase h"
    using bp p0 by (auto simp: sorted_wrt_append)
  show "\<forall>u \<in> set us. u + hsize h u < bp" using s bp by auto
  show "p \<noteq> hbase h" if "p + hsize h p = bp" using that s ni(6) by auto
  show "hptr h p = (if vs = [] then hbase h else hd vs)" by (rule ring_next [OF r])
qed

text \<open>The block does not touch its successor; it may touch its predecessor.\<close>

lemma free_link_apart:
  assumes pl: "free_place h us p vs bp" and A: "bp + hsize h bp \<noteq> hptr h p"
  shows "\<exists>bs. freed h (us @ p # vs) bp (free_link bp p h) bs"
proof -
  note d = free_placeD [OF pl]
  have r: "ring h (us @ p # vs)" and n: "0 < hsize h bp" "bp + hsize h bp \<le> brk h" using pl by (simp_all add: free_place_def)
  note s = r [unfolded ring_split]
  have hi: "\<forall>v \<in> set vs. bp + hsize h bp < v"
  proof (cases vs)
    case (Cons v ws)
    have "0 \<le> hsize h v" using ring_size [OF r, of v] Cons by simp
    moreover have "\<forall>w \<in> set ws. v + hsize h v < w" using s Cons by simp
    ultimately show ?thesis using d(2,13) A Cons by fastforce
  qed simp
  show ?thesis
  proof (cases "p + hsize h p = bp")
    case False
    let ?h = "h\<lparr>hptr := (hptr h)(bp := hptr h p, p := bp), freep := Some p\<rparr>"
    have h: "free_link bp p h = ?h" using A False by (simp add: free_link_def Let_def)
    have "ring ?h (us @ p # bp # vs)" unfolding ring_split using s d(1,6-12) False hi n by auto
    then show ?thesis unfolding h freed_def by (intro exI [of _ "us @ p # bp # vs"]) (auto simp: free_units_def)
  next
    case True
    let ?h = "h\<lparr>hptr := (hptr h)(bp := hptr h p, p := hptr h p), hsize := (hsize h)(p := hsize h p + hsize h bp), freep := Some p\<rparr>"
    have h: "free_link bp p h = ?h" using A True d(10) by (simp add: free_link_def Let_def)
    have "ring ?h (us @ p # vs)" unfolding ring_split using s d(6-12) True hi n d(14) [OF True] by auto
    moreover have "free_units ?h (us @ p # vs) = free_units h (us @ p # vs) \<union> block bp (hsize h bp)"
      using block_join [OF d(3), of "hsize h bp" p] n(1) True d(6-10) by (auto simp: free_units_def)
    ultimately show ?thesis unfolding h freed_def using d(3) by (intro exI [of _ "us @ p # vs"]) auto
  qed
qed

text \<open>The block touches its successor and is joined with it.\<close>

lemma free_link_join:
  assumes pl: "free_place h us p vs bp" and A: "bp + hsize h bp = hptr h p"
  shows "\<exists>bs. freed h (us @ p # vs) bp (free_link bp p h) bs"
proof -
  note d = free_placeD [OF pl]
  have r: "ring h (us @ p # vs)" and n: "0 < hsize h bp" "bp + hsize h bp \<le> brk h" "p < bp" using pl by (simp_all add: free_place_def)
  note s = r [unfolded ring_split]
  obtain v ws where v: "vs = v # ws" "v = bp + hsize h bp" using A d(4,13) n by (cases vs) auto
  have v0: "0 \<le> hsize h v" "v \<noteq> p" "v \<noteq> bp" "bp \<notin> set ws" "v \<notin> set ws" "p \<notin> set ws" "hptr h p = v" "v \<noteq> hbase h"
    using ring_size [OF r, of v] v d(4-11) n A by (auto simp: sorted_wrt_append)
  have hi: "\<forall>w \<in> set ws. bp + (hsize h bp + hsize h v) < w" and top: "v + hsize h v \<le> brk h" using s v v0 by auto
  note join = block_join [OF less_imp_le [OF n(1)] v0(1), of bp]
  show ?thesis
  proof (cases "p + hsize h p = bp")
    case False
    let ?h = "h\<lparr>hptr := (hptr h)(bp := hptr h v, p := bp), hsize := (hsize h)(bp := hsize h bp + hsize h v), freep := Some p\<rparr>"
    have h: "free_link bp p h = ?h" using A False v0 d(10) by (simp add: free_link_def Let_def)
    have "ring ?h (us @ p # bp # ws)" unfolding ring_split using s d(1,6-12) False hi n v0 v top by auto
    moreover have "free_units ?h (us @ p # bp # ws) = free_units h (us @ p # vs) \<union> block bp (hsize h bp)"
      using join v v0 d(6-10) by (auto simp: free_units_def)
    ultimately show ?thesis unfolding h freed_def using v0 v by (intro exI [of _ "us @ p # bp # ws"]) auto
  next
    case True
    let ?h = "h\<lparr>hptr := (hptr h)(bp := hptr h v, p := hptr h v),
      hsize := (hsize h)(bp := hsize h bp + hsize h v, p := hsize h p + (hsize h bp + hsize h v)), freep := Some p\<rparr>"
    have h: "free_link bp p h = ?h" using A True v0 d(10) by (simp add: free_link_def Let_def)
    have "ring ?h (us @ p # ws)" unfolding ring_split using s d(6-12) True hi n v0 v top d(14) [OF True] by auto
    moreover have "free_units ?h (us @ p # ws) = free_units h (us @ p # vs) \<union> block bp (hsize h bp)"
      using join block_join [of "hsize h p" "hsize h bp + hsize h v" p] d(3,6-10) v v0 n(1) True by (auto simp: free_units_def)
    ultimately show ?thesis unfolding h freed_def using v0 v d(3) n(1) by (intro exI [of _ "us @ p # ws"]) auto
  qed
qed

lemma ufree_run:
  assumes r: "ring h bs" and bp: "hbase h < bp" "0 < hsize h bp" "bp + hsize h bp \<le> brk h" "block bp (hsize h bp) \<inter> free_units h bs = {}"
  shows "\<exists>h' bs'. ufree (bp + 1) h = Some h' \<and> freed h bs bp h' bs'"
proof -
  obtain f where f: "freep h = Some f" "f \<in> set bs" using r by (auto simp: ring_def)
  have "bp \<notin> set bs"
  proof
    assume "bp \<in> set bs"
    then have "block bp (hsize h bp) \<subseteq> free_units h bs" by (auto simp: free_units_def units_of_def)
    moreover have "bp \<in> block bp (hsize h bp)" using bp(2) by (simp add: block_def)
    ultimately show False using bp(4) by blast
  qed
  then obtain us p vs where l: "bs = us @ p # vs" "p < bp" "\<forall>v \<in> set vs. bp < v" by (rule ring_place [OF r bp(1)])
  have "free_find h bp f = Some p" using free_find_run [of h us p vs f bp] r f(2) l bp(1) by simp
  then have "ufree (bp + 1) h = Some (free_link bp p h)" using f(1) by (simp add: ufree_def)
  moreover have "free_place h us p vs bp" using r l bp by (simp add: free_place_def)
  then have "\<exists>bs'. freed h bs bp (free_link bp p h) bs'" unfolding l(1) using free_link_apart free_link_join by blast
  ultimately show ?thesis by blast
qed

section \<open>malloc\<close>

text \<open>Taking \<open>n\<close> units: a block of the free units leaves them, the headers of other blocks are unchanged.\<close>

definition taken :: "heap \<Rightarrow> int list \<Rightarrow> int \<Rightarrow> int \<Rightarrow> heap \<Rightarrow> int list \<Rightarrow> bool" where
  "taken h bs n b h' bs' \<longleftrightarrow> ring h' bs' \<and> block b n \<subseteq> free_units h bs \<and> free_units h' bs' = free_units h bs - block b n \<and>
     hsize h' b = n \<and> (\<forall>x. x \<notin> insert b (set bs) \<longrightarrow> hsize h' x = hsize h x) \<and> brk h' = brk h \<and> hbase h' = hbase h"

lemma units_apart:
  "\<forall>x \<in> set xs. x + f x \<le> a \<Longrightarrow> units_of f xs \<inter> block a n = {}"
  "\<forall>x \<in> set xs. a + n \<le> x \<Longrightarrow> units_of f xs \<inter> block a n = {}"
  by (fastforce simp: units_of_def block_def)+

lemma carve_run:
  assumes r: "ring h bs" and q: "q \<in> set bs" and n: "0 < n" "n \<le> hsize h (hptr h q)"
  shows "\<exists>bs'. taken h bs n (fst (carve n q (hptr h q) h)) (snd (carve n q (hptr h q) h)) bs'"
proof -
  obtain us vs where l: "bs = us @ q # vs" using split_list [OF q] by blast
  have "hptr h q \<noteq> hbase h" using r n by (auto simp: ring_def)
  then obtain p ws where v: "vs = p # ws" "hptr h q = p" using ring_next [of h us q vs] r l by (cases vs) auto
  have bs: "bs = (us @ [q]) @ p # ws" using l v(1) by simp
  note s = r [unfolded bs ring_split]
  have ord: "sorted_wrt (<) ((us @ [q]) @ p # ws)" using ring_sorted r bs by blast
  have ni: "p \<notin> set us" "p \<noteq> q" "p \<notin> set ws" "q \<notin> set us" "q \<notin> set ws" "p \<noteq> hbase h"
    using ord \<open>hptr h q \<noteq> hbase h\<close> v(2) by (auto simp: sorted_wrt_append)
  have lo: "units_of (hsize h) (us @ [q]) \<inter> block p m = {}" for m by (rule units_apart(1)) (use s in \<open>auto intro: less_imp_le\<close>)
  have hi: "units_of (hsize h) ws \<inter> block p (hsize h p) = {}" by (rule units_apart(2)) (use s in \<open>auto intro: less_imp_le\<close>)
  show ?thesis
  proof (cases "hsize h p = n")
    case True
    let ?h = "h\<lparr>hptr := (hptr h)(q := hptr h p), freep := Some q\<rparr>"
    have c: "carve n q p h = (p, ?h)" using True by (simp add: carve_def)
    have "ring ?h (us @ q # ws)" unfolding ring_split using s ni by (auto simp: seg_append gaps_append)
    moreover have "free_units ?h (us @ q # ws) = free_units h bs - block p n"
      using lo [of n] hi True by (auto simp: free_units_def bs)
    ultimately show ?thesis using c True v(2) by (intro exI [of _ "us @ q # ws"]) (auto simp: taken_def free_units_def bs)
  next
    case False
    let ?k = "hsize h p - n"
    let ?h = "h\<lparr>hsize := (hsize h)(p := ?k, p + ?k := n), freep := Some q\<rparr>"
    have c: "carve n q p h = (p + ?k, ?h)" using False by (simp add: carve_def Let_def)
    have k: "0 < ?k" using False n(2) v(2) by simp
    have nk: "p + ?k \<notin> set us" "p + ?k \<noteq> q" "p + ?k \<notin> set ws" "p + ?k \<noteq> p" "p + ?k \<noteq> hbase h"
      using s ord k n(1) ring_base [OF r, of p] bs by (auto simp: sorted_wrt_append)
    have "ring ?h bs" unfolding bs ring_split using s ni nk k n by (auto simp: gaps_append)
    moreover have "block p (hsize h p) = block p ?k \<union> block (p + ?k) n" using block_join [of ?k n p] k n(1) by simp
    moreover have "block p ?k \<inter> block (p + ?k) n = {}" by (auto simp: block_def)
    moreover have "free_units ?h bs = units_of (hsize h) (us @ [q]) \<union> block p ?k \<union> units_of (hsize h) ws"
      using ni nk by (auto simp: free_units_def bs)
    ultimately show ?thesis using c v(2) lo [of "hsize h p"] hi
      by (intro exI [of _ bs]) (auto simp: taken_def free_units_def bs)
  qed
qed

lemma malloc_loop_step:
  "n \<le> hsize h p \<Longrightarrow> malloc_loop g n prevp p h = Some (case carve n prevp p h of (b, h') \<Rightarrow> (Some (b + 1), h'))"
  "hsize h p < n \<Longrightarrow> freep h = Some p \<Longrightarrow> malloc_loop g n prevp p h = Option.bind (morecore g n h) (\<lambda>(r, h).
     case r of None \<Rightarrow> Some (None, h) | Some q \<Rightarrow> malloc_loop g n q (hptr h q) h)"
  "hsize h p < n \<Longrightarrow> freep h \<noteq> Some p \<Longrightarrow> malloc_loop g n prevp p h = malloc_loop g n p (hptr h p) h"
  by (subst malloc_loop.simps, force)+

text \<open>One round of the search: it ends at a block that is large enough, or asks for more memory.\<close>

lemma malloc_search:
  "seg (hptr h) p ys f \<Longrightarrow> hptr h prevp = p \<Longrightarrow> freep h = Some f \<Longrightarrow> f \<notin> set ys \<Longrightarrow>
   (\<exists>q \<in> insert prevp (set ys). n \<le> hsize h (hptr h q) \<and>
      malloc_loop g n prevp p h = Some (case carve n q (hptr h q) h of (b, h') \<Rightarrow> (Some (b + 1), h'))) \<or>
   (\<forall>y \<in> insert f (set ys). hsize h y < n) \<and>
      malloc_loop g n prevp p h = Option.bind (morecore g n h) (\<lambda>(r, h).
        case r of None \<Rightarrow> Some (None, h) | Some q \<Rightarrow> malloc_loop g n q (hptr h q) h)"
proof (induction ys arbitrary: prevp p)
  case Nil
  then show ?case
    using malloc_loop_step(1) [of n h p g prevp] malloc_loop_step(2) [of h p n g prevp] by (cases "n \<le> hsize h p") auto
next
  case (Cons y ys)
  then have y: "p = y" "seg (hptr h) (hptr h y) ys f" "Some y \<noteq> freep h" by auto
  show ?case
  proof (cases "n \<le> hsize h y")
    case True
    then show ?thesis using Cons.prems(2) y(1) malloc_loop_step(1) [OF True, of g prevp] by auto
  next
    case False
    then have "malloc_loop g n prevp p h = malloc_loop g n y (hptr h y) h"
      using y malloc_loop_step(3) [of h y n g prevp] by simp
    then show ?thesis using Cons.IH [OF y(2) refl Cons.prems(3)] Cons.prems(4) False y(1) by fastforce
  qed
qed

text \<open>The search from \<open>freep\<close> visits the whole ring.\<close>

lemma malloc_from_freep:
  assumes r: "ring h bs" and f: "freep h = Some f"
  shows "(\<exists>q \<in> set bs. n \<le> hsize h (hptr h q) \<and>
      malloc_loop g n f (hptr h f) h = Some (case carve n q (hptr h q) h of (b, h') \<Rightarrow> (Some (b + 1), h'))) \<or>
   (\<forall>y \<in> set bs. hsize h y < n) \<and>
      malloc_loop g n f (hptr h f) h = Option.bind (morecore g n h) (\<lambda>(r, h).
        case r of None \<Rightarrow> Some (None, h) | Some q \<Rightarrow> malloc_loop g n q (hptr h q) h)"
proof -
  have fb: "f \<in> set bs" using r f by (auto simp: ring_def)
  obtain us vs where l: "bs = us @ f # vs" using split_list [OF fb] by blast
  have "seg (hptr h) f (f # vs @ us) f" by (rule ring_rotate [of "hptr h" "hbase h" us f vs]) (use r l in \<open>simp add: ring_def\<close>)
  then have seg: "seg (hptr h) (hptr h f) (vs @ us) f" by simp
  have nf: "f \<notin> set (vs @ us)" using ring_sorted [OF r] l by (auto simp: sorted_wrt_append)
  have "set bs = insert f (set (vs @ us))" using l by auto
  then show ?thesis using malloc_search [OF seg refl f nf, of n g] by simp
qed

lemma ring_in_units: "ring h bs \<Longrightarrow> b \<in> set bs \<Longrightarrow> b \<noteq> hbase h \<Longrightarrow> b \<in> free_units h bs"
  using ring_base [of h bs b] by (auto simp: free_units_def units_of_def block_def)

lemma units_below_brk: "ring h bs \<Longrightarrow> x \<in> free_units h bs \<Longrightarrow> hbase h < x \<and> x < brk h"
  using ring_base [of h bs] by (fastforce simp: free_units_def units_of_def block_def ring_def)

lemma morecore_run:
  assumes r: "ring h bs" and n: "0 < n" "n < 2 ^ 27"
  shows "morecore g n h = Some (None, h) \<or>
    (\<exists>h' bs' q. morecore g n h = Some (Some q, h') \<and> freep h' = Some q \<and> ring h' bs' \<and> brk h \<le> brk h' \<and> hbase h' = hbase h \<and>
       free_units h' bs' = free_units h bs \<union> {brk h..<brk h'} \<and> (\<exists>b \<in> set bs'. n \<le> hsize h' b) \<and>
       (\<forall>x. x \<notin> insert (brk h) (set bs) \<longrightarrow> hsize h' x = hsize h x))"
proof -
  define nu where "nu = (if n < 4096 then 4096 else n)"
  have nu: "0 < nu" "n \<le> nu" "nu * 16 < 2 ^ 31" using n by (auto simp: nu_def)
  have arg: "sint (word_of_int (nu * 16) :: u32) = nu * 16"
    unfolding signed_of_int using nu by (simp add: signed_take_bit_int_eq_self)
  have m: "morecore g n h = (case sbrk g (nu * 16) h of (None, h) \<Rightarrow> Some (None, h)
      | (Some p, h) \<Rightarrow> map_option (\<lambda>h. (freep h, h)) (ufree (p + 1) (h\<lparr>hsize := (hsize h)(p := nu)\<rparr>)))"
    unfolding morecore_def Let_def nu_def [symmetric] arg ..
  show ?thesis
  proof (cases "g (brk h) (nu * 16)")
    case False
    then show ?thesis by (simp add: m sbrk_def)
  next
    case True
    let ?b = "brk h"
    let ?h = "h\<lparr>brk := ?b + nu, hsize := (hsize h)(?b := nu)\<rparr>"
    have nb: "?b \<notin> set bs" "?b \<noteq> hbase h" using ring_base [OF r] r by (auto simp: ring_def)
    have r': "ring ?h bs" using r nb nu unfolding ring_def by fastforce
    have fu: "free_units ?h bs = free_units h bs" using nb by (simp add: free_units_def)
    have dis: "block ?b nu \<inter> free_units h bs = {}" using units_below_brk [OF r] by (fastforce simp: block_def)
    obtain h' bs' where u: "ufree (?b + 1) ?h = Some h'" "freed ?h bs ?b h' bs'"
      using ufree_run [OF r', of ?b] r nu(1) fu dis by (auto simp: ring_def)
    obtain q where q: "freep h' = Some q" using u(2) by (auto simp: freed_def ring_def)
    have "morecore g n h = Some (Some q, h')" using True u(1) q by (simp add: m sbrk_def)
    then show ?thesis using u(2) q nu fu unfolding freed_def
      by (intro disjI2 exI [of _ h'] exI [of _ bs'] exI [of _ q]) (auto simp: block_def intro: order_trans)
  qed
qed

text \<open>
  What \<open>malloc\<close> gives: nothing, with the heap as it was, or \<open>n\<close> units of the free ones and of those that
  the break was moved over, all other units free as before.
\<close>

definition allocated_units :: "heap \<Rightarrow> int list \<Rightarrow> int \<Rightarrow> int option \<times> heap \<Rightarrow> bool" where
  "allocated_units h bs n = (\<lambda>(r, h').
     case r of
       None \<Rightarrow> h' = h
     | Some a \<Rightarrow> \<exists>bs'. ring h' bs' \<and> hbase h' = hbase h \<and> brk h \<le> brk h' \<and> hsize h' (a - 1) = n \<and>
         block (a - 1) n \<subseteq> free_units h bs \<union> {brk h..<brk h'} \<and>
         free_units h' bs' = free_units h bs \<union> {brk h..<brk h'} - block (a - 1) n \<and>
         (\<forall>x. x \<notin> free_units h bs \<longrightarrow> x \<noteq> hbase h \<longrightarrow> x < brk h \<longrightarrow> hsize h' x = hsize h x))"

lemma carve_allocated:
  assumes "ring h bs" and "q \<in> set bs" and "0 < n" and "n \<le> hsize h (hptr h q)"
  shows "allocated_units h bs n (case carve n q (hptr h q) h of (b, h') \<Rightarrow> (Some (b + 1), h'))"
proof -
  obtain b h' where c: "carve n q (hptr h q) h = (b, h')" by fastforce
  then obtain bs' where t: "taken h bs n b h' bs'" using carve_run [OF assms] by auto
  have "b \<in> block b n" using assms(3) by (simp add: block_def)
  then have "x \<notin> insert b (set bs)" if "x \<notin> free_units h bs" "x \<noteq> hbase h" for x
    using t that ring_in_units [OF assms(1)] by (auto simp: taken_def)
  then show ?thesis using t c by (auto simp: allocated_units_def taken_def)
qed

lemma ring_closed: "ring h bs \<Longrightarrow> q \<in> set bs \<Longrightarrow> hptr h q \<in> set bs"
proof -
  assume r: "ring h bs" and "q \<in> set bs"
  then obtain us vs where l: "bs = us @ q # vs" by (meson split_list)
  have "hbase h \<in> set bs" using r by (cases bs) (auto simp: ring_def)
  then show ?thesis using ring_next [of h us q vs] r l by (cases vs) auto
qed

text \<open>A search that succeeds after the heap has grown, seen from before.\<close>

lemma allocated_grown:
  assumes r: "ring h bs" and g: "brk h \<le> brk h'" "hbase h' = hbase h" "free_units h' bs' = free_units h bs \<union> {brk h..<brk h'}"
      "\<forall>x. x \<notin> insert (brk h) (set bs) \<longrightarrow> hsize h' x = hsize h x"
    and a: "allocated_units h' bs' n (Some a, h2)"
  shows "allocated_units h bs n (Some a, h2)"
proof -
  obtain bs2 where b: "ring h2 bs2" "hbase h2 = hbase h'" "brk h' \<le> brk h2" "hsize h2 (a - 1) = n"
      "block (a - 1) n \<subseteq> free_units h' bs' \<union> {brk h'..<brk h2}" "free_units h2 bs2 = free_units h' bs' \<union> {brk h'..<brk h2} - block (a - 1) n"
      "\<forall>x. x \<notin> free_units h' bs' \<longrightarrow> x \<noteq> hbase h' \<longrightarrow> x < brk h' \<longrightarrow> hsize h2 x = hsize h' x"
    using a by (auto simp: allocated_units_def)
  have all: "free_units h' bs' \<union> {brk h'..<brk h2} = free_units h bs \<union> {brk h..<brk h2}" using g(1,3) b(3) by auto
  have "hsize h2 x = hsize h x" if x: "x \<notin> free_units h bs" "x \<noteq> hbase h" "x < brk h" for x
  proof -
    have "x \<notin> set bs" "x \<notin> free_units h' bs'" using x ring_in_units [OF r] g(3) by auto
    then show ?thesis using b(7) g(1,2,4) x by simp
  qed
  then show ?thesis
    unfolding allocated_units_def prod.case option.case using b(1-6) g(1,2) by (intro exI [of _ bs2]) (simp add: all)
qed

lemma malloc_loop_run:
  assumes r: "ring h bs" and f: "freep h = Some f" and n: "0 < n" "n < 2 ^ 27"
  shows "\<exists>res. malloc_loop g n f (hptr h f) h = Some res \<and> allocated_units h bs n res"
proof -
  have found: "\<exists>a h'. malloc_loop g n f (hptr h f) h = Some (Some a, h') \<and> allocated_units h bs n (Some a, h')"
    if y: "ring h bs" "freep h = Some f" "y \<in> set bs" "n \<le> hsize h y" for h bs f y
  proof -
    obtain q where q: "q \<in> set bs" "n \<le> hsize h (hptr h q)"
      "malloc_loop g n f (hptr h f) h = Some (case carve n q (hptr h q) h of (b, h') \<Rightarrow> (Some (b + 1), h'))"
      using malloc_from_freep [OF y(1,2), of n g] y(3,4) by auto
    then show ?thesis using carve_allocated [OF y(1) q(1) n(1) q(2)] by (auto split: prod.splits)
  qed
  show ?thesis
  proof (cases "\<exists>y \<in> set bs. n \<le> hsize h y")
    case True
    then show ?thesis using found [OF r f] by blast
  next
    case False
    then have loop: "malloc_loop g n f (hptr h f) h = Option.bind (morecore g n h) (\<lambda>(r, h).
        case r of None \<Rightarrow> Some (None, h) | Some q \<Rightarrow> malloc_loop g n q (hptr h q) h)"
      using malloc_from_freep [OF r f, of n g] ring_closed [OF r] by blast
    from morecore_run [OF r n, of g] show ?thesis
    proof (elim disjE exE conjE)
      assume "morecore g n h = Some (None, h)"
      then show ?thesis using loop by (simp add: allocated_units_def)
    next
      fix h' bs' q assume m: "morecore g n h = Some (Some q, h')" "freep h' = Some q" "ring h' bs'" "brk h \<le> brk h'" "hbase h' = hbase h"
        "free_units h' bs' = free_units h bs \<union> {brk h..<brk h'}" "\<exists>b \<in> set bs'. n \<le> hsize h' b"
        "\<forall>x. x \<notin> insert (brk h) (set bs) \<longrightarrow> hsize h' x = hsize h x"
      then obtain a h2 where res: "malloc_loop g n q (hptr h' q) h' = Some (Some a, h2)" "allocated_units h' bs' n (Some a, h2)"
        using found by blast
      have "malloc_loop g n f (hptr h f) h = Some (Some a, h2)" using loop m(1) res(1) by simp
      moreover have "allocated_units h bs n (Some a, h2)" by (rule allocated_grown [OF r m(4,5,6,8) res(2)])
      ultimately show ?thesis by blast
    qed
  qed
qed

lemma malloc_first:
  assumes "freep h = None" and "hbase h < brk h" and n: "0 < units nb" "units nb < 2 ^ 27"
  defines "h0 \<equiv> h\<lparr>hptr := (hptr h)(hbase h := hbase h), freep := Some (hbase h), hsize := (hsize h)(hbase h := 0)\<rparr>"
  shows "ring h0 [hbase h]" "free_units h0 [hbase h] = {}" "\<exists>res. malloc g nb h = Some res \<and> allocated_units h0 [hbase h] (units nb) res"
proof -
  show r: "ring h0 [hbase h]" using assms(2) by (simp add: h0_def ring_def)
  show "free_units h0 [hbase h] = {}" by (simp add: h0_def free_units_def block_def)
  have f: "freep h0 = Some (hbase h)" by (simp add: h0_def)
  have "malloc g nb h = malloc_loop g (units nb) (hbase h) (hptr h0 (hbase h)) h0"
    unfolding malloc_def assms(1) option.case h0_def [symmetric] Let_def prod.case ..
  then show "\<exists>res. malloc g nb h = Some res \<and> allocated_units h0 [hbase h] (units nb) res"
    using malloc_loop_run [OF r f n, of g] by (simp only:)
qed

lemma malloc_run:
  assumes r: "ring h bs" and n: "0 < units nb" "units nb < 2 ^ 27"
  shows "\<exists>res. malloc g nb h = Some res \<and> allocated_units h bs (units nb) res"
proof -
  obtain f where f: "freep h = Some f" using r by (auto simp: ring_def)
  then show ?thesis using malloc_loop_run [OF r f n, of g] by (simp add: malloc_def)
qed

section \<open>Programs that use the allocator\<close>

text \<open>
  The calls of a program: \<open>L\<close> has the pointers that it holds, with the size it asked for. It frees only
  what it holds and asks for less than 1 GB at a time.
\<close>

inductive program :: "(int \<Rightarrow> int \<Rightarrow> bool) \<Rightarrow> int \<Rightarrow> heap \<Rightarrow> (int \<times> nat) set \<Rightarrow> bool" for g b0 where
  start: "freep h = None \<Longrightarrow> hbase h < brk h \<Longrightarrow> brk h = b0 \<Longrightarrow> program g b0 h {}"
| alloc: "program g b0 h L \<Longrightarrow> nb < 2 ^ 30 \<Longrightarrow> malloc g nb h = Some (Some a, h') \<Longrightarrow> program g b0 h' (insert (a, nb) L)"
| refused: "program g b0 h L \<Longrightarrow> nb < 2 ^ 30 \<Longrightarrow> malloc g nb h = Some (None, h') \<Longrightarrow> program g b0 h' L"
| release: "program g b0 h L \<Longrightarrow> (a, nb) \<in> L \<Longrightarrow> ufree a h = Some h' \<Longrightarrow> program g b0 h' (L - {(a, nb)})"

text \<open>The units of a held block, its header included.\<close>

definition held :: "int \<times> nat \<Rightarrow> int set" where
  "held = (\<lambda>(a, nb). block (a - 1) (units nb))"

definition live_ok :: "int \<Rightarrow> heap \<Rightarrow> int list \<Rightarrow> (int \<times> nat) set \<Rightarrow> bool" where
  "live_ok b0 h bs L \<longleftrightarrow> ring h bs \<and> hbase h < b0 \<and> b0 \<le> brk h \<and> (\<forall>(a, nb) \<in> L. hsize h (a - 1) = units nb) \<and>
     (\<forall>x \<in> L. \<forall>y \<in> L. x \<noteq> y \<longrightarrow> held x \<inter> held y = {}) \<and>
     free_units h bs \<inter> \<Union> (held ` L) = {} \<and> free_units h bs \<union> \<Union> (held ` L) = {b0..<brk h}"

lemma units_bounds: "0 < units nb" "nb < 2 ^ 30 \<Longrightarrow> units nb < 2 ^ 27" "int nb \<le> 16 * (units nb - 1)"
  by (auto simp: units_def)

lemma held_head: "a - 1 \<in> held (a, nb)"
  using units_bounds(1) [of nb] by (simp add: held_def block_def)

lemma live_alloc:
  assumes l: "live_ok b0 h bs L" and a: "allocated_units h bs (units nb) (Some a, h')"
  shows "\<exists>bs'. live_ok b0 h' bs' (insert (a, nb) L)"
proof -
  obtain bs' where b: "ring h' bs'" "hbase h' = hbase h" "brk h \<le> brk h'" "hsize h' (a - 1) = units nb"
      "held (a, nb) \<subseteq> free_units h bs \<union> {brk h..<brk h'}" "free_units h' bs' = free_units h bs \<union> {brk h..<brk h'} - held (a, nb)"
      "\<forall>x. x \<notin> free_units h bs \<longrightarrow> x \<noteq> hbase h \<longrightarrow> x < brk h \<longrightarrow> hsize h' x = hsize h x"
    using a by (auto simp: allocated_units_def held_def)
  note k = l [unfolded live_ok_def]
  have old: "held x \<subseteq> {b0..<brk h} - free_units h bs" if "x \<in> L" for x using k that by blast
  have apart: "({b0..<brk h} - free_units h bs) \<inter> (free_units h bs \<union> {brk h..<brk h'}) = {}" by auto
  have new: "held (a, nb) \<inter> held x = {}" if "x \<in> L" for x using old [OF that] b(5) apart by blast
  have "hsize h' (c - 1) = units mb" if "(c, mb) \<in> L" for c mb
  proof -
    have "c - 1 \<in> {b0..<brk h} - free_units h bs" using old [OF that] held_head by blast
    then show ?thesis using b(7) k that by auto
  qed
  then have sizes: "\<forall>(c, mb) \<in> insert (a, nb) L. hsize h' (c - 1) = units mb" using b(4) by auto
  have disj: "\<forall>x \<in> insert (a, nb) L. \<forall>y \<in> insert (a, nb) L. x \<noteq> y \<longrightarrow> held x \<inter> held y = {}"
    using k new by (simp add: Int_commute)
  have "free_units h' bs' \<inter> held x = {}" if "x \<in> insert (a, nb) L" for x
    using that b(6) old [of x] apart by blast
  then have fl: "free_units h' bs' \<inter> \<Union> (held ` insert (a, nb) L) = {}" by blast
  have "free_units h' bs' \<union> \<Union> (held ` insert (a, nb) L) = (free_units h bs \<union> \<Union> (held ` L)) \<union> {brk h..<brk h'}" using b(5,6) by blast
  also have "\<dots> = {b0..<brk h'}" using k b(3) by auto
  finally show ?thesis using b(1,2,3) k sizes disj fl by (intro exI [of _ bs']) (simp add: live_ok_def)
qed

lemma live_okD:
  assumes "live_ok b0 h bs L"
  shows "ring h bs" "hbase h < b0" "b0 \<le> brk h" "(a, nb) \<in> L \<Longrightarrow> hsize h (a - 1) = units nb"
    "x \<in> L \<Longrightarrow> y \<in> L \<Longrightarrow> x \<noteq> y \<Longrightarrow> held x \<inter> held y = {}" "x \<in> L \<Longrightarrow> held x \<inter> free_units h bs = {}"
    "x \<in> L \<Longrightarrow> held x \<subseteq> {b0..<brk h}" "free_units h bs \<union> \<Union> (held ` L) = {b0..<brk h}"
proof -
  show "held x \<inter> free_units h bs = {}" if "x \<in> L"
  proof -
    have "free_units h bs \<inter> \<Union> (held ` L) = {}" using assms by (simp add: live_ok_def)
    then show ?thesis using that by blast
  qed
  show u: "free_units h bs \<union> \<Union> (held ` L) = {b0..<brk h}" using assms by (simp add: live_ok_def)
  show "held x \<subseteq> {b0..<brk h}" if "x \<in> L" using that by (subst u [symmetric]) blast
qed (use assms in \<open>auto simp: live_ok_def\<close>)

lemma live_free:
  assumes l: "live_ok b0 h bs L" and x: "(a, nb) \<in> L"
  shows "\<exists>h' bs'. ufree a h = Some h' \<and> live_ok b0 h' bs' (L - {(a, nb)})"
proof -
  note k = live_okD [OF l]
  let ?b = "a - 1" and ?L = "L - {(a, nb)}"
  have hb: "held (a, nb) = block ?b (hsize h ?b)" using k(4) [OF x] by (simp add: held_def)
  have lo: "hbase h < ?b" using k(7) [OF x] held_head [of a nb] k(2) by auto
  have "?b + hsize h ?b - 1 \<in> held (a, nb)" using units_bounds(1) [of nb] k(4) [OF x] by (simp add: hb block_def)
  then have hi: "?b + hsize h ?b \<le> brk h" using k(7) [OF x] by auto
  obtain h' bs' where u: "ufree (?b + 1) h = Some h'" "freed h bs ?b h' bs'"
    using ufree_run [OF k(1) lo _ hi] k(4) [OF x] k(6) [OF x, unfolded hb] units_bounds(1) [of nb] by auto
  have f: "ring h' bs'" "free_units h' bs' = free_units h bs \<union> held (a, nb)" "brk h' = brk h" "hbase h' = hbase h"
      "\<And>z. z \<notin> insert ?b (set bs) \<Longrightarrow> hsize h' z = hsize h z"
    using u(2) by (auto simp: freed_def hb)
  have "hsize h' (c - 1) = units mb" if c: "(c, mb) \<in> L" "(c, mb) \<noteq> (a, nb)" for c mb
  proof -
    have "c - 1 \<noteq> ?b" using k(5) [OF c(1) x c(2)] held_head [of c mb] held_head [of a nb] by auto
    moreover have "c - 1 \<notin> free_units h bs" "c - 1 \<in> {b0..<brk h}" using k(6,7) [OF c(1)] held_head [of c mb] by blast+
    then have "c - 1 \<notin> set bs" using ring_in_units [OF k(1), of "c - 1"] k(2) by auto
    ultimately show ?thesis using f(5) k(4) [OF c(1)] by simp
  qed
  moreover have fl: "free_units h' bs' \<inter> held y = {}" if "y \<in> ?L" for y
  proof -
    have "held y \<inter> held (a, nb) = {}" "held y \<inter> free_units h bs = {}" using k(5) [of y "(a, nb)"] k(6) [of y] x that by simp_all
    then show ?thesis unfolding f(2) by blast
  qed
  moreover have "free_units h' bs' \<inter> \<Union> (held ` ?L) = {}" using fl by blast
  moreover have "free_units h' bs' \<union> \<Union> (held ` ?L) = {b0..<brk h'}"
  proof -
    have "held (a, nb) \<union> \<Union> (held ` ?L) = \<Union> (held ` L)" using x by auto
    then show ?thesis unfolding f(2,3) k(8) [symmetric] Un_assoc by simp
  qed
  moreover have "\<forall>x \<in> ?L. \<forall>y \<in> ?L. x \<noteq> y \<longrightarrow> held x \<inter> held y = {}" using k(5) by blast
  ultimately have "live_ok b0 h' bs' ?L" unfolding live_ok_def using f(1,3,4) k(2,3) by (intro conjI) auto
  then show ?thesis using u(1) by auto
qed

text \<open>The invariant of every program: not started, or the ring with the held blocks.\<close>

lemma program_inv:
  "program g b0 h L \<Longrightarrow> freep h = None \<and> L = {} \<and> hbase h < brk h \<and> brk h = b0 \<or> (\<exists>bs. live_ok b0 h bs L)"
proof (induction rule: program.induct)
  case (alloc h L nb a h')
  note n = units_bounds(1) [of nb] units_bounds(2) [OF alloc.hyps(2)]
  from alloc.IH show ?case
  proof (elim disjE exE conjE)
    fix bs assume "live_ok b0 h bs L"
    moreover from this have "allocated_units h bs (units nb) (Some a, h')"
      using malloc_run [of h bs nb g] n alloc.hyps(3) by (auto simp: live_ok_def)
    ultimately show ?thesis using live_alloc by blast
  next
    assume h: "freep h = None" "L = {}" "hbase h < brk h" "brk h = b0"
    note m = malloc_first(1,2) [OF h(1,3) n] malloc_first(3) [OF h(1,3) n, of g]
    have "live_ok b0 (h\<lparr>hptr := (hptr h)(hbase h := hbase h), freep := Some (hbase h), hsize := (hsize h)(hbase h := 0)\<rparr>) [hbase h] {}"
      using m(1,2) h by (simp add: live_ok_def)
    then show ?thesis using live_alloc m(3) alloc.hyps(3) h(2) by fastforce
  qed
next
  case (refused h L nb h')
  note n = units_bounds(1) [of nb] units_bounds(2) [OF refused.hyps(2)]
  from refused.IH show ?case
  proof (elim disjE exE conjE)
    fix bs assume l: "live_ok b0 h bs L"
    then have "h' = h" using malloc_run [of h bs nb g] n refused.hyps(3) by (auto simp: live_ok_def allocated_units_def)
    then show ?thesis using l by blast
  next
    assume h: "freep h = None" "L = {}" "hbase h < brk h" "brk h = b0"
    note m = malloc_first(1,2) [OF h(1,3) n] malloc_first(3) [OF h(1,3) n, of g]
    let ?h = "h\<lparr>hptr := (hptr h)(hbase h := hbase h), freep := Some (hbase h), hsize := (hsize h)(hbase h := 0)\<rparr>"
    have "h' = ?h" using m(3) refused.hyps(3) by (auto simp: allocated_units_def)
    then show ?thesis using m(1,2) h by (auto simp: live_ok_def)
  qed
next
  case (release h L a nb h')
  from release.IH show ?case
  proof (elim disjE exE conjE)
    fix bs assume "live_ok b0 h bs L"
    from live_free [OF this release.hyps(2)] release.hyps(3) show ?thesis by auto
  qed (use release.hyps(2) in simp)
qed simp

text \<open>
  C29. For every program that frees only what it holds: the blocks that it holds, with their headers,
  never overlap, lie in the memory it got from \<open>sbrk\<close> and have room for the bytes it asked for; the
  free blocks are exactly the rest of that memory, so that no unit is lost; and \<open>malloc\<close> and \<open>free\<close> return.
\<close>

theorem malloc_blocks_disjoint:
  assumes "program g b0 h L"
  shows "(\<forall>x \<in> L. \<forall>y \<in> L. x \<noteq> y \<longrightarrow> held x \<inter> held y = {}) \<and> (\<forall>x \<in> L. held x \<subseteq> {b0..<brk h}) \<and>
    (\<forall>(a, nb) \<in> L. int nb \<le> 16 * (units nb - 1)) \<and> (L \<noteq> {} \<longrightarrow> (\<exists>bs. ring h bs \<and> free_units h bs = {b0..<brk h} - \<Union> (held ` L))) \<and>
    (\<forall>nb < 2 ^ 30. malloc g nb h \<noteq> None) \<and> (\<forall>(a, nb) \<in> L. ufree a h \<noteq> None)"
  using program_inv [OF assms]
proof (elim disjE exE conjE)
  assume h: "freep h = None" "L = {}" "hbase h < brk h" "brk h = b0"
  then show ?thesis using malloc_first(3) [OF h(1,3) units_bounds(1,2)] by fastforce
next
  fix bs assume l: "live_ok b0 h bs L"
  note k = live_okD [OF l]
  have "free_units h bs = {b0..<brk h} - \<Union> (held ` L)" using k(6,8) by blast
  then have "\<exists>bs. ring h bs \<and> free_units h bs = {b0..<brk h} - \<Union> (held ` L)" using k(1) by blast
  moreover have "malloc g nb h \<noteq> None" if "nb < 2 ^ 30" for nb
    using malloc_run [OF k(1) units_bounds(1) units_bounds(2) [OF that], of g] by auto
  moreover have "ufree a h \<noteq> None" if "(a, nb) \<in> L" for a nb using live_free [OF l that] by auto
  ultimately show ?thesis using k(5,7) units_bounds(3) by (intro conjI) auto
qed

text \<open>A program that allocates twice and frees the first block.\<close>

definition demo_heap :: heap where
  "demo_heap = \<lparr>hptr = (\<lambda>_. 0), hsize = (\<lambda>_. 0), freep = None, hbase = 0, brk = 16\<rparr>"

lemma demo_malloc: "map_option fst (malloc (\<lambda>_ _. True) 100 demo_heap) = Some (Some 4105)"
  by code_simp

theorem malloc_blocks_disjoint_witness:
  "\<exists>h. program (\<lambda>_ _. True) 16 h {(4105, 100)} \<and> held (4105, 100) \<subseteq> {16..<brk h}"
proof -
  obtain h where m: "malloc (\<lambda>_ _. True) 100 demo_heap = Some (Some 4105, h)" using demo_malloc by auto
  have "program (\<lambda>_ _. True) 16 demo_heap {}" by (rule start) (simp_all add: demo_heap_def)
  then have p: "program (\<lambda>_ _. True) 16 h {(4105, 100)}" using alloc [OF _ _ m] by simp
  from malloc_blocks_disjoint [OF p] have "\<forall>x \<in> {(4105, 100)}. held x \<subseteq> {16..<brk h}" by (elim conjE)
  then have "held (4105, 100) \<subseteq> {16..<brk h}" by simp
  with p show ?thesis by (intro exI conjI)
qed

end
