(* ===== verification/Spec2Isabelle.thy ===== *)
theory Spec2Isabelle
  imports Boot Pagetable_Spec Vma_Spec Munmap_Spec Fork_Spec Proc_Spec Pipe_Spec Console_Spec Asm_Spec Spinlock_Spec Log_Spec Grep Sh Umalloc
begin

text \<open>
  Verification of xv6-riscv with \<open>mmap\<close> and \<open>munmap\<close>.

  \<^bold>\<open>The program.\<close> xv6 is a small Unix kernel for RISC-V. Below the kernel is the machine: physical memory,
  harts with their registers, a UART, an interrupt controller and a virtio disk. The kernel allocates
  physical pages (\<open>kernel/kalloc.c\<close>), builds page tables over them (\<open>kernel/vm.c\<close>), runs processes
  (\<open>kernel/proc.c\<close>), and stores files on the disk through a driver (\<open>kernel/virtio_disk.c\<close>), a cache of blocks
  (\<open>kernel/bio.c\<close>), a redo log (\<open>kernel/log.c\<close>) and a file system (\<open>kernel/fs.c\<close>). Open files, pipes and the
  console (\<open>kernel/file.c\<close>, \<open>kernel/pipe.c\<close>, \<open>kernel/console.c\<close>) are what user programs see, through the system
  calls (\<open>kernel/syscall.c\<close>, \<open>kernel/sysproc.c\<close>, \<open>kernel/sysfile.c\<close>) that a trap enters (\<open>kernel/trap.c\<close> and the
  assembly routines). This version adds files mapped into memory: each process has a sorted list of
  areas (\<open>kernel/vma.h\<close>) taken from one global array, \<open>mmap\<close> and \<open>munmap\<close> of \<open>kernel/file.c\<close> change it, \<open>usertrap\<close>
  loads pages on first access, \<open>fork\<close> copies the areas and \<open>exit\<close> removes them.

  \<^bold>\<open>How the code is modelled.\<close> \<open>Prelude\<close> has the vocabulary. A C function with effects is a function from a
  state to an \<open>outcome\<close>: \<open>Ok\<close> with the value and the new state, or \<open>Halt\<close> with the reason why it does not
  return, a panic, a fault of an access in the kernel, the end of the process, or \<open>Blocked\<close>, a sleep that
  only another process can end or a loop that never ends. \<open>bnd\<close> is the sequence of two statements,
  \<open>for_each\<close> a \<open>for\<close> loop over a list. Integers are words of their width wherever they can wrap. The
  state is a chain of extensible records, one for each layer, so that the functions of a layer work
  on the states of all layers above: \<open>machine\<close> (memory, locks held by the hart), \<open>kmem\<close>, the process
  table, sleep locks, disk, log, file system, console, pipes, file table, areas, traps. A pointer to an
  element of a static array (\<open>proc\<close>, \<open>bcache.buf\<close>, \<open>itable.inode\<close>, \<open>ftable.file\<close>, \<open>vmas\<close>) is its index, 0 is
  \<open>None\<close>; a pointer into memory is its address.

  \<^bold>\<open>Theories and sources.\<close>
  \<^item> \<open>Riscv\<close>: the macros of \<open>riscv.h\<close>, \<open>memlayout.h\<close>, \<open>param.h\<close>, \<open>fcntl.h\<close>, \<open>vma.h\<close>.
  \<^item> \<open>Machine\<close>: memory, \<open>string.c\<close>, the locks that the executing hart holds. \<open>Bytes\<close>: words in byte buffers.
  \<^item> \<open>Kalloc\<close>: \<open>kalloc.c\<close>. \<open>Vm\<close>: \<open>vm.c\<close>. \<open>Pagetable\<close>: the lemmas on translations that the others use.
  \<^item> \<open>Spinlock\<close>: \<open>spinlock.c\<close> on several harts, one shared access at a time.
  \<^item> \<open>Proc\<close> and \<open>Process\<close>: \<open>proc.c\<close>, without and with the parts that need files. \<open>Sleeplock\<close>: \<open>sleeplock.c\<close>.
  \<^item> \<open>Virtio\<close>: \<open>virtio_disk.c\<close>; the device is a function of the posted request, as the virtio specification
    promises, and records the writes it has completed. \<open>Bio\<close>: \<open>bio.c\<close>. \<open>Log\<close>: \<open>log.c\<close>. \<open>Fs\<close>: \<open>fs.c\<close>.
  \<^item> \<open>Console\<close>: \<open>uart.c\<close>, \<open>console.c\<close>, \<open>printf.c\<close>. \<open>Pipe\<close>: \<open>pipe.c\<close>. \<open>File\<close> and \<open>Vma\<close>: \<open>file.c\<close>.
  \<^item> \<open>Exec\<close>: \<open>exec.c\<close>. \<open>Syscall\<close>, \<open>Sysfile\<close>: the system calls. \<open>Trap\<close>: \<open>trap.c\<close>, \<open>plic.c\<close>. \<open>Boot\<close>: \<open>start.c\<close>, \<open>main.c\<close>.
  \<^item> \<open>Asm\<close>: \<open>swtch.S\<close>, \<open>trampoline.S\<close>, \<open>kernelvec.S\<close>, \<open>entry.S\<close>, \<open>initcode.S\<close> and the stubs of \<open>usys.pl\<close>, as lists of
    instructions with an interpreter.
  \<^item> \<open>Ulib\<close>: \<open>user/ulib.c\<close> and \<open>user/printf.c\<close>. \<open>Grep\<close>: \<open>user/grep.c\<close>. \<open>Sh\<close>: the parser of \<open>user/sh.c\<close>.
    \<open>Umalloc\<close>: \<open>user/umalloc.c\<close>; the answer of the kernel to \<open>sbrk\<close> is a parameter.
  \<^item> \<open>Demo\<close>: a concrete kernel state for the witnesses.

  \<^bold>\<open>Interfaces.\<close> \<open>page_allocator\<close> (\<open>Kalloc\<close>) is what \<open>kalloc\<close> and \<open>kfree\<close> promise, interpreted on them.
  \<open>page_view\<close> and \<open>kmem_view\<close> (\<open>Frames\<close>) say that the allocator and the page-table operations leave a view of
  the state alone; they are interpreted for the locks, the kernel's end and the process table.
  \<open>bounded_fifo\<close> (\<open>Ring\<close>) is a queue of bounded capacity, interpreted on the ring of a pipe and on the
  transmit ring of the UART. The harts of \<open>Spinlock\<close> refine the list of held locks of \<open>Machine\<close>.

  \<^bold>\<open>What is shown.\<close>
  \<^item> Memory: \<open>kinit\<close> frees every page once, \<open>kalloc\<close> and \<open>kfree\<close> refine the allocator contract, \<open>memmove\<close> copies
    overlapping blocks (\<open>Kalloc\<close>, \<open>Machine\<close>); \<open>mappages\<close>, \<open>uvmunmap\<close>, \<open>copyout\<close> and \<open>copyin\<close> do to the
    translation and to user memory what they should and nothing else (\<open>Pagetable_Spec\<close>).
  \<^item> Mapped files: \<open>mmap\<close> is first fit and keeps the list sorted and disjoint (\<open>Vma_Spec\<close>); \<open>munmap\<close> of a
    whole clean area whose leaf page tables exist returns its slot, its file reference and its frames,
    and the loop of \<open>exit\<close> over such areas ends with all of them gone (\<open>Munmap_Spec\<close>); \<open>fork\<close> copies the list
    (\<open>Fork_Spec\<close>). The cases in which the code fails are theorems too: \<open>munmap\<close> of an area without page
    tables, an area of length 0, a lock kept by \<open>mmap\<close>, a truncated copy by \<open>fork\<close>.
  \<^item> Processes: the invariant of the process table under every operation of a hart, the life cycle of
    a process, \<open>yield\<close>, \<open>kill\<close>, and that \<open>sys_sleep\<close> waits at least the ticks it is given, under a fair
    scheduler that may run other processes in between (\<open>Proc_Spec\<close>); mutual exclusion of the spin locks for every
    interleaving of the harts (\<open>Spinlock_Spec\<close>); the context switch and the trap entry and exit restore
    the registers (\<open>Asm_Spec\<close>).
  \<^item> Storage: the driver implements a block device (\<open>Virtio_Spec\<close>), the cache a coherent store of blocks
    (\<open>Bio_Spec\<close>), and a transaction of the log is atomic when the machine stops after any number of the
    disk writes of \<open>commit\<close> (\<open>Log_Spec\<close>).
  \<^item> Streams: pipes and the UART deliver bytes in order, \<open>printint\<close> prints the number (\<open>Pipe_Spec\<close>,
    \<open>Console_Spec\<close>).
  \<^item> User programs: the matcher of \<open>grep\<close> decides the language of the pattern and \<open>grep\<close> prints the matching
    lines (\<open>Grep\<close>); the parser of the shell ends on every line with a well-formed command or an error, and
    hands on exactly the words of the line (\<open>Sh\<close>); the blocks of \<open>malloc\<close> never overlap and no memory is
    lost, whatever a program allocates and frees (\<open>Umalloc\<close>).

  \<^bold>\<open>Bounds.\<close> Loops over static arrays recurse over the list of indices. \<open>mmap_loop\<close> has the bound
  \<open>Suc MAX_VMAS\<close>: a list has at most \<open>MAX_VMAS\<close> areas, and \<open>mmap_first_fit\<close> shows that the bound is not reached
  on a well-formed list. The loop of \<open>exit\<close> over the areas need not end and is a \<open>while_option\<close>, where not
  ending is \<open>Blocked\<close>; both outcomes are shown. \<open>strlen\<close> and \<open>strcpy\<close>, which run on without a terminator,
  are partial functions into \<open>option\<close>, as are the searches of \<open>malloc\<close> and \<open>free\<close>, which are shown to
  return. The functions of the shell's parser take the number of nested calls they may make, four
  per character and four more, which \<open>parsecmd_total\<close> shows to be enough. \<open>sys_sleep\<close> takes the list of what
  the hart does during each of its sleeps; \<open>n\<close> of them are shown to be enough for \<open>n\<close> ticks.

  \<^bold>\<open>Not modelled.\<close>
  \<^item> \<open>kernel/ramdisk.c\<close> is not part of the kernel that the Makefile builds; \<open>defs.h\<close>, \<open>date.h\<close> and \<open>user.h\<close> are
    prototypes. The one-instruction accessors of \<open>riscv.h\<close> are reads and writes of the register file.
  \<^item> Kernel code runs here as one hart sees it, with interrupts as explicit events; the interleaving of
    several harts is modelled for the spin locks, which is what makes the view of one hart sound for the
    data they protect. The memory model of the hardware is sequential.
  \<^item> \<open>sched\<close> has the checks of the locks and of the state; the interrupt-enable flag that it tests and the
    saved \<open>intena\<close> belong to the harts of \<open>Spinlock\<close>. In \<open>sleep_until\<close> the caller says what the hart does until
    the process is chosen again: \<open>sys_sleep\<close> leaves it open, the disk driver takes the device's answer and
    its interrupt, and nothing of other processes in between. The buffers and descriptors of a request
    belong to the sleeping process.
  \<^item> The disk reports no errors and stores a block of 1024 bytes under its first sector. A \<open>struct pipe\<close>
    is kept beside the bytes of the page that holds it. Reference counts and the sizes of \<open>malloc\<close> are
    unbounded, addresses there are counted in units of a header. \<open>printint\<close> of the kernel is modelled for
    signed numbers, which is how all its callers use it.
  \<^item> The shell's message about the rest of a rejected line goes to the terminal and is not kept; a
    command of the parser is always allocated.
  \<^item> The part of \<open>user/sh.c\<close> that runs a parsed command: it is a sequence of system calls
    in several processes. The other programs under \<open>user/\<close> are test drivers (\<open>usertests\<close>, \<open>grind\<close>,
    \<open>mmaptest\<close>, \<open>forktest\<close>, \<open>stressfs\<close>) and short tools made of system calls. \<open>mkfs/mkfs.c\<close> runs on the build host.
\<close>

end
